(* ===== verification/Prelude.thy ===== *)
theory Prelude
  imports Main "HOL-Library.Sublist" "HOL-Library.Product_Lexorder" "HOL-Library.Char_ord"
    "HOL-Library.List_Lexorder"
begin

text \<open>
  Shared material: the parts of Rust's standard library that the modelled code uses
  (string slicing, splitting and replacing, iterator selection, \<open>std::cmp::Reverse\<close>),
  and the interface of an event fold, which several components instantiate.

  A Rust \<open>str\<close> is a list of characters here (\<^typ>\<open>string\<close>): one \<^typ>\<open>char\<close> stands for one Rust
  \<open>char\<close>, so texts range over the code points up to 255. Where the source measures a text in
  bytes (\<open>len()\<close>), the model measures characters; the two agree on ASCII text, which is
  what every grammar that the source checks by byte length admits.
\<close>

text \<open>The largest values of the unsigned integers that the code saturates or checks against.\<close>

definition U32_MAX :: nat where "U32_MAX = 2 ^ 32 - 1"
definition U64_MAX :: nat where "U64_MAX = 2 ^ 64 - 1"
definition U128_MAX :: nat where "U128_MAX = 2 ^ 128 - 1"

named_theorems rust_str \<open>characteristic equations of the string operations\<close>

subsection \<open>Slicing and searching\<close>

definition strip_prefix :: "'a list \<Rightarrow> 'a list \<Rightarrow> 'a list option" where
  "strip_prefix p s = (if prefix p s then Some (drop (length p) s) else None)"

definition strip_suffix :: "'a list \<Rightarrow> 'a list \<Rightarrow> 'a list option" where
  "strip_suffix p s = (if suffix p s then Some (take (length s - length p) s) else None)"

definition starts_with :: "'a list \<Rightarrow> 'a list \<Rightarrow> bool" where
  "starts_with s p \<longleftrightarrow> prefix p s"

definition ends_with :: "'a list \<Rightarrow> 'a list \<Rightarrow> bool" where
  "ends_with s p \<longleftrightarrow> suffix p s"

declare starts_with_def [simp] ends_with_def [simp]

fun str_contains :: "'a list \<Rightarrow> 'a list \<Rightarrow> bool" where
  "str_contains [] p \<longleftrightarrow> p = []"
| "str_contains (c # s) p \<longleftrightarrow> prefix p (c # s) \<or> str_contains s p"

function str_replace :: "'a list \<Rightarrow> 'a list \<Rightarrow> 'a list \<Rightarrow> 'a list" where
  "str_replace s pat to =
     (case s of [] \<Rightarrow> []
      | c # cs \<Rightarrow>
          if pat \<noteq> [] \<and> prefix pat s then to @ str_replace (drop (length pat) s) pat to
          else c # str_replace cs pat to)"
  by pat_completeness auto
termination
  by (relation "measure (\<lambda>(s, pat, to). length s)") (auto simp: diff_less)

declare str_replace.simps [simp del]

text \<open>
  \<open>str::split\<close> on one character: the pieces between its occurrences, so that the empty text
  has one empty piece.
\<close>

fun split_on :: "'a \<Rightarrow> 'a list \<Rightarrow> 'a list list" where
  "split_on c [] = [[]]"
| "split_on c (x # xs) =
     (if x = c then [] # split_on c xs
      else (case split_on c xs of [] \<Rightarrow> [[x]] | p # ps \<Rightarrow> (x # p) # ps))"

text \<open>\<open>str::split_once\<close> at the first occurrence of a text.\<close>

fun split_once :: "'a list \<Rightarrow> 'a list \<Rightarrow> ('a list \<times> 'a list) option" where
  "split_once [] p = (if p = [] then Some ([], []) else None)"
| "split_once (c # s) p =
     (if prefix p (c # s) then Some ([], drop (length p) (c # s))
      else map_option (\<lambda>(a, b). (c # a, b)) (split_once s p))"

fun join :: "'a list \<Rightarrow> 'a list list \<Rightarrow> 'a list" where
  "join sep [] = []"
| "join sep [x] = x"
| "join sep (x # y # zs) = x @ sep @ join sep (y # zs)"

definition trim_start_of :: "('a \<Rightarrow> bool) \<Rightarrow> 'a list \<Rightarrow> 'a list" where
  "trim_start_of P s = dropWhile P s"

definition trim_end_of :: "('a \<Rightarrow> bool) \<Rightarrow> 'a list \<Rightarrow> 'a list" where
  "trim_end_of P s = rev (dropWhile P (rev s))"

definition trim_of :: "('a \<Rightarrow> bool) \<Rightarrow> 'a list \<Rightarrow> 'a list" where
  "trim_of P s = trim_end_of P (trim_start_of P s)"

text \<open>\<open>char::is_whitespace\<close> on the code points up to 255.\<close>

definition is_whitespace :: "char \<Rightarrow> bool" where
  "is_whitespace c \<longleftrightarrow>
     of_char c \<in> ({9, 10, 11, 12, 13, 32, 133, 160} :: nat set)"

definition trim :: "string \<Rightarrow> string" where
  "trim s = trim_of is_whitespace s"

definition is_ascii_digit :: "char \<Rightarrow> bool" where
  "is_ascii_digit c \<longleftrightarrow> 48 \<le> (of_char c :: nat) \<and> of_char c \<le> (57 :: nat)"

definition is_ascii_lowercase :: "char \<Rightarrow> bool" where
  "is_ascii_lowercase c \<longleftrightarrow> 97 \<le> (of_char c :: nat) \<and> of_char c \<le> (122 :: nat)"

definition is_ascii_uppercase :: "char \<Rightarrow> bool" where
  "is_ascii_uppercase c \<longleftrightarrow> 65 \<le> (of_char c :: nat) \<and> of_char c \<le> (90 :: nat)"

definition is_ascii_alphabetic :: "char \<Rightarrow> bool" where
  "is_ascii_alphabetic c \<longleftrightarrow> is_ascii_lowercase c \<or> is_ascii_uppercase c"

definition to_ascii_lowercase :: "char \<Rightarrow> char" where
  "to_ascii_lowercase c =
     (if is_ascii_uppercase c then char_of ((of_char c :: nat) + 32) else c)"

definition eq_ignore_ascii_case :: "string \<Rightarrow> string \<Rightarrow> bool" where
  "eq_ignore_ascii_case a b \<longleftrightarrow> map to_ascii_lowercase a = map to_ascii_lowercase b"

text \<open>\<open>Iterator::position\<close>.\<close>

fun position :: "('a \<Rightarrow> bool) \<Rightarrow> 'a list \<Rightarrow> nat option" where
  "position P [] = None"
| "position P (x # xs) = (if P x then Some 0 else map_option Suc (position P xs))"

text \<open>\<open>slice::get\<close>: no element out of range.\<close>

definition nth_opt :: "'a list \<Rightarrow> nat \<Rightarrow> 'a option" where
  "nth_opt xs i = (if i < length xs then Some (xs ! i) else None)"

text \<open>Checks made one after another, each with the operator \<open>?\<close>.\<close>

definition ensure :: "bool \<Rightarrow> 'e \<Rightarrow> 'e + unit" where
  "ensure ok e = (if ok then Inr () else Inl e)"

fun all_checks :: "('e + unit) list \<Rightarrow> 'e + unit" where
  "all_checks [] = Inr ()"
| "all_checks (Inl e # cs) = Inl e"
| "all_checks (Inr u # cs) = all_checks cs"

subsubsection \<open>Equations\<close>

lemma position_Some: "position P xs = Some i \<Longrightarrow> i < length xs \<and> P (xs ! i)"
  by (induction xs arbitrary: i) (auto split: if_splits)

lemma position_None: "position P xs = None \<longleftrightarrow> (\<forall>x\<in>set xs. \<not> P x)"
  by (induction xs) auto

lemma position_before: "position P xs = Some i \<Longrightarrow> k < i \<Longrightarrow> \<not> P (xs ! k)"
  by (induction xs arbitrary: i k) (auto split: if_splits simp: nth_Cons' gr0_conv_Suc)

lemma ensure_simps [simp]:
  "ensure ok e = Inr u \<longleftrightarrow> ok" "ensure ok e = Inl e' \<longleftrightarrow> \<not> ok \<and> e' = e"
  by (auto simp: ensure_def)

lemma all_checks_Inr: "all_checks cs = Inr u \<longleftrightarrow> (\<forall>c\<in>set cs. c = Inr ())"
  by (induction cs rule: all_checks.induct) auto

lemma all_checks_Inl: "all_checks cs = Inl e \<Longrightarrow> Inl e \<in> set cs"
  by (induction cs rule: all_checks.induct) auto

lemma nth_opt_None [simp]: "nth_opt xs i = None \<longleftrightarrow> length xs \<le> i"
  by (auto simp: nth_opt_def)

lemma nth_opt_ex [simp]: "(\<exists>x. nth_opt xs i = Some x) \<longleftrightarrow> i < length xs"
  by (auto simp: nth_opt_def)

lemma nth_opt_SomeD: "nth_opt xs i = Some x \<Longrightarrow> i < length xs"
  by (auto simp: nth_opt_def split: if_splits)

lemma nth_opt_Some: "nth_opt xs i = Some x \<longleftrightarrow> i < length xs \<and> xs ! i = x"
  by (auto simp: nth_opt_def)

lemma nth_opt_drop: "nth_opt xs i = Some x \<Longrightarrow> drop i xs = x # drop (Suc i) xs"
  by (auto simp: nth_opt_Some Cons_nth_drop_Suc)

lemma strip_prefix_Some [rust_str]: "strip_prefix p s = Some r \<longleftrightarrow> s = p @ r"
  by (auto simp: strip_prefix_def prefix_def)

lemma strip_prefix_append [simp]: "strip_prefix p (p @ r) = Some r"
  by (simp add: rust_str)

lemma strip_prefix_simps [simp]:
  "strip_prefix [] s = Some s"
  "strip_prefix (a # p) [] = None"
  "strip_prefix (a # p) (b # s) = (if a = b then strip_prefix p s else None)"
  by (auto simp: strip_prefix_def)

lemma strip_prefix_no [simp]: "\<not> prefix p s \<Longrightarrow> strip_prefix p s = None"
  by (simp add: strip_prefix_def)

lemma strip_prefix_None: "strip_prefix p s = None \<longleftrightarrow> \<not> prefix p s"
  by (simp add: strip_prefix_def)

lemma strip_suffix_Some [rust_str]: "strip_suffix p s = Some r \<longleftrightarrow> s = r @ p"
  by (auto simp: strip_suffix_def suffix_def)

lemma strip_suffix_append [simp]: "strip_suffix p (r @ p) = Some r"
  by (simp add: rust_str)

lemma strip_suffix_None: "strip_suffix p s = None \<longleftrightarrow> \<not> suffix p s"
  by (simp add: strip_suffix_def)

lemma str_contains_iff_sublist: "str_contains s p \<longleftrightarrow> sublist p s"
  by (induction s) (auto simp: sublist_Cons_right)

lemma split_on_not_Nil [simp]: "split_on c s \<noteq> []"
  by (induction s) (auto split: list.splits)

lemma join_split_on [simp]: "join [c] (split_on c s) = s"
proof (induction s)
  case (Cons x xs)
  then show ?case by (cases "split_on c xs"; cases "tl (split_on c xs)") auto
qed simp

lemma split_on_no_sep: "p \<in> set (split_on c s) \<Longrightarrow> c \<notin> set p"
proof (induction s arbitrary: p)
  case (Cons x xs)
  then show ?case by (cases "split_on c xs") (auto split: if_splits)
qed simp

lemma split_on_single [simp]: "c \<notin> set s \<Longrightarrow> split_on c s = [s]"
  by (induction s) auto

lemma split_on_append_sep [simp]:
  "c \<notin> set p \<Longrightarrow> split_on c (p @ c # s) = p # split_on c s"
  by (induction p) auto

lemma split_on_join:
  "ps \<noteq> [] \<Longrightarrow> (\<And>p. p \<in> set ps \<Longrightarrow> c \<notin> set p) \<Longrightarrow> split_on c (join [c] ps) = ps"
  by (induction "[c]" ps rule: join.induct) auto

lemma split_on_pieces_subset: "p \<in> set (split_on c s) \<Longrightarrow> set p \<subseteq> set s"
proof (induction s arbitrary: p)
  case (Cons x xs)
  then show ?case by (cases "split_on c xs") (fastforce split: if_splits)+
qed simp

lemma split_once_Some: "split_once s p = Some (a, b) \<Longrightarrow> s = a @ p @ b"
  by (induction s arbitrary: a b) (auto simp: prefix_def split: if_splits)

lemma split_once_at: "c \<notin> set a \<Longrightarrow> split_once (a @ c # r) [c] = Some (a, r)"
  by (induction a) auto

lemma split_once_absent: "split_once s [c] = None \<longleftrightarrow> c \<notin> set s"
  by (induction s) (auto simp: prefix_def)

lemma split_once_iff: "split_once s [c] = Some (a, b) \<longleftrightarrow> s = a @ c # b \<and> c \<notin> set a"
proof
  assume *: "split_once s [c] = Some (a, b)"
  moreover have "c \<notin> set a" using * by (induction s arbitrary: a b) (auto simp: prefix_def split: if_splits)
  ultimately show "s = a @ c # b \<and> c \<notin> set a" using split_once_Some [of s "[c]" a b] by simp
qed (auto simp: split_once_at)

lemma str_replace_Nil [simp]: "str_replace [] pat to = []"
  by (subst str_replace.simps) simp

lemma str_replace_absent: "\<not> str_contains s pat \<Longrightarrow> str_replace s pat to = s"
  by (induction s) (auto simp: str_replace.simps [of "_ # _"])

text \<open>\<open>str::rfind\<close>: where the last occurrence starts.\<close>

fun rfind :: "'a list \<Rightarrow> 'a list \<Rightarrow> nat option" where
  "rfind p [] = (if p = [] then Some 0 else None)"
| "rfind p (c # s) =
     (case rfind p s of
        Some i \<Rightarrow> Some (Suc i)
      | None \<Rightarrow> if prefix p (c # s) then Some 0 else None)"

lemma rfind_None: "p \<noteq> [] \<Longrightarrow> rfind p s = None \<longleftrightarrow> \<not> str_contains s p"
  by (induction s) (auto split: option.splits)

lemma rfind_append:
  "rfind p s = Some i \<Longrightarrow> rfind p (t @ s) = Some (length t + i)"
  by (induction t) auto

text \<open>A number as \<open>Display\<close> writes it.\<close>

fun show_nat :: "nat \<Rightarrow> string" where
  "show_nat n = (if n < 10 then [char_of (48 + n)] else show_nat (n div 10) @ [char_of (48 + n mod 10)])"

declare show_nat.simps [simp del]

lemma of_char_digit: "n < 10 \<Longrightarrow> of_char (char_of (48 + n :: nat)) = 48 + n"
  by simp

lemma show_nat_digits: "c \<in> set (show_nat n) \<Longrightarrow> is_ascii_digit c"
proof (induction n arbitrary: c rule: show_nat.induct)
  case (1 n)
  show ?case
  proof (cases "n < 10")
    case True
    with "1.prems" show ?thesis by (simp add: show_nat.simps [of n] is_ascii_digit_def)
  next
    case False
    then have "c \<in> set (show_nat (n div 10)) \<or> c = char_of (48 + n mod 10)"
      using "1.prems" by (auto simp: show_nat.simps [of n])
    with "1.IH" False show ?thesis by (auto simp: is_ascii_digit_def)
  qed
qed

subsection \<open>Decimal numbers\<close>

definition digits_value :: "string \<Rightarrow> nat" where
  "digits_value s = foldl (\<lambda>n c. n * 10 + (of_char c - 48)) 0 s"

text \<open>
  \<open>str::parse\<close> for an unsigned integer up to \<open>limit\<close>: an optional \<open>+\<close>, then digits.
\<close>

definition parse_unsigned :: "nat \<Rightarrow> string \<Rightarrow> nat option" where
  "parse_unsigned limit s =
     (let digits = (case s of c # cs \<Rightarrow> if c = CHR ''+'' then cs else s | [] \<Rightarrow> [])
      in if digits = [] \<or> \<not> list_all is_ascii_digit digits \<or> digits_value digits > limit
         then None else Some (digits_value digits))"

definition parse_u32 :: "string \<Rightarrow> nat option" where
  "parse_u32 s = parse_unsigned U32_MAX s"

lemma digits_value_snoc: "digits_value (s @ [c]) = digits_value s * 10 + (of_char c - 48)"
  by (simp add: digits_value_def)

lemma digits_value_show: "digits_value (show_nat n) = n"
proof (induction n rule: show_nat.induct)
  case (1 n)
  show ?case
  proof (cases "n < 10")
    case True
    then show ?thesis by (simp add: show_nat.simps [of n] digits_value_def)
  next
    case False
    then have "digits_value (show_nat n) = digits_value (show_nat (n div 10)) * 10 + n mod 10"
      by (simp add: show_nat.simps [of n] digits_value_snoc)
    with 1 False show ?thesis by simp
  qed
qed

subsection \<open>Selecting from an iterator\<close>

text \<open>\<open>Iterator::max_by_key\<close> keeps the last of several maxima, \<open>min_by_key\<close> the first minimum.\<close>

fun max_by_key :: "('a \<Rightarrow> 'k::linorder) \<Rightarrow> 'a list \<Rightarrow> 'a option" where
  "max_by_key f [] = None"
| "max_by_key f (x # xs) = Some (fold (\<lambda>y m. if f m \<le> f y then y else m) xs x)"

fun min_by_key :: "('a \<Rightarrow> 'k::linorder) \<Rightarrow> 'a list \<Rightarrow> 'a option" where
  "min_by_key f [] = None"
| "min_by_key f (x # xs) = Some (fold (\<lambda>y m. if f y < f m then y else m) xs x)"

lemma fold_max_in:
  "fold (\<lambda>y m. if f m \<le> f y then y else m) xs x \<in> insert x (set xs)"
  by (induction xs arbitrary: x) auto

lemma fold_max_ge:
  "y \<in> insert x (set xs) \<Longrightarrow> f y \<le> (f (fold (\<lambda>y m. if f m \<le> f y then y else m) xs x) :: 'k::linorder)"
proof (induction xs arbitrary: x y)
  case (Cons a xs)
  let ?m = "if f x \<le> f a then a else x"
  have "f y \<le> f (if y \<in> set xs then y else ?m)"
    using Cons.prems by auto
  also have "\<dots> \<le> f (fold (\<lambda>y m. if f m \<le> f y then y else m) xs ?m)"
    by (rule Cons.IH) auto
  finally show ?case by simp
qed simp

lemma max_by_key_None [simp]: "max_by_key f xs = None \<longleftrightarrow> xs = []"
  by (cases xs) auto

lemma max_by_key_Some:
  assumes "max_by_key f xs = Some m"
  shows "m \<in> set xs" and "x \<in> set xs \<Longrightarrow> f x \<le> f m"
  using assms fold_max_in [of f "tl xs" "hd xs"] fold_max_ge [of x "hd xs" "tl xs" f]
  by (cases xs; auto)+

lemma max_by_key_unique:
  assumes "m \<in> set xs" and "\<And>x. x \<in> set xs \<Longrightarrow> x \<noteq> m \<Longrightarrow> f x < f m"
  shows "max_by_key f xs = Some m"
proof -
  from assms(1) obtain m' where m': "max_by_key f xs = Some m'"
    by (cases "max_by_key f xs") auto
  then have "m' \<in> set xs" and "f m \<le> f m'"
    using max_by_key_Some [OF m'] assms(1) by auto
  with assms(2) [of m'] m' show ?thesis by force
qed

lemma fold_min_in:
  "fold (\<lambda>y m. if f y < f m then y else m) xs x \<in> insert x (set xs)"
  by (induction xs arbitrary: x) auto

lemma fold_min_le:
  "y \<in> insert x (set xs) \<Longrightarrow> (f (fold (\<lambda>y m. if f y < f m then y else m) xs x) :: 'k::linorder) \<le> f y"
proof (induction xs arbitrary: x y)
  case (Cons a xs)
  let ?m = "if f a < f x then a else x"
  have "f (fold (\<lambda>y m. if f y < f m then y else m) xs ?m) \<le> f (if y \<in> set xs then y else ?m)"
    by (rule Cons.IH) auto
  also have "\<dots> \<le> f y"
    using Cons.prems by auto
  finally show ?case by simp
qed simp

lemma min_by_key_None [simp]: "min_by_key f xs = None \<longleftrightarrow> xs = []"
  by (cases xs) auto

lemma min_by_key_Some:
  assumes "min_by_key f xs = Some m"
  shows "m \<in> set xs" and "x \<in> set xs \<Longrightarrow> f m \<le> f x"
  using assms fold_min_in [of f "tl xs" "hd xs"] fold_min_le [of x "hd xs" "tl xs" f]
  by (cases xs; auto)+

subsection \<open>\<open>std::cmp::Reverse\<close>\<close>

datatype 'a reverse = Reverse 'a

instantiation reverse :: (linorder) linorder
begin

fun less_eq_reverse :: "'a reverse \<Rightarrow> 'a reverse \<Rightarrow> bool" where
  "less_eq_reverse (Reverse a) (Reverse b) \<longleftrightarrow> b \<le> a"

fun less_reverse :: "'a reverse \<Rightarrow> 'a reverse \<Rightarrow> bool" where
  "less_reverse (Reverse a) (Reverse b) \<longleftrightarrow> b < a"

instance
proof
  fix x y z :: "'a reverse"
  show "(x < y) = (x \<le> y \<and> \<not> y \<le> x)" by (cases x; cases y) auto
  show "x \<le> x" by (cases x) simp
  show "x \<le> y \<Longrightarrow> y \<le> z \<Longrightarrow> x \<le> z" by (cases x; cases y; cases z) simp
  show "x \<le> y \<Longrightarrow> y \<le> x \<Longrightarrow> x = y" by (cases x; cases y) simp
  show "x \<le> y \<or> y \<le> x" by (cases x; cases y) auto
qed

end

subsection \<open>Event folds\<close>

text \<open>
  Projections of a session's log are folded one event at a time from a start state. The
  interface: a step function and an invariant that the start state has and every step
  keeps. What follows once and for all: the invariant holds after any log, and folding a log
  that grew needs only what it gained.
\<close>

locale event_fold =
  fixes start :: 's and observe :: "'s \<Rightarrow> 'e \<Rightarrow> 's" and inv :: "'s \<Rightarrow> bool"
  assumes inv_start: "inv start"
    and inv_observe: "inv s \<Longrightarrow> inv (observe s e)"
begin

definition run :: "'e list \<Rightarrow> 's" where
  "run es = foldl observe start es"

lemma inv_foldl: "inv s \<Longrightarrow> inv (foldl observe s es)"
  by (induction es arbitrary: s) (auto intro: inv_observe)

lemma inv_run: "inv (run es)"
  by (simp add: run_def inv_foldl inv_start)

lemma run_append: "run (es @ es') = foldl observe (run es) es'"
  by (simp add: run_def)

end

end
