(* ===== verification/Wildcard.thy ===== *)
theory Wildcard
  imports Prelude
begin

text \<open>
  Wildcard patterns: the matcher of \<open>crates/config/src/wildcard.rs\<close>, a loop with one
  backtracking point, and the intersection test of
  \<open>crates/engine_permissions/src/lib.rs\<close>, a search over pairs of positions. Both are
  compared with \<open>glob\<close>, the meaning of a pattern: \<open>*\<close> stands for any text and \<open>?\<close> for
  one character.
\<close>

subsection \<open>The meaning of a pattern\<close>

abbreviation star :: char where "star \<equiv> CHR ''*''"
abbreviation question :: char where "question \<equiv> CHR ''?''"

fun glob :: "string \<Rightarrow> string \<Rightarrow> bool" where
  "glob [] s \<longleftrightarrow> s = []"
| "glob (c # p) [] \<longleftrightarrow> c = star \<and> glob p []"
| "glob (c # p) (d # s) \<longleftrightarrow>
     (if c = star then glob p (d # s) \<or> glob (c # p) s
      else (c = question \<or> c = d) \<and> glob p s)"

lemma glob_star_iff: "glob (star # p) s \<longleftrightarrow> (\<exists>a b. s = a @ b \<and> glob p b)"
proof (induction s)
  case Nil
  then show ?case by simp
next
  case (Cons d s)
  then show ?case
    by (auto simp: Cons_eq_append_conv)
qed

lemma glob_star_skip: "glob (star # p) s \<Longrightarrow> glob (star # p) (t @ s)"
  by (metis append_assoc glob_star_iff)

lemma glob_starI: "glob p s \<Longrightarrow> glob (star # p) (t @ s)"
  using glob_star_iff by blast

lemma glob_star_Nil [simp]: "glob [star] s"
  by (induction s) auto

lemma glob_Nil_text: "glob p [] \<longleftrightarrow> list_all (\<lambda>c. c = star) p"
  by (induction p) auto

lemma glob_append_star_free:
  "star \<notin> set w \<Longrightarrow> glob (w @ p) s \<longleftrightarrow>
     (length w \<le> length s \<and> glob w (take (length w) s) \<and> glob p (drop (length w) s))"
proof (induction w arbitrary: s)
  case (Cons c w)
  then show ?case by (cases s) auto
qed simp

lemma glob_length: "glob p s \<Longrightarrow> length (filter (\<lambda>c. c \<noteq> star) p) \<le> length s"
  by (induction p s rule: glob.induct) (auto split: if_splits)

subsection \<open>The matcher\<close>

text \<open>What every state of the loop below satisfies after its first star.\<close>

definition wm_settled :: "nat \<Rightarrow> nat \<Rightarrow> nat option \<Rightarrow> nat \<Rightarrow> bool" where
  "wm_settled p r st retry \<longleftrightarrow> (case st of None \<Rightarrow> True | Some i \<Rightarrow> i < p \<and> retry \<le> r)"

text \<open>
  \<open>wildcard_match\<close>: the while loop over the resource index \<open>r\<close> and the pattern index \<open>p\<close>,
  with the index of the last star and the place to retry from. The literal comparison comes
  before the star test, as in the source.
\<close>

function wm_loop :: "string \<Rightarrow> string \<Rightarrow> nat \<Rightarrow> nat \<Rightarrow> nat option \<Rightarrow> nat \<Rightarrow> nat option" where
  "wm_loop pat res p r st retry =
     (if r < length res then
        if p < length pat \<and> (pat ! p = question \<or> pat ! p = res ! r)
        then wm_loop pat res (p + 1) (r + 1) st retry
        else if p < length pat \<and> pat ! p = star
        then wm_loop pat res (p + 1) r (Some p) r
        else (case st of
                Some i \<Rightarrow> wm_loop pat res (i + 1) (retry + 1) st (retry + 1)
              | None \<Rightarrow> None)
      else Some p)"
  by pat_completeness auto

termination
  by (relation "measures
      [\<lambda>(pat, res, p, r, st, retry). if wm_settled p r st retry then 0 else 1,
       \<lambda>(pat, res, p, r, st, retry).
         if wm_settled p r st retry
         then (case st of None \<Rightarrow> length pat + 1 | Some i \<Rightarrow> length pat - i) else 0,
       \<lambda>(pat, res, p, r, st, retry).
         if wm_settled p r st retry \<and> st \<noteq> None then length res - retry else 0,
       \<lambda>(pat, res, p, r, st, retry). length res - r]")
    (auto simp: wm_settled_def split: option.splits)

declare wm_loop.simps [simp del]

text \<open>One unfolding per branch of the loop body.\<close>

lemma wm_loop_end: "\<not> r < length res \<Longrightarrow> wm_loop pat res p r st retry = Some p"
  by (subst wm_loop.simps) simp

lemma wm_loop_lit:
  "r < length res \<Longrightarrow> p < length pat \<Longrightarrow> pat ! p = question \<or> pat ! p = res ! r \<Longrightarrow>
     wm_loop pat res p r st retry = wm_loop pat res (Suc p) (Suc r) st retry"
  by (subst wm_loop.simps) simp

lemma wm_loop_star:
  "r < length res \<Longrightarrow> p < length pat \<Longrightarrow> \<not> (pat ! p = question \<or> pat ! p = res ! r) \<Longrightarrow>
     pat ! p = star \<Longrightarrow> wm_loop pat res p r st retry = wm_loop pat res (Suc p) r (Some p) r"
  by (subst wm_loop.simps) simp

lemma wm_loop_again:
  "r < length res \<Longrightarrow> \<not> (p < length pat \<and> (pat ! p = question \<or> pat ! p = res ! r)) \<Longrightarrow>
     \<not> (p < length pat \<and> pat ! p = star) \<Longrightarrow>
     wm_loop pat res p r st retry =
       (case st of None \<Rightarrow> None | Some i \<Rightarrow> wm_loop pat res (Suc i) (Suc retry) st (Suc retry))"
  by (cases "p < length pat"; cases st; subst wm_loop.simps; simp)

lemmas wm_loop_steps = wm_loop_end wm_loop_lit wm_loop_star wm_loop_again

text \<open>The second loop: the stars left in the pattern are skipped.\<close>

function skip_stars :: "string \<Rightarrow> nat \<Rightarrow> nat" where
  "skip_stars pat p = (if p < length pat \<and> pat ! p = star then skip_stars pat (p + 1) else p)"
  by pat_completeness auto
termination
  by (relation "measure (\<lambda>(pat, p). length pat - p)") auto

declare skip_stars.simps [simp del]

definition wildcard_match :: "string \<Rightarrow> string \<Rightarrow> bool" where
  "wildcard_match pat res =
     (case wm_loop pat res 0 0 None 0 of
        None \<Rightarrow> False
      | Some p \<Rightarrow> skip_stars pat p = length pat)"

definition simple_wildcard_match :: "string \<Rightarrow> string \<Rightarrow> bool" where
  "simple_wildcard_match pat res \<longleftrightarrow>
     wildcard_match pat res
     \<or> (case strip_suffix '' *'' pat of None \<Rightarrow> False | Some pre \<Rightarrow> wildcard_match pre res)"

lemma skip_stars_iff:
  "p \<le> length pat \<Longrightarrow>
     skip_stars pat p = length pat \<longleftrightarrow> list_all (\<lambda>c. c = star) (drop p pat)"
proof (induction pat p rule: skip_stars.induct)
  case (1 pat p)
  show ?case
  proof (cases "p < length pat \<and> pat ! p = star")
    case True
    then have "drop p pat = star # drop (p + 1) pat"
      by (metis Cons_nth_drop_Suc Suc_eq_plus1)
    with True 1 show ?thesis by (simp add: skip_stars.simps [of pat p])
  next
    case False
    then have "skip_stars pat p = p"
      by (subst skip_stars.simps) auto
    moreover have "list_all (\<lambda>c. c = star) (drop p pat) \<longleftrightarrow> p = length pat"
      using False "1.prems" by (cases "p < length pat") (auto simp: Cons_nth_drop_Suc [symmetric])
    ultimately show ?thesis by simp
  qed
qed

text \<open>What the loop decides when it ends at pattern index \<open>p\<close>.\<close>

definition wm_accepts :: "string \<Rightarrow> nat option \<Rightarrow> bool" where
  "wm_accepts pat out = (case out of None \<Rightarrow> False | Some p \<Rightarrow> skip_stars pat p = length pat)"

lemma drop_glob_step:
  assumes "r < length res" and "p < length pat"
  shows "glob (drop p pat) (drop r res) \<longleftrightarrow>
    (if pat ! p = star then glob (drop (Suc p) pat) (drop r res)
        \<or> glob (drop p pat) (drop (Suc r) res)
     else (pat ! p = question \<or> pat ! p = res ! r)
        \<and> glob (drop (Suc p) pat) (drop (Suc r) res))"
  using Cons_nth_drop_Suc [OF assms(1), symmetric] Cons_nth_drop_Suc [OF assms(2), symmetric]
  by simp

subsubsection \<open>Soundness\<close>

text \<open>
  Whatever the loop accepts is a match: it accepts from the current indices, or from the last
  star at a later place.
\<close>

lemma wm_loop_sound:
  assumes "wm_accepts pat (wm_loop pat res p r st retry)" "p \<le> length pat" "r \<le> length res"
    and "\<And>i. st = Some i \<Longrightarrow> i < length pat \<and> retry \<le> r"
  shows "glob (drop p pat) (drop r res)
    \<or> (\<exists>i t. st = Some i \<and> retry < t \<and> t \<le> length res \<and> glob (drop (Suc i) pat) (drop t res))"
  using assms
proof (induction pat res p r st retry rule: wm_loop.induct)
  case (1 pat res p r st retry)
  consider
      (fin) "\<not> r < length res"
    | (lit) "r < length res" "p < length pat" "pat ! p = question \<or> pat ! p = res ! r"
    | (wild) "r < length res" "p < length pat" "\<not> (pat ! p = question \<or> pat ! p = res ! r)"
        "pat ! p = star"
    | (again) "r < length res" "\<not> (p < length pat \<and> (pat ! p = question \<or> pat ! p = res ! r))"
        "\<not> (p < length pat \<and> pat ! p = star)"
    by blast
  then show ?case
  proof cases
    case fin
    with "1.prems" show ?thesis
      by (auto simp: wm_accepts_def wm_loop_end skip_stars_iff glob_Nil_text)
  next
    case lit
    have "wm_accepts pat (wm_loop pat res (p + 1) (r + 1) st retry)"
      using lit "1.prems"(1) by (simp add: wm_loop_lit)
    then have "glob (drop (Suc p) pat) (drop (Suc r) res)
      \<or> (\<exists>i t. st = Some i \<and> retry < t \<and> t \<le> length res \<and> glob (drop (Suc i) pat) (drop t res))"
      using "1.IH"(1) lit "1.prems" by fastforce
    moreover have "glob (drop (Suc p) pat) (drop (Suc r) res) \<Longrightarrow> glob (drop p pat) (drop r res)"
      using drop_glob_step [OF lit(1,2)] lit(3)
        glob_starI [of "drop (Suc p) pat" "drop (Suc r) res" "[res ! r]"]
        Cons_nth_drop_Suc [OF lit(2), symmetric] Cons_nth_drop_Suc [OF lit(1), symmetric]
      by (cases "pat ! p = star") auto
    ultimately show ?thesis by blast
  next
    case wild
    have "wm_accepts pat (wm_loop pat res (p + 1) r (Some p) r)"
      using wild "1.prems"(1) by (simp add: wm_loop_star)
    then have "glob (drop (Suc p) pat) (drop r res)
      \<or> (\<exists>t. r < t \<and> t \<le> length res \<and> glob (drop (Suc p) pat) (drop t res))"
      using "1.IH"(2) wild "1.prems" by fastforce
    then have "\<exists>t\<ge>r. glob (drop (Suc p) pat) (drop t res)"
      by (meson le_refl less_imp_le)
    then obtain t where "r \<le> t" and "glob (drop (Suc p) pat) (drop t res)" by blast
    moreover have "drop r res = take (t - r) (drop r res) @ drop t res"
      by (metis \<open>r \<le> t\<close> append_take_drop_id drop_drop le_add_diff_inverse2)
    ultimately have "glob (star # drop (Suc p) pat) (drop r res)"
      by (metis glob_starI)
    then show ?thesis
      using wild by (metis Cons_nth_drop_Suc)
  next
    case again
    then obtain i where i: "st = Some i"
      using "1.prems"(1) wm_loop_again [OF again] by (cases st) (auto simp: wm_accepts_def)
    have "wm_accepts pat (wm_loop pat res (i + 1) (retry + 1) st (retry + 1))"
      using "1.prems"(1) wm_loop_again [OF again] i by simp
    then have "glob (drop (i + 1) pat) (drop (retry + 1) res)
      \<or> (\<exists>t. retry + 1 < t \<and> t \<le> length res \<and> glob (drop (Suc i) pat) (drop t res))"
      using "1.IH"(3) again i "1.prems" by fastforce
    moreover have "retry + 1 \<le> length res"
      using again "1.prems"(4) [OF i] by simp
    ultimately show ?thesis
      using i by (auto intro: exI [of _ "Suc retry"])
  qed
qed

lemma wildcard_match_sound: "wildcard_match pat res \<Longrightarrow> glob pat res"
  using wm_loop_sound [of pat res 0 0 None 0]
  by (auto simp: wildcard_match_def wm_accepts_def)


lemma glob_star_drop:
  assumes "glob (star # p) (drop s res)" "s \<le> length res"
  obtains t where "s \<le> t" "t \<le> length res" "glob p (drop t res)"
proof -
  from assms(1) obtain a b where ab: "drop s res = a @ b" "glob p b"
    by (auto simp: glob_star_iff)
  have "b = drop (s + length a) res"
    using arg_cong [OF ab(1), of "drop (length a)"] by (simp add: add.commute)
  moreover have "s + length a \<le> length res"
    using arg_cong [OF ab(1), of length] assms(2) by simp
  ultimately show thesis using ab(2) that [of "s + length a"] by simp
qed

subsubsection \<open>Completeness\<close>

text \<open>
  The loop finds every match of a resource without a literal star. With one, a pattern star
  standing at it is taken for that character, and the match through the star is never tried.
\<close>

definition wm_inv :: "string \<Rightarrow> nat \<Rightarrow> nat \<Rightarrow> nat option \<Rightarrow> nat \<Rightarrow> bool" where
  "wm_inv pat p r st retry \<longleftrightarrow>
     (case st of None \<Rightarrow> True
      | Some i \<Rightarrow> i < p \<and> retry \<le> r \<and> p - Suc i = r - retry
          \<and> star \<notin> set (take (p - Suc i) (drop (Suc i) pat)))"

lemma wm_inv_lit:
  assumes "wm_inv pat p r st retry" "p < length pat" "pat ! p \<noteq> star"
  shows "wm_inv pat (Suc p) (Suc r) st retry"
proof (cases st)
  case (Some i)
  with assms(1) have i: "i < p" "retry \<le> r" "p - Suc i = r - retry"
    "star \<notin> set (take (p - Suc i) (drop (Suc i) pat))"
    by (auto simp: wm_inv_def)
  have Suc: "Suc p - Suc i = Suc (p - Suc i)"
    using i(1) by simp
  have "take (Suc p - Suc i) (drop (Suc i) pat)
      = take (p - Suc i) (drop (Suc i) pat) @ [drop (Suc i) pat ! (p - Suc i)]"
    unfolding Suc by (rule take_Suc_conv_app_nth) (use i(1) assms(2) in simp)
  moreover have "drop (Suc i) pat ! (p - Suc i) = pat ! p"
    using i(1) assms(2) by simp
  ultimately have "star \<notin> set (take (Suc p - Suc i) (drop (Suc i) pat))"
    using i(4) assms(3) by auto
  with Some i show ?thesis by (simp add: wm_inv_def Suc_diff_le)
qed (simp add: wm_inv_def)

lemma wm_accepts_end:
  assumes "glob (drop p pat) []" "p \<le> length pat"
  shows "wm_accepts pat (Some p)"
  using assms by (simp add: wm_accepts_def skip_stars_iff glob_Nil_text)

lemma wm_loop_complete:
  assumes "star \<notin> set res" "p \<le> length pat" "r \<le> length res" "wm_inv pat p r st retry"
    and "glob (drop p pat) (drop r res)
      \<or> (\<exists>i t. st = Some i \<and> retry < t \<and> t \<le> length res \<and> glob (drop (Suc i) pat) (drop t res))"
  shows "wm_accepts pat (wm_loop pat res p r st retry)"
  using assms
proof (induction pat res p r st retry rule: wm_loop.induct)
  case (1 pat res p r st retry)
  \<comment> \<open>A later place for the last star needs a text longer than the piece after it.\<close>
  have piece: "glob (drop p pat) (drop (t + (p - Suc i)) res) \<and> t + (p - Suc i) \<le> length res"
    if i: "st = Some i" and t: "t \<le> length res" and g: "glob (drop (Suc i) pat) (drop t res)" for i t
  proof -
    let ?w = "take (p - Suc i) (drop (Suc i) pat)"
    have len: "length ?w = p - Suc i" and free: "star \<notin> set ?w" and le: "Suc i \<le> p"
      using "1.prems"(2,4) i by (auto simp: wm_inv_def)
    have "glob (?w @ drop p pat) (drop t res)"
      using g le by (metis append_take_drop_id drop_drop le_add_diff_inverse2)
    then have "p - Suc i \<le> length (drop t res)"
      and "glob (drop p pat) (drop (p - Suc i) (drop t res))"
      using glob_append_star_free [OF free] len by auto
    with t show ?thesis by (simp add: add.commute)
  qed
  consider
      (fin) "\<not> r < length res"
    | (lit) "r < length res" "p < length pat" "pat ! p = question \<or> pat ! p = res ! r"
    | (wild) "r < length res" "p < length pat" "\<not> (pat ! p = question \<or> pat ! p = res ! r)"
        "pat ! p = star"
    | (again) "r < length res" "\<not> (p < length pat \<and> (pat ! p = question \<or> pat ! p = res ! r))"
        "\<not> (p < length pat \<and> pat ! p = star)"
    by blast
  then show ?case
  proof cases
    case fin
    have "glob (drop p pat) []"
      using "1.prems"(5)
    proof
      assume "\<exists>i t. st = Some i \<and> retry < t \<and> t \<le> length res \<and> glob (drop (Suc i) pat) (drop t res)"
      then obtain i t where "st = Some i" "retry < t" "t + (p - Suc i) \<le> length res"
        using piece by blast
      with fin "1.prems"(3,4) show ?thesis by (auto simp: wm_inv_def)
    qed (use fin in auto)
    with fin "1.prems"(2) show ?thesis by (simp add: wm_loop_end wm_accepts_end)
  next
    case lit
    have "res ! r \<in> set res"
      using lit(1) by (rule nth_mem)
    then have "res ! r \<noteq> star"
      using "1.prems"(1) by metis
    then have "pat ! p \<noteq> star"
      using lit(3) by auto
    then have "wm_inv pat (Suc p) (Suc r) st retry"
      using "1.prems"(4) lit(2) by (intro wm_inv_lit)
    moreover have "glob (drop (Suc p) pat) (drop (Suc r) res)
      \<or> (\<exists>i t. st = Some i \<and> retry < t \<and> t \<le> length res \<and> glob (drop (Suc i) pat) (drop t res))"
      using "1.prems"(5) drop_glob_step [OF lit(1,2)] \<open>pat ! p \<noteq> star\<close> by auto
    ultimately show ?thesis
      using "1.IH"(1) lit "1.prems"(1) by (simp add: wm_loop_lit)
  next
    case wild
    have "\<exists>s\<ge>r. s \<le> length res \<and> glob (drop p pat) (drop s res)"
      using "1.prems"(5)
    proof
      assume "\<exists>i t. st = Some i \<and> retry < t \<and> t \<le> length res \<and> glob (drop (Suc i) pat) (drop t res)"
      then obtain i t where "st = Some i" "retry < t" "t + (p - Suc i) \<le> length res"
        "glob (drop p pat) (drop (t + (p - Suc i)) res)"
        using piece by blast
      with "1.prems"(4) show ?thesis
        by (intro exI [of _ "t + (p - Suc i)"]) (auto simp: wm_inv_def)
    qed (use "1.prems"(3) in auto)
    then obtain s where s: "r \<le> s" "s \<le> length res" "glob (drop p pat) (drop s res)"
      by blast
    then have "glob (star # drop (Suc p) pat) (drop s res)"
      using wild by (metis Cons_nth_drop_Suc)
    then obtain t where "s \<le> t" "t \<le> length res" "glob (drop (Suc p) pat) (drop t res)"
      using s(2) by (rule glob_star_drop)
    then have "glob (drop (Suc p) pat) (drop r res)
      \<or> (\<exists>t. r < t \<and> t \<le> length res \<and> glob (drop (Suc p) pat) (drop t res))"
      using s(1) by (metis le_neq_implies_less le_trans)
    then show ?thesis
      using "1.IH"(2) wild "1.prems"(1) by (simp add: wm_loop_star wm_inv_def)
  next
    case again
    have "\<not> glob (drop p pat) (drop r res)"
    proof (cases "p < length pat")
      case True
      with again show ?thesis by (simp add: drop_glob_step)
    qed (use again in simp)
    then obtain i t where i: "st = Some i"
      and t: "retry < t" "t \<le> length res" "glob (drop (Suc i) pat) (drop t res)"
      using "1.prems"(5) by blast
    then have "Suc i \<le> length pat"
      using "1.prems"(2,4) by (auto simp: wm_inv_def)
    moreover have "glob (drop (Suc i) pat) (drop (Suc retry) res)
      \<or> (\<exists>t. Suc retry < t \<and> t \<le> length res \<and> glob (drop (Suc i) pat) (drop t res))"
      using t by (metis Suc_lessI)
    ultimately show ?thesis
      using "1.IH"(3) [OF again(1)] again i "1.prems"(1) t
      by (simp add: wm_loop_again wm_inv_def)
  qed
qed

lemma wildcard_match_complete:
  assumes "star \<notin> set res" "glob pat res"
  shows "wildcard_match pat res"
proof -
  have "wm_accepts pat (wm_loop pat res 0 0 None 0)"
    using assms by (intro wm_loop_complete) (auto simp: wm_inv_def)
  then show ?thesis by (simp add: wildcard_match_def wm_accepts_def)
qed

lemma wildcard_match_iff: "star \<notin> set res \<Longrightarrow> wildcard_match pat res \<longleftrightarrow> glob pat res"
  using wildcard_match_sound wildcard_match_complete by blast


subsubsection \<open>The trailing blank star\<close>

text \<open>A trailing \<open> *\<close> also matches the bare text before it.\<close>

definition glob_simple :: "string \<Rightarrow> string \<Rightarrow> bool" where
  "glob_simple pat s \<longleftrightarrow>
     glob pat s \<or> (case strip_suffix '' *'' pat of None \<Rightarrow> False | Some pre \<Rightarrow> glob pre s)"

lemma simple_wildcard_match_sound:
  "simple_wildcard_match pat res \<Longrightarrow> glob_simple pat res"
  by (auto simp: simple_wildcard_match_def glob_simple_def wildcard_match_sound split: option.splits)

lemma simple_wildcard_match_iff:
  "star \<notin> set res \<Longrightarrow> simple_wildcard_match pat res \<longleftrightarrow> glob_simple pat res"
  by (auto simp: simple_wildcard_match_def glob_simple_def wildcard_match_iff split: option.splits)

text \<open>
  The pattern \<open>*\<close> alone: it matches every resource but those that start with \<open>*\<close>.
\<close>

lemma wm_loop_bare_star:
  "wm_loop [star] res 1 r (Some 0) r = Some 1"
proof (induction "length res - r" arbitrary: r)
  case 0
  then show ?case by (simp add: wm_loop_end)
next
  case (Suc n)
  then show ?case by (simp add: wm_loop_again)
qed

lemma wildcard_star_any: "res = [] \<or> hd res \<noteq> star \<Longrightarrow> simple_wildcard_match [star] res"
  using wm_loop_bare_star [of res 0]
  by (cases res)
    (auto simp: simple_wildcard_match_def wildcard_match_def wm_loop_end wm_loop_star
      skip_stars.simps hd_conv_nth)

subsection \<open>Intersection of two patterns\<close>

text \<open>
  \<open>globs_intersect\<close>: a search over pairs of positions with a stack of pending pairs (its top
  is the head of the list) and the set of pairs seen. \<open>gi_pushes\<close> lists what one visit
  pushes, in order.
\<close>

definition gi_pushes :: "string \<Rightarrow> string \<Rightarrow> nat \<Rightarrow> nat \<Rightarrow> (nat \<times> nat) list" where
  "gi_pushes l r i j =
     (let a = nth_opt l i; b = nth_opt r j in
      if a = Some star \<or> b = Some star then
        (if a = Some star then (i + 1, j) # (if b \<noteq> None then [(i, j + 1)] else []) else [])
        @ (if b = Some star then (i, j + 1) # (if a \<noteq> None then [(i + 1, j)] else []) else [])
      else (case (a, b) of
              (Some a, Some b) \<Rightarrow>
                if a = question \<or> b = question \<or> a = b then [(i + 1, j + 1)] else []
            | _ \<Rightarrow> []))"

definition gi_weight :: "string \<Rightarrow> string \<Rightarrow> nat \<times> nat \<Rightarrow> nat" where
  "gi_weight l r = (\<lambda>(i, j). 5 ^ ((length l - i) + (length r - j)))"

lemma gi_pushes_weight:
  "sum_list (map (gi_weight l r) (gi_pushes l r i j)) < gi_weight l r (i, j)"
proof -
  have step: "x \<in> set (gi_pushes l r i j) \<Longrightarrow> 5 * gi_weight l r x \<le> gi_weight l r (i, j)" for x
    by (auto simp: gi_pushes_def gi_weight_def Let_def nth_opt_def Suc_diff_Suc
        power_Suc [symmetric] add_Suc [symmetric] simp del: power_Suc add_Suc
        intro!: power_increasing split: if_splits)
  have len: "length (gi_pushes l r i j) \<le> 4"
    by (auto simp: gi_pushes_def Let_def split: option.splits)
  have "5 * sum_list (map (gi_weight l r) (gi_pushes l r i j)) \<le> 4 * gi_weight l r (i, j)"
  proof -
    have "xs \<noteq> [] \<or> xs = [] \<Longrightarrow> (\<And>x. x \<in> set xs \<Longrightarrow> 5 * gi_weight l r x \<le> w) \<Longrightarrow>
        5 * sum_list (map (gi_weight l r) xs) \<le> length xs * w" for xs w
      by (induction xs) (auto simp: algebra_simps intro: add_mono)
    from this [OF _ step] have "5 * sum_list (map (gi_weight l r) (gi_pushes l r i j))
        \<le> length (gi_pushes l r i j) * gi_weight l r (i, j)"
      by blast
    also have "\<dots> \<le> 4 * gi_weight l r (i, j)"
      using len by (rule mult_le_mono1)
    finally show ?thesis .
  qed
  moreover have "0 < gi_weight l r (i, j)"
    by (simp add: gi_weight_def)
  ultimately show ?thesis by linarith
qed

function gi_loop :: "string \<Rightarrow> string \<Rightarrow> (nat \<times> nat) list \<Rightarrow> (nat \<times> nat) list \<Rightarrow> bool" where
  "gi_loop l r [] seen = False"
| "gi_loop l r ((i, j) # pending) seen =
     (if (i, j) \<in> set seen then gi_loop l r pending seen
      else if nth_opt l i = None \<and> nth_opt r j = None then True
      else gi_loop l r (rev (gi_pushes l r i j) @ pending) ((i, j) # seen))"
  by pat_completeness auto
termination
proof (relation "measure (\<lambda>(l, r, pending, seen). sum_list (map (gi_weight l r) pending))")
  fix l r i j and pending seen :: "(nat \<times> nat) list"
  show "((l, r, pending, seen), (l, r, (i, j) # pending, seen))
      \<in> measure (\<lambda>(l, r, pending, seen). sum_list (map (gi_weight l r) pending))"
    by (simp add: gi_weight_def)
  show "((l, r, rev (gi_pushes l r i j) @ pending, (i, j) # seen), (l, r, (i, j) # pending, seen))
      \<in> measure (\<lambda>(l, r, pending, seen). sum_list (map (gi_weight l r) pending))"
    using gi_pushes_weight [of l r i j] by (simp add: rev_map [symmetric])
qed simp

definition globs_intersect :: "string \<Rightarrow> string \<Rightarrow> bool" where
  "globs_intersect l r = gi_loop l r [(0, 0)] []"

definition spellings :: "string \<Rightarrow> string list" where
  "spellings pat = pat # (case strip_suffix '' *'' pat of None \<Rightarrow> [] | Some pre \<Rightarrow> [pre])"

definition patterns_intersect :: "string \<Rightarrow> string \<Rightarrow> bool" where
  "patterns_intersect l r \<longleftrightarrow>
     (\<exists>x \<in> set (spellings l). \<exists>y \<in> set (spellings r). globs_intersect x y)"


subsubsection \<open>Exactness\<close>

text \<open>Two positions meet when one text, here without a literal star, matches what is left of both.\<close>

definition meets :: "string \<Rightarrow> string \<Rightarrow> nat \<times> nat \<Rightarrow> bool" where
  "meets l r = (\<lambda>(i, j). \<exists>s. star \<notin> set s \<and> glob (drop i l) s \<and> glob (drop j r) s)"

lemma meets_end:
  "nth_opt l i = None \<Longrightarrow> nth_opt r j = None \<Longrightarrow> meets l r (i, j)"
  by (auto simp: meets_def)

lemma glob_skip_first: "glob p s \<Longrightarrow> glob (star # p) s"
  by (cases s) auto

lemma glob_eat: "glob (star # p) s \<Longrightarrow> glob (star # p) (c # s)"
  by simp

text \<open>What a pushed pair meets in, the pair that pushed it meets in too.\<close>

lemma glob_head_ex: "c \<noteq> star \<Longrightarrow> \<exists>d. d \<noteq> star \<and> (c = question \<or> c = d)"
  by (rule exI [of _ "if c = question then CHR ''a'' else c"]) simp

lemma meets_star_left:
  assumes a: "nth_opt l i = Some star"
  shows "meets l r (Suc i, j) \<Longrightarrow> meets l r (i, j)"
    and "j < length r \<Longrightarrow> meets l r (i, Suc j) \<Longrightarrow> meets l r (i, j)"
proof -
  note L = nth_opt_drop [OF a]
  show "meets l r (Suc i, j) \<Longrightarrow> meets l r (i, j)"
    by (auto simp: meets_def L intro: glob_skip_first)
  assume j: "j < length r" and "meets l r (i, Suc j)"
  then obtain s where s: "star \<notin> set s"
    "glob (star # drop (Suc i) l) s" "glob (drop (Suc j) r) s"
    by (auto simp: meets_def L)
  from j obtain c where c: "nth_opt r j = Some c"
    by (simp add: nth_opt_Some)
  note R = nth_opt_drop [OF c]
  show "meets l r (i, j)"
  proof (cases "c = star")
    case True
    with s R L show ?thesis by (auto simp: meets_def intro!: exI [of _ s] glob_skip_first)
  next
    case False
    then obtain d where "d \<noteq> star" "c = question \<or> c = d"
      using glob_head_ex by blast
    with s R L False show ?thesis
      by (auto simp: meets_def intro!: exI [of _ "d # s"])
  qed
qed

lemma meets_commute: "meets l r (i, j) \<longleftrightarrow> meets r l (j, i)"
  by (auto simp: meets_def)

lemma meets_literal:
  assumes "nth_opt l i = Some a" "nth_opt r j = Some b" "a \<noteq> star" "b \<noteq> star"
    and "a = question \<or> b = question \<or> a = b" "meets l r (Suc i, Suc j)"
  shows "meets l r (i, j)"
proof -
  from assms(6) obtain s where s: "star \<notin> set s" "glob (drop (Suc i) l) s" "glob (drop (Suc j) r) s"
    by (auto simp: meets_def)
  obtain d where "d \<noteq> star" "a = question \<or> a = d" "b = question \<or> b = d"
    using assms(3-5) glob_head_ex [of "if a = question then b else a"] by (auto split: if_splits)
  with s assms(3,4) show ?thesis
    by (auto simp: meets_def nth_opt_drop [OF assms(1)] nth_opt_drop [OF assms(2)]
        intro!: exI [of _ "d # s"])
qed

text \<open>Where a pushed pair comes from.\<close>

lemma gi_pushes_cases:
  assumes "x \<in> set (gi_pushes l r i j)"
  obtains (left_next) "nth_opt l i = Some star" "x = (Suc i, j)"
  | (left_eat) "nth_opt l i = Some star" "j < length r" "x = (i, Suc j)"
  | (right_next) "nth_opt r j = Some star" "x = (i, Suc j)"
  | (right_eat) "nth_opt r j = Some star" "i < length l" "x = (Suc i, j)"
  | (both) a b where "nth_opt l i = Some a" "nth_opt r j = Some b" "a \<noteq> star" "b \<noteq> star"
      "a = question \<or> b = question \<or> a = b" "x = (Suc i, Suc j)"
proof (cases "nth_opt l i = Some star \<or> nth_opt r j = Some star")
  case True
  then have "(nth_opt l i = Some star \<and> (x = (Suc i, j) \<or> j < length r \<and> x = (i, Suc j)))
    \<or> (nth_opt r j = Some star \<and> (x = (i, Suc j) \<or> i < length l \<and> x = (Suc i, j)))"
    using assms by (auto simp: gi_pushes_def Let_def dest: nth_opt_SomeD split: if_splits)
  then show thesis using that(1-4) by blast
next
  case False
  then obtain a b where "nth_opt l i = Some a" "nth_opt r j = Some b"
    "a = question \<or> b = question \<or> a = b" "x = (Suc i, Suc j)"
    using assms by (cases "nth_opt l i"; cases "nth_opt r j")
      (simp_all add: gi_pushes_def split: if_splits)
  with False show thesis using that(5) by simp
qed

lemma meets_push:
  assumes "x \<in> set (gi_pushes l r i j)" "meets l r x"
  shows "meets l r (i, j)"
  using assms(1)
proof (cases rule: gi_pushes_cases)
  case right_next
  with assms(2) show ?thesis
    using meets_star_left(1) [of r j l i] by (simp add: meets_commute [of l r])
next
  case right_eat
  with assms(2) show ?thesis
    using meets_star_left(2) [of r j i l] by (simp add: meets_commute [of l r])
next
  case (both a b)
  with assms(2) show ?thesis by (auto intro: meets_literal)
qed (use assms(2) meets_star_left in auto)


text \<open>Two positions with a common text are both at their end, or push a pair that has one.\<close>

definition both_match :: "string \<Rightarrow> string \<Rightarrow> nat \<times> nat \<Rightarrow> string \<Rightarrow> bool" where
  "both_match l r = (\<lambda>(i, j) s. glob (drop i l) s \<and> glob (drop j r) s)"

lemma gi_pushes_star_left:
  assumes "nth_opt l i = Some star"
  shows "(Suc i, j) \<in> set (gi_pushes l r i j)"
    and "j < length r \<Longrightarrow> (i, Suc j) \<in> set (gi_pushes l r i j)"
  using assms by (simp_all add: gi_pushes_def Let_def)

lemma gi_pushes_star_right:
  assumes "nth_opt r j = Some star"
  shows "(i, Suc j) \<in> set (gi_pushes l r i j)"
    and "i < length l \<Longrightarrow> (Suc i, j) \<in> set (gi_pushes l r i j)"
  using assms by (auto simp: gi_pushes_def Let_def)

lemma gi_pushes_literal:
  assumes "nth_opt l i = Some a" "nth_opt r j = Some b" "a \<noteq> star" "b \<noteq> star"
    and "a = question \<or> b = question \<or> a = b"
  shows "(Suc i, Suc j) \<in> set (gi_pushes l r i j)"
  using assms by (simp add: gi_pushes_def Let_def)

lemmas gi_pushes_intros = gi_pushes_star_left gi_pushes_star_right gi_pushes_literal

lemma glob_drop_Nil:
  "glob (drop i l) [] \<Longrightarrow> i < length l \<Longrightarrow> nth_opt l i = Some star \<and> glob (drop (Suc i) l) []"
  by (simp add: nth_opt_Some Cons_nth_drop_Suc [symmetric])

lemma glob_drop_Cons:
  assumes "glob (drop i l) (c # s)"
  obtains a where "nth_opt l i = Some a" "a \<noteq> star" "a = question \<or> a = c" "glob (drop (Suc i) l) s"
  | "nth_opt l i = Some star" "glob (drop (Suc i) l) (c # s)"
  | "nth_opt l i = Some star" "glob (drop i l) s"
proof (cases "i < length l")
  case True
  then have "drop i l = l ! i # drop (Suc i) l" and "nth_opt l i = Some (l ! i)"
    by (simp_all add: Cons_nth_drop_Suc nth_opt_def)
  with assms that show thesis by (simp split: if_splits) blast+
qed (use assms in simp)

lemma both_match_cases:
  assumes "both_match l r (i, j) s"
  shows "(length l \<le> i \<and> length r \<le> j)
    \<or> (\<exists>x \<in> set (gi_pushes l r i j). \<exists>s'. both_match l r x s')"
  using assms
proof (induction s)
  case Nil
  then have nil: "glob (drop i l) []" "glob (drop j r) []"
    by (simp_all add: both_match_def)
  then consider "length l \<le> i \<and> length r \<le> j" | "i < length l" | "j < length r"
    by linarith
  then show ?case
  proof cases
    case 2
    with glob_drop_Nil [OF nil(1)] nil(2) show ?thesis
      by (intro disjI2 bexI [of _ "(Suc i, j)"] exI [of _ "[]"])
        (auto simp: both_match_def intro: gi_pushes_intros)
  next
    case 3
    with glob_drop_Nil [OF nil(2)] nil(1) show ?thesis
      by (intro disjI2 bexI [of _ "(i, Suc j)"] exI [of _ "[]"])
        (auto simp: both_match_def intro: gi_pushes_intros)
  qed blast
next
  case (Cons c s)
  then have gl: "glob (drop i l) (c # s)" and gr: "glob (drop j r) (c # s)"
    by (simp_all add: both_match_def)
  have push: ?case if "x \<in> set (gi_pushes l r i j)" "both_match l r x s'" for x s'
    using that by blast
  from gl show ?case
  proof (cases rule: glob_drop_Cons)
    case (1 a)
    note L = 1
    from gr show ?thesis
    proof (cases rule: glob_drop_Cons)
      case (1 b)
      with L show ?thesis
        by (intro push [of "(Suc i, Suc j)" s])
          (auto simp: both_match_def intro!: gi_pushes_literal)
    next
      case 2
      with gl show ?thesis
        by (intro push [of "(i, Suc j)" "c # s"]) (auto simp: both_match_def intro: gi_pushes_intros)
    next
      case 3
      with L show ?thesis
        by (intro push [of "(Suc i, j)" s])
          (auto simp: both_match_def dest: nth_opt_SomeD intro: gi_pushes_intros)
    qed
  next
    case 2
    with gr show ?thesis
      by (intro push [of "(Suc i, j)" "c # s"]) (auto simp: both_match_def intro: gi_pushes_intros)
  next
    case 3
    note L = 3
    from gr show ?thesis
    proof (cases rule: glob_drop_Cons)
      case (1 b)
      with L show ?thesis
        by (intro push [of "(i, Suc j)" s])
          (auto simp: both_match_def dest: nth_opt_SomeD intro: gi_pushes_intros)
    next
      case 2
      with gl show ?thesis
        by (intro push [of "(i, Suc j)" "c # s"]) (auto simp: both_match_def intro: gi_pushes_intros)
    next
      case 3
      with L Cons.IH show ?thesis by (simp add: both_match_def)
    qed
  qed
qed


subsubsection \<open>The search\<close>

lemma gi_loop_sound: "gi_loop l r pending seen \<Longrightarrow> \<exists>x \<in> set pending. meets l r x"
proof (induction l r pending seen rule: gi_loop.induct)
  case (2 l r i j pending seen)
  show ?case
  proof (cases "(i, j) \<in> set seen \<or> nth_opt l i = None \<and> nth_opt r j = None")
    case True
    with 2 show ?thesis by (auto intro: meets_end split: if_splits)
  next
    case False
    then have "\<exists>x \<in> set (rev (gi_pushes l r i j) @ pending). meets l r x"
      using 2 by auto
    then show ?thesis by (auto intro: meets_push)
  qed
qed simp

text \<open>
  When the search fails, the pairs it visited are closed under pushing and none is at the
  end of both patterns.
\<close>

definition gi_closed :: "string \<Rightarrow> string \<Rightarrow> (nat \<times> nat) set \<Rightarrow> (nat \<times> nat) set \<Rightarrow> bool" where
  "gi_closed l r visited allowed \<longleftrightarrow>
     (\<forall>(i, j) \<in> visited. \<not> (length l \<le> i \<and> length r \<le> j)
        \<and> set (gi_pushes l r i j) \<subseteq> allowed)"

lemma gi_closed_mono: "gi_closed l r V A \<Longrightarrow> A \<subseteq> A' \<Longrightarrow> gi_closed l r V A'"
  by (fastforce simp: gi_closed_def)

lemma gi_loop_fails:
  assumes "\<not> gi_loop l r pending seen" "gi_closed l r (set seen) (set seen \<union> set pending)"
  shows "\<exists>V. set seen \<union> set pending \<subseteq> V \<and> gi_closed l r V V"
  using assms
proof (induction l r pending seen rule: gi_loop.induct)
  case (1 l r seen)
  then show ?case by auto
next
  case (2 l r i j pending seen)
  show ?case
  proof (cases "(i, j) \<in> set seen")
    case True
    then have "set seen \<union> set ((i, j) # pending) = set seen \<union> set pending"
      by auto
    with 2 True show ?thesis by simp
  next
    case False
    note pushed = False
    have notend: "\<not> (length l \<le> i \<and> length r \<le> j)"
      using "2.prems"(1) False by (auto split: if_splits)
    have "gi_closed l r (set ((i, j) # seen))
        (set ((i, j) # seen) \<union> set (rev (gi_pushes l r i j) @ pending))"
      using "2.prems"(2) notend by (auto simp: gi_closed_def)
    then obtain V where "set ((i, j) # seen) \<union> set (rev (gi_pushes l r i j) @ pending) \<subseteq> V"
      "gi_closed l r V V"
      using "2.IH"(2) "2.prems"(1) False notend by (auto split: if_splits)
    then show ?thesis by (intro exI [of _ V]) auto
  qed
qed

lemma gi_closed_no_match:
  "gi_closed l r V V \<Longrightarrow> (i, j) \<in> V \<Longrightarrow> \<not> both_match l r (i, j) s"
proof (induction "gi_weight l r (i, j)" arbitrary: i j s rule: less_induct)
  case less
  have closed: "\<not> (length l \<le> i \<and> length r \<le> j)" "set (gi_pushes l r i j) \<subseteq> V"
    using less.prems by (auto simp: gi_closed_def)
  show ?case
  proof
    assume "both_match l r (i, j) s"
    then obtain x s' where x: "x \<in> set (gi_pushes l r i j)" "both_match l r x s'"
      using both_match_cases closed(1) by blast
    have "gi_weight l r x \<le> sum_list (map (gi_weight l r) (gi_pushes l r i j))"
      using x(1) by (intro member_le_sum_list) auto
    then have "gi_weight l r x < gi_weight l r (i, j)"
      using gi_pushes_weight [of l r i j] by linarith
    with less.hyps [of "fst x" "snd x" s'] less.prems(1) closed(2) x show False
      by (cases x) auto
  qed
qed

lemma globs_intersect_free:
  assumes "globs_intersect l r"
  shows "\<exists>s. star \<notin> set s \<and> glob l s \<and> glob r s"
  using gi_loop_sound [OF assms [unfolded globs_intersect_def]] by (simp add: meets_def)

lemma globs_intersect_iff: "globs_intersect l r \<longleftrightarrow> (\<exists>s. glob l s \<and> glob r s)"
proof
  assume "globs_intersect l r"
  then show "\<exists>s. glob l s \<and> glob r s"
    using globs_intersect_free by blast
next
  assume "\<exists>s. glob l s \<and> glob r s"
  then obtain s where s: "both_match l r (0, 0) s"
    by (auto simp: both_match_def)
  show "globs_intersect l r"
  proof (rule ccontr)
    assume "\<not> globs_intersect l r"
    then obtain V where "(0, 0) \<in> V" "gi_closed l r V V"
      using gi_loop_fails [of l r "[(0, 0)]" "[]"] by (auto simp: globs_intersect_def gi_closed_def)
    with s gi_closed_no_match show False by blast
  qed
qed

lemma glob_simple_spelling: "glob_simple pat s \<longleftrightarrow> (\<exists>x \<in> set (spellings pat). glob x s)"
  by (auto simp: glob_simple_def spellings_def split: option.splits)

subsection \<open>Properties\<close>

text \<open>
  Matching is exact on every resource that holds no literal \<open>*\<close>: the backtracking loop
  of \<open>simple_wildcard_match\<close> accepts exactly the texts the pattern stands for, where \<open>*\<close> is
  any text, \<open>?\<close> any one character, and a trailing \<open> *\<close> may be missing with its blank.
\<close>

theorem simple_wildcard_match_exact:
  "star \<notin> set res \<Longrightarrow>
     simple_wildcard_match pat res \<longleftrightarrow>
       glob pat res \<or> (\<exists>pre. pat = pre @ '' *'' \<and> glob pre res)"
  by (auto simp: simple_wildcard_match_iff glob_simple_def rust_str strip_suffix_None suffix_def
      split: option.splits)

theorem simple_wildcard_match_exact_witness:
  "star \<notin> set ''git status'' \<and> simple_wildcard_match ''git *'' ''git status''
    \<and> simple_wildcard_match ''git *'' ''git''
    \<and> (glob ''git *'' ''git status'' \<or> (\<exists>pre. ''git *'' = pre @ '' *'' \<and> glob pre ''git status''))"
proof -
  have free: "star \<notin> set ''git status''" and m: "simple_wildcard_match ''git *'' ''git status''"
    by code_simp+
  moreover have "simple_wildcard_match ''git *'' ''git''"
    by code_simp
  ultimately show ?thesis
    using simple_wildcard_match_exact [OF free, of "''git *''"] by blast
qed

text \<open>
  The star is not "any characters" where the resource itself holds a \<open>*\<close>: the loop takes
  the pattern's star for that literal character before it considers it a wildcard, so the
  rule pattern \<open>*\<close> does not cover the resource \<open>*.rs\<close>, which the pattern stands for.
\<close>

theorem star_pattern_misses_star_resource:
  "\<not> simple_wildcard_match ''*'' ''*.rs'' \<and> glob ''*'' ''*.rs''"
  by code_simp

text \<open>
  C27. \<open>patterns_intersect\<close> is exact: it holds just when some resource is matched, by the
  program's own matcher, by both patterns.
\<close>

theorem patterns_intersect_exact:
  "patterns_intersect l r \<longleftrightarrow> (\<exists>s. simple_wildcard_match l s \<and> simple_wildcard_match r s)"
proof
  assume "patterns_intersect l r"
  then obtain x y s where "x \<in> set (spellings l)" "y \<in> set (spellings r)"
    "star \<notin> set s" "glob x s" "glob y s"
    by (auto simp: patterns_intersect_def dest: globs_intersect_free)
  then show "\<exists>s. simple_wildcard_match l s \<and> simple_wildcard_match r s"
    by (intro exI [of _ s]) (auto simp: simple_wildcard_match_iff glob_simple_spelling)
next
  assume "\<exists>s. simple_wildcard_match l s \<and> simple_wildcard_match r s"
  then obtain s where "glob_simple l s" "glob_simple r s"
    using simple_wildcard_match_sound by blast
  then show "patterns_intersect l r"
    by (auto simp: patterns_intersect_def glob_simple_spelling globs_intersect_iff)
qed

end
