(* ===== verification/Paths.thy ===== *)
theory Paths
  imports Prelude
begin

text \<open>
  Lexical paths (\<open>crates/protocol/src/paths/lexical.rs\<close>): the label permission rules match
  and results show, as the platform of the runtime reads the path, and the host's
  normalization. A path is a list of characters; what \<open>std::path\<close> makes of a POSIX path is
  its list of components.
\<close>

abbreviation slash :: char where "slash \<equiv> CHR ''/''"
abbreviation backslash :: char where "backslash \<equiv> CHR 0x5C"

datatype path_style = Posix | Windows

definition of_platform :: "string \<Rightarrow> path_style" where
  "of_platform platform =
     (if eq_ignore_ascii_case platform ''windows'' then Windows else Posix)"

definition ambiguous :: "string \<Rightarrow> bool" where
  "ambiguous path \<longleftrightarrow> backslash \<in> set path \<or> starts_with path ''//''"

subsection \<open>Roots\<close>

definition drive_of :: "string \<Rightarrow> string option" where
  "drive_of path =
     (case path of
        a # b # _ \<Rightarrow> if is_ascii_alphabetic a \<and> b = CHR '':'' then Some [a, b] else None
      | _ \<Rightarrow> None)"

definition without_verbatim_prefix :: "string \<Rightarrow> string" where
  "without_verbatim_prefix spelled =
     (case strip_prefix ''//?/UNC/'' spelled of
        Some share \<Rightarrow> ''//'' @ share
      | None \<Rightarrow>
          (case strip_prefix ''//?/'' spelled of
             Some rest \<Rightarrow> if drive_of rest \<noteq> None then rest else spelled
           | None \<Rightarrow> spelled))"

text \<open>The byte index of the second \<open>/\<close> (\<open>match_indices('/').nth(1)\<close>).\<close>

definition second_slash :: "string \<Rightarrow> nat option" where
  "second_slash s = nth_opt (filter (\<lambda>i. s ! i = slash) [0..<length s]) 1"

definition split_root :: "string \<Rightarrow> string \<times> string" where
  "split_root spelled =
     (case drive_of spelled of
        Some drive \<Rightarrow>
          if starts_with (drop 2 spelled) ''/'' then (take 3 spelled, drop 3 spelled)
          else (drive, drop 2 spelled)
      | None \<Rightarrow>
          (case strip_prefix ''//'' spelled of
             Some share \<Rightarrow>
               if share \<noteq> [] \<and> \<not> starts_with share ''/'' then
                 (let stop = (case second_slash share of None \<Rightarrow> length spelled | Some i \<Rightarrow> i + 2)
                  in (take stop spelled, drop stop spelled))
               else (''/'', spelled)
           | None \<Rightarrow> if starts_with spelled ''/'' then (''/'', spelled) else ([], spelled)))"

subsection \<open>Labels\<close>

text \<open>One round of the loop over the names; \<open>names\<close> is the vector with its last name first.\<close>

definition push_name :: "bool \<Rightarrow> string list \<Rightarrow> string \<Rightarrow> string list" where
  "push_name rooted names name =
     (if name = [] \<or> name = ''.'' then names
      else if name = ''..'' then
        (case names of
           prev # rest \<Rightarrow> if prev \<noteq> ''..'' then rest else if rooted then names else ''..'' # names
         | [] \<Rightarrow> if rooted then names else ''..'' # names)
      else name # names)"

definition collapse :: "bool \<Rightarrow> string \<Rightarrow> string list" where
  "collapse rooted rest = rev (foldl (push_name rooted) [] (split_on slash rest))"

definition assemble :: "string \<Rightarrow> string list \<Rightarrow> string" where
  "assemble root names =
     (let joined = join ''/'' names in
      if root = [] then (if joined = [] then ''.'' else joined)
      else if joined = [] then root
      else if ends_with root ''/'' \<or> ends_with root '':'' then root @ joined
      else root @ ''/'' @ joined)"

definition spell :: "string \<Rightarrow> string" where
  "spell path = map (\<lambda>c. if c = backslash then slash else c) path"

definition root_and_rest :: "string \<Rightarrow> path_style \<Rightarrow> string \<times> string" where
  "root_and_rest path style =
     (case style of
        Posix \<Rightarrow> (case strip_prefix ''/'' path of Some rest \<Rightarrow> (''/'', rest) | None \<Rightarrow> ([], path))
      | Windows \<Rightarrow> split_root (without_verbatim_prefix (spell path)))"

definition path_label :: "string \<Rightarrow> path_style \<Rightarrow> string" where
  "path_label path style =
     (let (root, rest) = root_and_rest path style
      in assemble root (collapse (root \<noteq> []) rest))"

definition label_is_absolute :: "string \<Rightarrow> path_style \<Rightarrow> bool" where
  "label_is_absolute label style \<longleftrightarrow>
     starts_with label ''/'' \<or> (style = Windows \<and> drive_of label \<noteq> None)"

subsection \<open>Host normalization\<close>

text \<open>
  \<open>std::path::Component\<close>, and the components of a POSIX path as \<open>Path::components\<close> gives
  them: a leading \<open>/\<close> is the root, empty names and inner \<open>.\<close> are skipped.
\<close>

datatype component = Prefix string | RootDir | CurDir | ParentDir | Normal string

datatype lexical_path_error = NotAbsolute | AboveRoot

definition component_of :: "string \<Rightarrow> component" where
  "component_of name = (if name = ''..'' then ParentDir else Normal name)"

definition posix_components :: "string \<Rightarrow> component list" where
  "posix_components path =
     (let names = map component_of (filter (\<lambda>n. n \<noteq> [] \<and> n \<noteq> ''.'') (split_on slash path))
      in if starts_with path ''/'' then RootDir # names
         else if starts_with (split_on slash path) [''.''] then CurDir # names
         else names)"

fun normalize_step ::
  "lexical_path_error + component list \<Rightarrow> component \<Rightarrow> lexical_path_error + component list" where
  "normalize_step (Inl e) c = Inl e"
| "normalize_step (Inr out) ParentDir =
     (case out of Normal _ # rest \<Rightarrow> Inr rest | _ \<Rightarrow> Inl AboveRoot)"
| "normalize_step (Inr out) CurDir = Inr out"
| "normalize_step (Inr out) c = Inr (c # out)"

definition normalize_absolute :: "string \<Rightarrow> lexical_path_error + component list" where
  "normalize_absolute path =
     (if \<not> starts_with path ''/'' then Inl NotAbsolute
      else map_sum id rev (foldl normalize_step (Inr []) (posix_components path)))"

text \<open>The text of a normalized POSIX path (\<open>PathBuf::to_string_lossy\<close>).\<close>

definition posix_text :: "component list \<Rightarrow> string" where
  "posix_text cs = ''/'' @ join ''/'' (List.map_filter
     (\<lambda>c. case c of Normal n \<Rightarrow> Some n | _ \<Rightarrow> None) cs)"

subsection \<open>Collapsed names\<close>

definition plain_name :: "string \<Rightarrow> bool" where
  "plain_name n \<longleftrightarrow> n \<noteq> [] \<and> n \<noteq> ''.'' \<and> slash \<notin> set n"

text \<open>
  The names of a label, last first: none is empty, \<open>.\<close> or holds a slash, and \<open>..\<close> stands only
  at the start of a relative label.
\<close>

definition collapsed :: "bool \<Rightarrow> string list \<Rightarrow> bool" where
  "collapsed rooted rnames \<longleftrightarrow>
     list_all plain_name rnames
     \<and> (if rooted then ''..'' \<notin> set rnames
        else list_all ((=) ''..'') (dropWhile (\<lambda>n. n \<noteq> ''..'') rnames))"

lemma collapsed_Nil [simp]: "collapsed rooted []"
  by (simp add: collapsed_def)

lemma collapsed_push:
  assumes "collapsed rooted names" "slash \<notin> set name"
  shows "collapsed rooted (push_name rooted names name)"
proof (cases names)
  case Nil
  with assms show ?thesis by (auto simp: push_name_def collapsed_def plain_name_def)
next
  case (Cons prev rest)
  have "list_all ((=) ''..'') (dropWhile (\<lambda>n. n \<noteq> ''..'') ns)" if "list_all ((=) ''..'') ns" for ns
    using that by (induction ns) auto
  with Cons assms show ?thesis
    by (auto simp: push_name_def collapsed_def plain_name_def)
qed

lemma collapsed_foldl:
  "collapsed rooted names \<Longrightarrow> (\<And>n. n \<in> set ns \<Longrightarrow> slash \<notin> set n) \<Longrightarrow>
     collapsed rooted (foldl (push_name rooted) names ns)"
  by (induction ns arbitrary: names) (auto intro: collapsed_push)

lemma collapsed_collapse: "collapsed rooted (rev (collapse rooted rest))"
  by (auto simp: collapse_def intro!: collapsed_foldl dest: split_on_no_sep)


lemma collapsed_collapse_names:
  "list_all plain_name (collapse rooted rest)"
  "rooted \<Longrightarrow> ''..'' \<notin> set (collapse rooted rest)"
  using collapsed_collapse [of rooted rest] by (auto simp: collapsed_def list_all_iff)

lemma list_all_dropWhile_after:
  "list_all P (dropWhile (\<lambda>n. n \<noteq> x) (xs @ x # ys)) \<Longrightarrow> list_all P ys"
  by (induction xs) (auto split: if_splits)

lemma push_collapsed:
  assumes "collapsed rooted (n # acc)"
  shows "push_name rooted acc n = n # acc"
  using assms by (cases acc) (auto simp: push_name_def collapsed_def plain_name_def)

lemma collapsed_append: "collapsed rooted (ms @ acc) \<Longrightarrow> collapsed rooted acc"
proof (induction ms)
  case (Cons m ms)
  have "list_all P (dropWhile (\<lambda>n. n \<noteq> x) ys)" if "list_all P ys" for P ys and x :: string
    using that by (induction ys) auto
  with Cons show ?case by (auto simp: collapsed_def split: if_splits)
qed simp

lemma foldl_push_collapsed:
  "collapsed rooted (rev ns @ acc) \<Longrightarrow> foldl (push_name rooted) acc ns = rev ns @ acc"
proof (induction ns arbitrary: acc)
  case (Cons n ns)
  then have "collapsed rooted (n # acc)"
    using collapsed_append [of rooted "rev ns" "n # acc"] by simp
  then have "push_name rooted acc n = n # acc"
    by (rule push_collapsed)
  with Cons show ?case by simp
qed simp

lemma foldl_push_same: "collapsed rooted (rev ns) \<Longrightarrow> foldl (push_name rooted) [] ns = rev ns"
  using foldl_push_collapsed [of rooted ns "[]"] by simp

lemma push_empty [simp]: "push_name rooted names [] = names"
  by (simp add: push_name_def)

text \<open>Collapsing the text of collapsed names changes nothing, a leading slash or not.\<close>

lemma collapse_join:
  assumes "collapsed rooted (rev ns)"
  shows "collapse rooted (join ''/'' ns) = ns"
    and "collapse rooted (slash # join ''/'' ns) = ns"
proof -
  have plain: "\<And>n. n \<in> set ns \<Longrightarrow> slash \<notin> set n"
    using assms by (auto simp: collapsed_def plain_name_def list_all_iff)
  have "foldl (push_name rooted) [] (split_on slash (join ''/'' ns)) = rev ns"
  proof (cases "ns = []")
    case False
    then have "split_on slash (join ''/'' ns) = ns"
      using plain by (rule split_on_join)
    with assms show ?thesis by (simp add: foldl_push_same)
  qed simp
  then show "collapse rooted (join ''/'' ns) = ns"
    and "collapse rooted (slash # join ''/'' ns) = ns"
    by (simp_all add: collapse_def)
qed

lemma collapse_idem:
  "collapse rooted (join ''/'' (collapse rooted rest)) = collapse rooted rest"
  "collapse rooted (slash # join ''/'' (collapse rooted rest)) = collapse rooted rest"
  by (simp_all add: collapse_join collapsed_collapse)

lemma join_head:
  assumes "ns \<noteq> []" "list_all plain_name ns"
  shows "join ''/'' ns \<noteq> []" "hd (join ''/'' ns) \<noteq> slash"
proof -
  obtain n ms where ns: "ns = n # ms" using assms(1) by (cases ns) auto
  then obtain c cs where n: "n = c # cs" "c \<noteq> slash"
    using assms(2) by (cases n) (auto simp: plain_name_def)
  with ns show "join ''/'' ns \<noteq> []" "hd (join ''/'' ns) \<noteq> slash"
    by (cases ms; simp)+
qed

lemma join_Nil_iff: "list_all plain_name ns \<Longrightarrow> join ''/'' ns = [] \<longleftrightarrow> ns = []"
  using join_head(1) by fastforce

lemma join_not_slash: "list_all plain_name ns \<Longrightarrow> \<not> prefix ''/'' (join ''/'' ns)"
  using join_head [of ns] by (cases ns; cases "join ''/'' ns") auto

lemma assemble_simps:
  "assemble (r @ ''/'') ns = r @ slash # join ''/'' ns"
  "assemble [] [] = ''.''"
  "list_all plain_name ns \<Longrightarrow> ns \<noteq> [] \<Longrightarrow> assemble [] ns = join ''/'' ns"
  by (auto simp: assemble_def ends_with_def Let_def join_Nil_iff)

lemmas assemble_root = assemble_simps(1) [of "[]", simplified]

subsection \<open>POSIX labels\<close>

lemma path_label_posix:
  "path_label path Posix =
     (case strip_prefix ''/'' path of
        Some rest \<Rightarrow> slash # join ''/'' (collapse True rest)
      | None \<Rightarrow> assemble [] (collapse False path))"
  by (simp add: path_label_def root_and_rest_def assemble_root split: option.splits)

lemma posix_relative_label:
  assumes "\<not> prefix ''/'' path"
  shows "\<not> prefix ''/'' (assemble [] (collapse False path))"
  using collapsed_collapse_names(1) [of False path] join_not_slash [of "collapse False path"]
  by (cases "collapse False path = []") (auto simp: assemble_simps)

text \<open>
  A POSIX label is its own label: what rules match and results show reads the same when
  it is labelled again.
\<close>

theorem posix_label_idempotent:
  "path_label (path_label path Posix) Posix = path_label path Posix"
proof (cases "strip_prefix ''/'' path")
  case (Some rest)
  then show ?thesis by (simp add: path_label_posix strip_prefix_def collapse_idem)
next
  case None
  let ?ns = "collapse False path"
  have plain: "list_all plain_name ?ns" by (rule collapsed_collapse_names)
  show ?thesis
  proof (cases "?ns = []")
    case True
    then have "path_label path Posix = ''.''"
      using None by (simp add: path_label_posix assemble_simps)
    then show ?thesis by (simp add: path_label_posix) code_simp
  next
    case False
    then have label: "path_label path Posix = join ''/'' ?ns"
      using None plain by (simp add: path_label_posix assemble_simps)
    then show ?thesis
      using plain False join_not_slash [OF collapsed_collapse_names(1)]
      by (simp add: path_label_posix strip_prefix_def collapse_idem assemble_simps)
  qed
qed

text \<open>
  A POSIX label is absolute just when the path is, and a label from the root names a place
  by plain names alone: no empty name, no \<open>.\<close> and no \<open>..\<close> is left in it, so that it
  cannot climb.
\<close>

theorem posix_label_absolute:
  "(label_is_absolute (path_label path Posix) Posix \<longleftrightarrow> starts_with path ''/'')
   \<and> (starts_with path ''/'' \<longrightarrow>
        (\<exists>ns. path_label path Posix = slash # join ''/'' ns
           \<and> list_all plain_name ns \<and> ''..'' \<notin> set ns))"
proof
  show "label_is_absolute (path_label path Posix) Posix \<longleftrightarrow> starts_with path ''/''"
    using posix_relative_label [of path]
    by (auto simp: path_label_posix label_is_absolute_def starts_with_def strip_prefix_def)
  show "starts_with path ''/'' \<longrightarrow>
    (\<exists>ns. path_label path Posix = slash # join ''/'' ns \<and> list_all plain_name ns \<and> ''..'' \<notin> set ns)"
    using collapsed_collapse_names [of True "drop 1 path"]
    by (auto simp: path_label_posix starts_with_def strip_prefix_def)
qed

theorem posix_label_absolute_witness:
  "starts_with ''/ws/../etc'' ''/''
   \<and> (\<exists>ns. path_label ''/ws/../etc'' Posix = slash # join ''/'' ns
        \<and> list_all plain_name ns \<and> ''..'' \<notin> set ns)"
  using posix_label_absolute [of "''/ws/../etc''"] by (simp add: starts_with_def)

subsection \<open>Host normalization agrees with the label\<close>

lemma normalize_Inl [simp]: "foldl normalize_step (Inl e) cs = Inl e"
  by (induction cs) auto

lemma normalize_names:
  assumes "foldl normalize_step (Inr (map Normal acc @ [RootDir]))
      (map component_of (filter (\<lambda>n. n \<noteq> [] \<and> n \<noteq> ''.'') ns)) = Inr out" "''..'' \<notin> set acc"
  shows "out = map Normal (foldl (push_name True) acc ns) @ [RootDir]"
  using assms
proof (induction ns arbitrary: acc)
  case (Cons n ns)
  consider "n = [] \<or> n = ''.''" | "n = ''..''" | "n \<noteq> []" "n \<noteq> ''.''" "n \<noteq> ''..''" by blast
  then show ?case
  proof cases
    case 1
    with Cons show ?thesis by (auto simp: push_name_def)
  next
    case 2
    with Cons.prems obtain a acc' where "acc = a # acc'"
      by (cases acc) (auto simp: component_of_def)
    with 2 Cons show ?thesis by (auto simp: component_of_def push_name_def)
  next
    case 3
    with Cons.prems Cons.IH [of "n # acc"] show ?thesis
      by (simp add: component_of_def push_name_def)
  qed
qed simp

text \<open>
  The host's normalization and the label agree: when \<open>normalize_absolute\<close> accepts a POSIX
  path (an absolute path that never climbs above its root), the text of the normalized path is
  the label of the path, so the file opened is the one the rules matched.
\<close>

theorem normalize_absolute_is_label:
  assumes "normalize_absolute path = Inr cs"
  shows "posix_text cs = path_label path Posix"
proof -
  from assms have "starts_with path ''/''"
    by (auto simp: normalize_absolute_def split: if_splits)
  then obtain rest where path: "path = slash # rest"
    by (auto simp: starts_with_def prefix_def)
  then have comps: "posix_components path
      = RootDir # map component_of (filter (\<lambda>n. n \<noteq> [] \<and> n \<noteq> ''.'') (split_on slash rest))"
    by (simp add: posix_components_def starts_with_def)
  let ?names = "map component_of (filter (\<lambda>n. n \<noteq> [] \<and> n \<noteq> ''.'') (split_on slash rest))"
  have "map_sum id rev (foldl normalize_step (Inr [RootDir]) ?names) = Inr cs"
    using assms comps \<open>starts_with path ''/''\<close> by (simp add: normalize_absolute_def)
  then obtain out where out: "foldl normalize_step (Inr [RootDir]) ?names = Inr out"
    and cs: "cs = rev out"
    by (cases "foldl normalize_step (Inr [RootDir]) ?names") auto
  have "out = map Normal (rev (collapse True rest)) @ [RootDir]"
    using normalize_names [of "[]"] out by (simp add: collapse_def)
  then have "cs = RootDir # map Normal (collapse True rest)"
    using cs by (simp add: rev_map)
  then show ?thesis
    using path by (simp add: posix_text_def path_label_posix strip_prefix_def
        List.map_filter_def comp_def filter_map)
qed

theorem normalize_absolute_is_label_witness:
  "normalize_absolute ''/ws/./src/../../etc/x'' = Inr [RootDir, Normal ''etc'', Normal ''x'']
   \<and> posix_text [RootDir, Normal ''etc'', Normal ''x''] = path_label ''/ws/./src/../../etc/x'' Posix"
proof -
  have "normalize_absolute ''/ws/./src/../../etc/x'' = Inr [RootDir, Normal ''etc'', Normal ''x'']"
    by code_simp
  then show ?thesis using normalize_absolute_is_label by blast
qed


subsection \<open>Windows labels\<close>

lemma spell_no_backslash: "backslash \<notin> set (spell path)"
  by (auto simp: spell_def)

lemma spell_same: "backslash \<notin> set s \<Longrightarrow> spell s = s"
  unfolding spell_def by (induction s) auto

lemma set_drop_subsetI: "x \<notin> set s \<Longrightarrow> x \<notin> set (drop n s)"
  by (meson in_set_dropD)

lemma set_take_subsetI: "x \<notin> set s \<Longrightarrow> x \<notin> set (take n s)"
  by (meson in_set_takeD)

lemma drive_of_Some:
  "drive_of s = Some d \<longleftrightarrow>
     (\<exists>a r. s = a # CHR '':'' # r \<and> d = [a, CHR '':''] \<and> is_ascii_alphabetic a)"
  by (auto simp: drive_of_def split: list.splits)

lemma drive_of_drive [simp]: "is_ascii_alphabetic a \<Longrightarrow> drive_of (a # CHR '':'' # r) = Some [a, CHR '':'']"
  by (simp add: drive_of_def)

lemma not_alphabetic_slash [simp]: "\<not> is_ascii_alphabetic slash"
  by code_simp

lemma drive_of_slash [simp]: "drive_of (slash # s) = None"
  by (cases s) (auto simp: drive_of_def)

text \<open>The root of a Windows path.\<close>

definition windows_root :: "string \<Rightarrow> string" where
  "windows_root path = fst (root_and_rest path Windows)"

text \<open>The four kinds of root outside shares, with the rest of the path.\<close>

lemma split_root_cases:
  assumes "split_root s = (root, rest)" "\<not> prefix ''//'' root"
  obtains (drive_root) a where "is_ascii_alphabetic a" "root = [a, CHR '':'', slash]" "s = root @ rest"
  | (drive) a where "is_ascii_alphabetic a" "root = [a, CHR '':'']" "s = root @ rest"
      "\<not> prefix ''/'' rest"
  | (rooted) "root = ''/''" "drive_of s = None" "prefix ''/'' s" "rest = s"
  | (relative) "root = []" "drive_of s = None" "\<not> prefix ''/'' s" "rest = s"
proof (cases "drive_of s")
  case (Some d)
  then obtain a r where s: "s = a # CHR '':'' # r" "d = [a, CHR '':'']" "is_ascii_alphabetic a"
    by (auto simp: drive_of_Some)
  show thesis
  proof (cases "prefix ''/'' r")
    case True
    with Some s assms(1) that(1) [of a] show thesis
      by (auto simp: split_root_def starts_with_def prefix_def)
  next
    case False
    with Some s assms(1) that(2) [of a] show thesis
      by (auto simp: split_root_def starts_with_def)
  qed
next
  case None
  have "prefix ''//'' root" if "s = slash # slash # share" "share \<noteq> []" "\<not> prefix ''/'' share" for share
  proof -
    have "\<exists>k. root = take (k + 2) s"
      using assms(1) None that
      by (cases "second_slash share")
        (auto simp: split_root_def starts_with_def strip_prefix_def Let_def
          intro: exI [of _ "length share"])
    then show ?thesis using that(1) by auto
  qed
  then have share: "share = [] \<or> prefix ''/'' share" if "s = slash # slash # share" for share
    using assms(2) that by blast
  show thesis
  proof (cases "strip_prefix ''//'' s")
    case None': (Some share)
    then have s: "s = slash # slash # share"
      by (simp add: rust_str)
    then have "split_root s = (''/'', s)"
      using share [OF s] by (auto simp: split_root_def)
    with assms(1) s None show thesis by (intro that(3)) simp_all
  next
    case no_share: None
    show thesis
    proof (cases "prefix ''/'' s")
      case True
      with None no_share assms(1) show thesis by (intro that(3)) (simp_all add: split_root_def)
    next
      case False
      with None no_share assms(1) show thesis by (intro that(4)) (simp_all add: split_root_def)
    qed
  qed
qed

text \<open>How a root and collapsed names read when they are split again.\<close>

lemma split_root_assembled:
  assumes "list_all plain_name ns"
  shows "is_ascii_alphabetic a \<Longrightarrow>
      split_root (a # CHR '':'' # slash # join ''/'' ns) = ([a, CHR '':'', slash], join ''/'' ns)"
    and "is_ascii_alphabetic a \<Longrightarrow>
      split_root (a # CHR '':'' # join ''/'' ns) = ([a, CHR '':''], join ''/'' ns)"
    and "split_root (slash # join ''/'' ns) = (''/'', slash # join ''/'' ns)"
  using join_not_slash [OF assms] by (simp_all add: split_root_def)

lemma without_verbatim_plain:
  "\<not> prefix ''//'' s \<Longrightarrow> without_verbatim_prefix s = s"
  by (auto simp: without_verbatim_prefix_def strip_prefix_def prefix_def)

lemma push_no_char:
  "(\<And>n. n \<in> set names \<Longrightarrow> c \<notin> set n) \<Longrightarrow> c \<notin> set name \<Longrightarrow> c \<noteq> CHR ''.'' \<Longrightarrow>
     m \<in> set (push_name rooted names name) \<Longrightarrow> c \<notin> set m"
  by (cases names) (auto simp: push_name_def split: if_splits)

lemma foldl_push_no_char:
  "(\<And>n. n \<in> set names \<Longrightarrow> c \<notin> set n) \<Longrightarrow> (\<And>n. n \<in> set ns \<Longrightarrow> c \<notin> set n) \<Longrightarrow> c \<noteq> CHR ''.'' \<Longrightarrow>
     m \<in> set (foldl (push_name rooted) names ns) \<Longrightarrow> c \<notin> set m"
proof (induction ns arbitrary: names)
  case (Cons n ns)
  have "c \<notin> set m'" if "m' \<in> set (push_name rooted names n)" for m'
    using Cons.prems(1-3) that by (intro push_no_char [of names c n m' rooted]) auto
  then show ?case
    by (intro Cons.IH [of "push_name rooted names n"]) (use Cons.prems in auto)
qed simp

lemma join_no_char:
  "(\<And>n. n \<in> set ns \<Longrightarrow> c \<notin> set n) \<Longrightarrow> c \<noteq> slash \<Longrightarrow> c \<notin> set (join ''/'' ns)"
  by (induction "''/''" ns rule: join.induct) auto

lemma plain_names_no_backslash:
  assumes "backslash \<notin> set rest"
  shows "backslash \<notin> set (join ''/'' (collapse rooted rest))"
proof (rule join_no_char)
  have pieces: "backslash \<notin> set p" if "p \<in> set (split_on slash rest)" for p
    using assms split_on_pieces_subset [OF that] by (meson in_mono)
  fix n assume "n \<in> set (collapse rooted rest)"
  then have "n \<in> set (foldl (push_name rooted) [] (split_on slash rest))"
    by (simp add: collapse_def)
  then show "backslash \<notin> set n"
    by (rule foldl_push_no_char [rotated 3]) (simp_all add: pieces)
qed simp

lemma windows_label_of_parts:
  assumes "backslash \<notin> set s" "\<not> prefix ''//'' s" "split_root s = (root, rest)"
  shows "path_label s Windows = assemble root (collapse (root \<noteq> []) rest)"
  using assms by (simp add: path_label_def root_and_rest_def spell_same without_verbatim_plain)

lemma relative_label_again:
  assumes "L = assemble [] (collapse False rest)" and "backslash \<notin> set rest" and "drive_of L = None"
  shows "path_label L Windows = L"
proof (cases "collapse False rest = []")
  case True
  with assms(1) show ?thesis by (simp add: assemble_simps) code_simp
next
  case False
  have plain: "list_all plain_name (collapse False rest)" by (rule collapsed_collapse_names)
  with False have L: "L = join ''/'' (collapse False rest)"
    using assms(1) by (simp add: assemble_simps)
  then have "\<not> prefix ''/'' L"
    using join_not_slash [OF plain] by simp
  then have "path_label L Windows = assemble [] (collapse False L)"
    using plain_names_no_backslash [OF assms(2)] L assms(3) windows_label_of_parts [of L "[]" L]
    by (auto simp: split_root_def prefix_def)
  with L assms(1) show ?thesis by (simp add: collapse_idem)
qed

lemma rooted_label_again:
  assumes "L = assemble root (collapse True rest)" and "root \<noteq> []" and "backslash \<notin> set L"
    and "\<not> prefix ''//'' L" and "split_root L = (root, join ''/'' (collapse True rest))
      \<or> split_root L = (root, slash # join ''/'' (collapse True rest))"
  shows "path_label L Windows = L"
  using assms(5)
proof
  assume "split_root L = (root, join ''/'' (collapse True rest))"
  from windows_label_of_parts [OF assms(3,4) this] assms(1,2) show ?thesis
    by (simp add: collapse_idem)
next
  assume "split_root L = (root, slash # join ''/'' (collapse True rest))"
  from windows_label_of_parts [OF assms(3,4) this] assms(1,2) show ?thesis
    by (simp add: collapse_idem)
qed

text \<open>
  A Windows label outside a share is its own label: a drive, a drive's working directory,
  the root, or a relative path whose label does not happen to start with a drive.
\<close>

theorem windows_label_idempotent:
  assumes "\<not> starts_with (windows_root path) ''//''"
    and "windows_root path = [] \<Longrightarrow> drive_of (path_label path Windows) = None"
  shows "path_label (path_label path Windows) Windows = path_label path Windows"
proof -
  define s where "s = without_verbatim_prefix (spell path)"
  obtain root rest where sr: "split_root s = (root, rest)" by (cases "split_root s")
  then have rr: "root_and_rest path Windows = (root, rest)"
    by (simp add: root_and_rest_def s_def)
  have root: "\<not> prefix ''//'' root"
    using assms(1) rr by (simp add: windows_root_def)
  have "backslash \<notin> set s"
    using spell_no_backslash [of path]
    by (auto simp: s_def without_verbatim_prefix_def rust_str split: option.splits)
  then have rest: "backslash \<notin> set rest" "backslash \<notin> set root"
    using sr root by (auto elim!: split_root_cases)
  let ?L = "assemble root (collapse (root \<noteq> []) rest)"
  have label: "path_label path Windows = ?L"
    using rr by (simp add: path_label_def)
  have nb: "backslash \<notin> set (join ''/'' (collapse True rest))"
    using rest(1) by (rule plain_names_no_backslash)
  have "path_label ?L Windows = ?L"
    using sr root
  proof (cases rule: split_root_cases)
    case (drive_root a)
    then have L: "?L = a # CHR '':'' # slash # join ''/'' (collapse True rest)"
      by (simp add: assemble_def Let_def suffix_Cons)
    show ?thesis
      by (rule rooted_label_again [of _ root rest]) (use drive_root L rest(2) nb in
        \<open>simp_all add: split_root_assembled [OF collapsed_collapse_names(1)]\<close>)
  next
    case (drive a)
    then have L: "?L = a # CHR '':'' # join ''/'' (collapse True rest)"
      by (simp add: assemble_def Let_def suffix_Cons)
    show ?thesis
      by (rule rooted_label_again [of _ root rest]) (use drive L rest(2) nb in
        \<open>simp_all add: split_root_assembled [OF collapsed_collapse_names(1)]\<close>)
  next
    case rooted
    then have L: "?L = slash # join ''/'' (collapse True rest)"
      by (simp add: assemble_def Let_def)
    show ?thesis
      by (rule rooted_label_again [of _ root rest]) (use rooted L nb
        join_not_slash [OF collapsed_collapse_names(1)] in
        \<open>simp_all add: split_root_assembled [OF collapsed_collapse_names(1)]\<close>)
  next
    case relative
    then show ?thesis
      using assms(2) rr label by (intro relative_label_again [OF _ rest(1)]) (auto simp: windows_root_def)
  qed
  with label show ?thesis by simp
qed

theorem windows_label_idempotent_witness:
  "\<not> starts_with (windows_root (map (\<lambda>c. if c = CHR ''!'' then backslash else c) ''C:!ws!..!x'')) ''//''
   \<and> path_label ''C:/x'' Windows = ''C:/x''"
proof -
  let ?p = "map (\<lambda>c. if c = CHR ''!'' then backslash else c) ''C:!ws!..!x''"
  have "windows_root ?p = ''C:/''" and "path_label ?p Windows = ''C:/x''"
    by code_simp+
  then show ?thesis using windows_label_idempotent [of ?p] by simp
qed

text \<open>
  On Windows a label need not be its own label: a verbatim path with an empty name before
  its drive gives a label that reads as a verbatim drive and loses its prefix when it is
  labelled again, as \<open>absolute_resource\<close> of the permission matcher does.
\<close>

theorem windows_label_not_idempotent:
  "path_label ''//?//C:/x'' Windows = ''//?/C:/x''
   \<and> path_label (path_label ''//?//C:/x'' Windows) Windows = ''C:/x''"
  by code_simp

text \<open>
  The label of a Windows device path drops a separator: a share root that ends in \<open>:\<close> is
  taken for a drive's working directory, so the paths \<open>//./C:/x\<close> and \<open>//./C:x/\<close>, two names
  below different roots, have one label.
\<close>

theorem windows_device_label_merges:
  "path_label ''//./C:/x'' Windows = ''//./C:x''
   \<and> path_label ''//./C:x/'' Windows = ''//./C:x''"
  by code_simp

end
