(* ===== verification/Permission_Rules.thy ===== *)
theory Permission_Rules
  imports Prelude
begin

text \<open>
  Permission rules (\<open>crates/protocol/src/agent.rs\<close>, \<open>crates/identity/src/lib.rs\<close>,
  \<open>crates/config/src/agents.rs\<close>) and the rules a run starts with
  (\<open>crates/engine_permissions/src/lib.rs\<close>): the actions, the keys a document writes them
  under, the defaults of each mode, and the rules an agent document gives its runs. An action,
  a runtime ID and a pattern are newtypes of \<open>String\<close> in the source and texts here.
\<close>

type_synonym permission_action = string
type_synonym runtime_id = string

datatype agent_mode = Primary | Subagent | All | Internal

datatype permission_effect = Allow | Deny | Ask

text \<open>The effects as \<open>effect_rank\<close> orders them: deny over ask over allow.\<close>

fun effect_rank :: "permission_effect \<Rightarrow> nat" where
  "effect_rank Allow = 0"
| "effect_rank Ask = 1"
| "effect_rank Deny = 2"

lemma effect_rank_inject [simp]: "effect_rank a = effect_rank b \<longleftrightarrow> a = b"
  by (cases a; cases b) auto

record permission_rule =
  rule_action :: permission_action
  rule_runtime :: "runtime_id option"
  rule_resource :: string
  rule_effect :: permission_effect

definition new_rule :: "permission_action \<Rightarrow> string \<Rightarrow> permission_effect \<Rightarrow> permission_rule" where
  "new_rule a p e = \<lparr>rule_action = a, rule_runtime = None, rule_resource = p, rule_effect = e\<rparr>"

definition applies_to :: "permission_rule \<Rightarrow> runtime_id option \<Rightarrow> bool" where
  "applies_to rule rt \<longleftrightarrow>
     (case rule_runtime rule of None \<Rightarrow> True | Some selector \<Rightarrow> Some selector = rt)"

subsection \<open>Actions\<close>

definition READ :: permission_action where "READ = ''read''"
definition WRITE :: permission_action where "WRITE = ''write''"
definition BASH :: permission_action where "BASH = ''bash''"
definition DELEGATE :: permission_action where "DELEGATE = ''delegate''"
definition MESSAGE :: permission_action where "MESSAGE = ''message''"
definition MCP :: permission_action where "MCP = ''mcp''"
definition WEBFETCH :: permission_action where "WEBFETCH = ''webfetch''"
definition MEMORY :: permission_action where "MEMORY = ''memory''"
definition MEMORY_WRITE :: permission_action where "MEMORY_WRITE = ''memory_write''"
definition LIST_RUNTIMES :: permission_action where "LIST_RUNTIMES = ''list_runtimes''"
definition CRON :: permission_action where "CRON = ''cron''"
definition ATTACH :: permission_action where "ATTACH = ''attach''"
definition ASSET :: permission_action where "ASSET = ''asset''"
definition SHARE :: permission_action where "SHARE = ''share''"

lemmas action_defs = READ_def WRITE_def BASH_def DELEGATE_def MESSAGE_def MCP_def WEBFETCH_def
  MEMORY_def MEMORY_WRITE_def LIST_RUNTIMES_def CRON_def ATTACH_def ASSET_def SHARE_def

definition BUILT_IN :: "permission_action list" where
  "BUILT_IN = [READ, WRITE, BASH, DELEGATE, MESSAGE, MCP, WEBFETCH, MEMORY, MEMORY_WRITE,
     LIST_RUNTIMES, CRON, ATTACH, ASSET, SHARE]"

text \<open>\<open>PermissionAction::new\<close>: \<open>[a-z][a-z0-9_]{0,31}\<close>.\<close>

definition action_new :: "string \<Rightarrow> permission_action option" where
  "action_new value =
     (if length value \<le> 32
         \<and> list_all (\<lambda>(index, byte). is_ascii_lowercase byte
              \<or> (0 < index \<and> (is_ascii_digit byte \<or> byte = CHR ''_'')))
             (List.enumerate 0 value)
         \<and> value \<noteq> []
      then Some value else None)"

definition is_path :: "permission_action \<Rightarrow> bool" where
  "is_path a \<longleftrightarrow> a = READ \<or> a = WRITE"

definition is_command :: "permission_action \<Rightarrow> bool" where
  "is_command a \<longleftrightarrow> a = BASH"

definition is_tool_name :: "permission_action \<Rightarrow> bool" where
  "is_tool_name a \<longleftrightarrow> a = MCP"

definition is_base_layer :: "permission_action \<Rightarrow> bool" where
  "is_base_layer a \<longleftrightarrow> a = DELEGATE \<or> a = MESSAGE"

definition takes_runtime_selector :: "permission_action \<Rightarrow> bool" where
  "takes_runtime_selector a \<longleftrightarrow> \<not> is_base_layer a \<or> a = DELEGATE"

datatype key_error = InvalidAction string | InvalidRuntime string | NoSelector permission_action runtime_id

definition check_runtime_selector ::
  "permission_action \<Rightarrow> runtime_id option \<Rightarrow> key_error + unit" where
  "check_runtime_selector a rt =
     (case rt of
        Some runtime \<Rightarrow>
          if \<not> takes_runtime_selector a then Inl (NoSelector a runtime) else Inr ()
      | None \<Rightarrow> Inr ())"

text \<open>\<open>RuntimeId::new\<close>: the same grammar, checked by the first byte and the others.\<close>

definition valid_lower_snake :: "string \<Rightarrow> nat \<Rightarrow> bool" where
  "valid_lower_snake value maximum \<longleftrightarrow>
     1 \<le> length value \<and> length value \<le> maximum
     \<and> (case value of [] \<Rightarrow> False | c # _ \<Rightarrow> is_ascii_lowercase c)
     \<and> list_all (\<lambda>c. is_ascii_lowercase c \<or> is_ascii_digit c \<or> c = CHR ''_'') value"

definition runtime_id_new :: "string \<Rightarrow> runtime_id option" where
  "runtime_id_new value = (if valid_lower_snake value 32 then Some value else None)"

definition parse_permission_key_parts ::
  "string \<Rightarrow> string option \<Rightarrow> key_error + (permission_action \<times> runtime_id option)" where
  "parse_permission_key_parts a rt =
     (case action_new a of
        None \<Rightarrow> Inl (InvalidAction a)
      | Some act \<Rightarrow>
          (case (case rt of None \<Rightarrow> Inr None
                 | Some r \<Rightarrow> (case runtime_id_new r of
                               None \<Rightarrow> Inl (InvalidRuntime r) | Some rid \<Rightarrow> Inr (Some rid))) of
             Inl e \<Rightarrow> Inl e
           | Inr runtime \<Rightarrow>
               (case check_runtime_selector act runtime of
                  Inl e \<Rightarrow> Inl e | Inr _ \<Rightarrow> Inr (act, runtime))))"

definition parse_permission_key ::
  "string \<Rightarrow> key_error + (permission_action \<times> runtime_id option)" where
  "parse_permission_key value =
     (case split_once value ''@'' of
        Some (a, runtime) \<Rightarrow> parse_permission_key_parts a (Some runtime)
      | None \<Rightarrow> parse_permission_key_parts value None)"

text \<open>A key as documents and clients write it.\<close>

definition show_permission_key :: "permission_action \<times> runtime_id option \<Rightarrow> string" where
  "show_permission_key k = (case k of (a, None) \<Rightarrow> a | (a, Some r) \<Rightarrow> a @ ''@'' @ r)"

subsection \<open>Patterns\<close>

definition WORKSPACE_DIR_EXPRESSION :: string where
  "WORKSPACE_DIR_EXPRESSION = ''${workspace_dir}''"

definition AGENT_ID :: string where "AGENT_ID = ''${agent_id}''"
definition SESSION_MACHINE :: string where "SESSION_MACHINE = ''${session_machine}''"
definition SESSION_PROJECT :: string where "SESSION_PROJECT = ''${session_project}''"

definition MEMORY_VARIABLES :: "string list" where
  "MEMORY_VARIABLES = [AGENT_ID, SESSION_MACHINE, SESSION_PROJECT]"

definition is_control :: "char \<Rightarrow> bool" where
  "is_control c \<longleftrightarrow> (of_char c :: nat) < 32 \<or> (127 \<le> (of_char c :: nat) \<and> (of_char c :: nat) < 160)"

definition pattern_new :: "string \<Rightarrow> string option" where
  "pattern_new value =
     (let without = foldl (\<lambda>rest variable. str_replace rest variable [])
         (str_replace value WORKSPACE_DIR_EXPRESSION []) MEMORY_VARIABLES
      in if 1 \<le> length value \<and> length value \<le> 4096 \<and> \<not> list_ex is_control value
            \<and> \<not> list_ex (\<lambda>c. c \<in> set [CHR 0x5C, CHR ''['', CHR '']'', CHR ''{'', CHR ''}'']) without
         then Some value else None)"

subsection \<open>Session overlays\<close>

datatype overlay_error = InvalidListBounds | DuplicatePermissionRule

fun unique_keys :: "(permission_action \<times> runtime_id option \<times> string) set \<Rightarrow> permission_rule list \<Rightarrow> bool"
  where
  "unique_keys keys [] = True"
| "unique_keys keys (r # rs) =
     (let key = (rule_action r, rule_runtime r, rule_resource r)
      in key \<notin> keys \<and> unique_keys (insert key keys) rs)"

definition overlay_validate :: "permission_rule list \<Rightarrow> overlay_error + unit" where
  "overlay_validate rules =
     (if length rules > 256 then Inl InvalidListBounds
      else if \<not> unique_keys {} rules then Inl DuplicatePermissionRule
      else Inr ())"

text \<open>\<open>check_rule_selectors\<close>: what a client's overlay rules may not hold.\<close>

datatype selector_error = MemoryVariable string | BadSelector key_error

fun check_rule_selectors :: "permission_rule list \<Rightarrow> selector_error + unit" where
  "check_rule_selectors [] = Inr ()"
| "check_rule_selectors (r # rs) =
     (case find (\<lambda>variable. str_contains (rule_resource r) variable) MEMORY_VARIABLES of
        Some variable \<Rightarrow> Inl (MemoryVariable variable)
      | None \<Rightarrow>
          (case check_runtime_selector (rule_action r) (rule_runtime r) of
             Inl e \<Rightarrow> Inl (BadSelector e)
           | Inr _ \<Rightarrow> check_rule_selectors rs))"

subsection \<open>Defaults\<close>

definition mode_default_rules :: "agent_mode \<Rightarrow> permission_rule list" where
  "mode_default_rules mode =
     (let working =
        [(READ, ''*'', Allow), (WRITE, ''${workspace_dir}/*'', Allow), (WRITE, ''*'', Ask),
         (WEBFETCH, ''*'', Allow), (MCP, ''*'', Ask), (DELEGATE, ''*'', Deny)];
      listing = (case mode of
          Primary \<Rightarrow> [(LIST_RUNTIMES, ''*'', Allow)]
        | All \<Rightarrow> [(LIST_RUNTIMES, ''*'', Allow)]
        | _ \<Rightarrow> [])
      in if mode = Internal then map (\<lambda>a. new_rule a ''*'' Deny) BUILT_IN
         else map (\<lambda>(a, p, e). new_rule a p e) (working @ listing))"

definition message_default_rules ::
  "agent_mode \<Rightarrow> bool \<Rightarrow> permission_rule list \<Rightarrow> permission_rule list" where
  "message_default_rules mode delegated delegate =
     (if mode = Internal then []
      else
        let eff = (if delegated then Allow
          else (case min_by_key effect_rank
                  (map rule_effect (filter (\<lambda>r. rule_action r = DELEGATE) delegate)) of
                  None \<Rightarrow> Deny | Some e \<Rightarrow> e))
        in [new_rule MESSAGE ''*'' eff])"

definition memory_default_rules :: "agent_mode \<Rightarrow> bool \<Rightarrow> permission_rule list" where
  "memory_default_rules mode delegated =
     (let defaults =
        (if mode = Internal then []
         else if delegated then
           [(MEMORY, ''agent://${agent_id}''), (MEMORY_WRITE, ''agent://${agent_id}'')]
         else
           [(MEMORY, ''*''), (MEMORY_WRITE, ''user://*''), (MEMORY_WRITE, ''agent://${agent_id}''),
            (MEMORY_WRITE, ''machine://${session_machine}/*''),
            (MEMORY_WRITE, ''project://${session_project}/*'')])
      in map (\<lambda>(a, p). new_rule a p Allow) defaults)"

definition cron_default_rules :: "agent_mode \<Rightarrow> bool \<Rightarrow> permission_rule list" where
  "cron_default_rules mode delegated =
     (if delegated \<or> mode = Internal then [] else [new_rule CRON ''*'' Allow])"

definition attach_default_rules :: "agent_mode \<Rightarrow> bool \<Rightarrow> permission_rule list" where
  "attach_default_rules mode delegated =
     (if delegated \<or> mode = Internal then [] else [new_rule ATTACH ''*'' Allow])"

definition asset_default_rules :: "agent_mode \<Rightarrow> bool \<Rightarrow> permission_rule list" where
  "asset_default_rules mode delegated =
     (if mode = Internal then []
      else [new_rule ASSET ''*'' (if delegated then Deny else Allow)])"

definition share_default_rules :: "agent_mode \<Rightarrow> bool \<Rightarrow> permission_rule list" where
  "share_default_rules mode delegated =
     (if mode = Internal then []
      else [new_rule SHARE ''*'' (if delegated then Deny else Ask)])"

definition run_defaults_but_message :: "agent_mode \<Rightarrow> bool \<Rightarrow> permission_rule list" where
  "run_defaults_but_message mode delegated =
     mode_default_rules mode @ memory_default_rules mode delegated
     @ cron_default_rules mode delegated @ attach_default_rules mode delegated
     @ asset_default_rules mode delegated @ share_default_rules mode delegated"

definition run_default_rules :: "agent_mode \<Rightarrow> bool \<Rightarrow> permission_rule list" where
  "run_default_rules mode delegated =
     (let rules = run_defaults_but_message mode delegated
      in rules @ message_default_rules mode delegated rules)"

definition run_default_rules_with_delegate ::
  "agent_mode \<Rightarrow> bool \<Rightarrow> permission_rule list \<Rightarrow> permission_rule list" where
  "run_default_rules_with_delegate mode delegated delegate =
     run_defaults_but_message mode delegated @ message_default_rules mode delegated delegate"

subsection \<open>Agent documents\<close>

type_synonym permission_key = "permission_action \<times> runtime_id option"

datatype permission_value = Effect permission_effect | Resources "(string \<times> permission_effect) list"

fun value_rules :: "permission_key \<Rightarrow> permission_value \<Rightarrow> permission_rule list" where
  "value_rules (a, rt) (Effect e) =
     [\<lparr>rule_action = a, rule_runtime = rt, rule_resource = ''*'', rule_effect = e\<rparr>]"
| "value_rules (a, rt) (Resources rs) =
     map (\<lambda>(p, e). \<lparr>rule_action = a, rule_runtime = rt, rule_resource = p, rule_effect = e\<rparr>) rs"

text \<open>The part of an agent document the rules read; its keys are unique and ordered.\<close>

record agent_document =
  doc_id :: string
  doc_mode :: agent_mode
  doc_permissions :: "(permission_key \<times> permission_value) list"

record memory_variables =
  machines :: "string list"
  project :: "string option"

definition expand_memory_variables ::
  "permission_rule \<Rightarrow> string \<Rightarrow> memory_variables \<Rightarrow> permission_rule list" where
  "expand_memory_variables rule agent variables =
     (let pat = rule_resource rule;
          memory_action = (rule_action rule = MEMORY \<or> rule_action rule = MEMORY_WRITE)
      in if \<not> memory_action \<or> \<not> str_contains pat ''${'' then [rule]
         else
           let pat1 = str_replace pat AGENT_ID agent in
           (case (if str_contains pat1 SESSION_PROJECT
                  then map_option (str_replace pat1 SESSION_PROJECT) (project variables)
                  else Some pat1) of
              None \<Rightarrow> []
            | Some pat2 \<Rightarrow>
                let patterns = (if str_contains pat2 SESSION_MACHINE
                  then map (str_replace pat2 SESSION_MACHINE) (machines variables)
                  else [pat2])
                in map (\<lambda>p. rule\<lparr>rule_resource := p\<rparr>) (List.map_filter pattern_new patterns)))"

definition declared :: "agent_document \<Rightarrow> permission_action \<Rightarrow> bool" where
  "declared doc a \<longleftrightarrow> (\<exists>((a', rt), v) \<in> set (doc_permissions doc). a' = a)"

definition agent_rules_with_sources :: "agent_document \<Rightarrow> bool \<Rightarrow> (permission_rule \<times> bool) list" where
  "agent_rules_with_sources doc delegated =
     (let rules =
        map (\<lambda>r. (r, False)) (concat (map (\<lambda>(k, v). value_rules k v) (doc_permissions doc)))
        @ map (\<lambda>r. (r, True)) (filter (\<lambda>r. \<not> declared doc (rule_action r))
             (run_defaults_but_message (doc_mode doc) delegated))
      in rules @ (if \<not> declared doc MESSAGE
           then map (\<lambda>r. (r, True)) (message_default_rules (doc_mode doc) delegated (map fst rules))
           else []))"

definition agent_permission_rules ::
  "agent_document \<Rightarrow> bool \<Rightarrow> memory_variables \<Rightarrow> permission_rule list" where
  "agent_permission_rules doc delegated variables =
     concat (map (\<lambda>(r, _). expand_memory_variables r (doc_id doc) variables)
       (agent_rules_with_sources doc delegated))"

subsection \<open>Lemmas\<close>

lemma action_new_Some:
  "action_new s = Some a \<longleftrightarrow> a = s \<and> action_new s \<noteq> None"
  by (auto simp: action_new_def split: if_splits)

lemma in_enumerate_set: "(i, c) \<in> set (List.enumerate n xs) \<Longrightarrow> c \<in> set xs"
  by (induction xs arbitrary: n) auto

lemma enumerate_covers: "c \<in> set xs \<Longrightarrow> \<exists>i. (i, c) \<in> set (List.enumerate n xs)"
  by (induction xs arbitrary: n) auto

lemma action_no_at: "action_new s \<noteq> None \<Longrightarrow> CHR ''@'' \<notin> set s"
  using enumerate_covers [of "CHR ''@''" s 0]
  by (fastforce simp: action_new_def list_all_iff is_ascii_lowercase_def is_ascii_digit_def
      split: if_splits)

lemma split_once_char: "CHR ''@'' \<notin> set a \<Longrightarrow> split_once (a @ ''@'' @ r) ''@'' = Some (a, r)"
  by (induction a) auto

lemma split_once_None: "split_once s ''@'' = None \<longleftrightarrow> CHR ''@'' \<notin> set s"
  by (induction s) auto

lemma parse_parts:
  "parse_permission_key_parts a rt = Inr (a', rt') \<longleftrightarrow>
     a' = a \<and> rt' = rt \<and> action_new a \<noteq> None \<and> (case rt of None \<Rightarrow> True | Some r \<Rightarrow> runtime_id_new r \<noteq> None)
     \<and> check_runtime_selector a rt = Inr ()"
proof -
  have new: "action_new s = (if action_new s = None then None else Some s)" for s
    by (auto simp: action_new_def)
  show ?thesis
    unfolding parse_permission_key_parts_def runtime_id_new_def
    by (subst (1 2) new) (auto simp: check_runtime_selector_def split: option.splits)
qed

lemma value_rules_action: "r \<in> set (value_rules k v) \<Longrightarrow> rule_action r = fst k"
  by (cases k; cases v) (auto split: prod.splits)

lemma value_rules_filter:
  "filter (\<lambda>r. rule_action r = a) (concat (map (\<lambda>(k, v). value_rules k v) ps)) =
     concat (map (\<lambda>(k, v). value_rules k v) (filter (\<lambda>(k, v). fst k = a) ps))"
proof (induction ps)
  case (Cons p ps)
  obtain k v where p: "p = (k, v)" by (cases p)
  have "filter (\<lambda>r. rule_action r = a) (value_rules k v) = (if fst k = a then value_rules k v else [])"
    using value_rules_action [of _ k v] by (auto simp: filter_empty_conv filter_id_conv)
  with Cons p show ?case by simp
qed simp

lemma unique_keys_iff:
  "unique_keys K rs \<longleftrightarrow> distinct (map (\<lambda>r. (rule_action r, rule_runtime r, rule_resource r)) rs)
     \<and> K \<inter> (\<lambda>r. (rule_action r, rule_runtime r, rule_resource r)) ` set rs = {}"
  by (induction rs arbitrary: K) (auto simp: Let_def)

lemma selector_ok: "check_runtime_selector a rt = Inr () \<longleftrightarrow> rt = None \<or> a \<noteq> MESSAGE"
  by (auto simp: check_runtime_selector_def takes_runtime_selector_def is_base_layer_def
      action_defs split: option.splits)

lemma message_rules_action:
  "filter (\<lambda>r. rule_action r = a) (message_default_rules m d rs) =
     (if a = MESSAGE then message_default_rules m d rs else [])"
  by (simp add: message_default_rules_def new_rule_def Let_def)

lemma freest_effect:
  "(case min_by_key effect_rank es of None \<Rightarrow> Deny | Some e \<Rightarrow> e) =
     (if Allow \<in> set es then Allow else if Ask \<in> set es then Ask else Deny)"
proof (cases "min_by_key effect_rank es")
  case (Some e)
  note best = min_by_key_Some [OF Some]
  show ?thesis
    using best(1) best(2) [of Allow] best(2) [of Ask] unfolding Some
    by (cases e rule: permission_effect.exhaust) (auto split: if_splits)
qed simp

subsection \<open>Properties\<close>

text \<open>
  Parsing a permission key is the inverse of writing one, and accepts just the keys of the
  grammar: an action label, alone or with \<open>@\<close> and the label of a runtime, where the
  action takes a runtime selector.
\<close>

theorem permission_key_parse_exact:
  "parse_permission_key s = Inr (a, rt) \<longleftrightarrow>
     s = show_permission_key (a, rt) \<and> action_new a = Some a
     \<and> rt \<in> insert None (Some ` {r. runtime_id_new r = Some r})
     \<and> \<not> (rt \<noteq> None \<and> a = MESSAGE)"
proof -
  have same: "action_new x = Some x \<longleftrightarrow> action_new x \<noteq> None" for x
    by (auto simp: action_new_def)
  show ?thesis
  proof (cases "split_once s ''@''")
    case None
    then have "CHR ''@'' \<notin> set s" by (simp add: split_once_None)
    then show ?thesis
      using None action_no_at
      by (cases rt) (auto simp: parse_permission_key_def parse_parts selector_ok same show_permission_key_def
          runtime_id_new_def)
  next
    case (Some p)
    obtain x r where p: "p = (x, r)" by (cases p)
    have s: "s = x @ ''@'' @ r"
      using split_once_Some [of s "''@''" x r] Some p by simp
    show ?thesis
    proof (cases rt)
      case None
      have "action_new s = None"
        using action_no_at [of s] s by (cases "action_new s") auto
      with None Some p show ?thesis
        by (auto simp: parse_permission_key_def parse_parts show_permission_key_def)
    next
      case rt: (Some r')
      have parse: "parse_permission_key s = Inr (a, Some r') \<longleftrightarrow>
          a = x \<and> r' = r \<and> action_new a \<noteq> None \<and> runtime_id_new r' \<noteq> None \<and> a \<noteq> MESSAGE"
        by (auto simp: parse_permission_key_def Some p parse_parts selector_ok)
      have "s = a @ ''@'' @ r' \<longleftrightarrow> a = x \<and> r' = r" if "action_new a \<noteq> None"
        using action_no_at [OF that] split_once_char [of a r'] Some p s by (metis Pair_inject option.inject)
      then show ?thesis
        unfolding rt parse same by (auto simp: show_permission_key_def runtime_id_new_def same)
    qed
  qed
qed

text \<open>
  A key a document writes replaces the defaults of its action entirely, and an action no
  key names keeps all its defaults: the rules a run has for one action are the document's in
  the document's order, or the mode's defaults, never a mixture.
\<close>

theorem declared_action_has_no_defaults:
  "filter (\<lambda>(r, default). rule_action r = a) (agent_rules_with_sources doc delegated) =
     (if declared doc a then
        map (\<lambda>r. (r, False))
          (concat (map (\<lambda>(k, v). value_rules k v) (filter (\<lambda>(k, v). fst k = a) (doc_permissions doc))))
      else
        map (\<lambda>r. (r, True))
          (filter (\<lambda>r. rule_action r = a) (run_defaults_but_message (doc_mode doc) delegated)
           @ (if a = MESSAGE
              then message_default_rules (doc_mode doc) delegated
                (concat (map (\<lambda>(k, v). value_rules k v) (doc_permissions doc))
                 @ filter (\<lambda>r. \<not> declared doc (rule_action r))
                     (run_defaults_but_message (doc_mode doc) delegated))
              else [])))"
proof -
  have none: "filter (\<lambda>(k, v). fst k = a) (doc_permissions doc) = []" if "\<not> declared doc a"
    using that by (fastforce simp: declared_def filter_empty_conv)
  have drop: "filter (\<lambda>r. \<not> declared doc (rule_action r) \<and> rule_action r = a) rs =
      (if declared doc a then [] else filter (\<lambda>r. rule_action r = a) rs)" for rs
    by (auto simp: filter_empty_conv intro: filter_cong)
  show ?thesis
    using none
    by (auto simp: agent_rules_with_sources_def Let_def filter_map comp_def value_rules_filter message_rules_action drop
        case_prod_beta)
qed

text \<open>
  The default of \<open>message\<close> follows \<open>delegate\<close>: a root run may message others as freely as
  the freest of its delegate rules lets it delegate, and not at all where it has none; a
  delegated run may message; an internal one has no rule.
\<close>

theorem message_default_follows_delegate:
  "message_default_rules mode delegated rules =
     (if mode = Internal then [] else
      [new_rule MESSAGE ''*''
        (if delegated \<or> (\<exists>r \<in> set rules. rule_action r = DELEGATE \<and> rule_effect r = Allow) then Allow
         else if \<exists>r \<in> set rules. rule_action r = DELEGATE \<and> rule_effect r = Ask then Ask
         else Deny)])"
  by (auto simp: message_default_rules_def Let_def freest_effect image_iff)

text \<open>
  An overlay is accepted exactly when it has at most 256 rules and no two of them share
  action, runtime selector and pattern.
\<close>

theorem overlay_validate_exact:
  "overlay_validate rules = Inr () \<longleftrightarrow>
     length rules \<le> 256
     \<and> distinct (map (\<lambda>r. (rule_action r, rule_runtime r, rule_resource r)) rules)"
  by (auto simp: overlay_validate_def unique_keys_iff)

end
