(* ===== verification/Permission_Match.thy ===== *)
theory Permission_Match
  imports Permission_Rules Paths Wildcard
begin

text \<open>
  How a permission rule is matched against a resource (\<open>crates/engine_permissions/src/lib.rs\<close>):
  the scope a permission is evaluated in, the readings a path gets there, the expansion of
  \<open>~\<close> and of \<open>${workspace_dir}\<close>, the match itself and the order of specificity among
  matching rules.

  The file system is the parameter \<open>canon\<close> of the definitions that need it: the canonical
  path of a path, none when it does not resolve (\<open>paths::canonicalize\<close> on a build that is not
  for Windows, where \<open>simplified\<close> is the identity). A \<open>Path\<close> is its text.
\<close>

type_synonym file_system = "string \<Rightarrow> string option"

record permission_scope =
  scope_runtime :: "runtime_id option"
  scope_workspace :: "string option"
  scope_home :: "string option"
  scope_platform :: "string option"

definition BASE :: permission_scope where
  "BASE = \<lparr>scope_runtime = None, scope_workspace = None, scope_home = None,
           scope_platform = None\<rparr>"

definition path_resource :: "permission_action \<Rightarrow> bool" where
  "path_resource a \<longleftrightarrow> is_path a \<or> a = ATTACH"

definition styles :: "permission_scope \<Rightarrow> permission_action \<Rightarrow> string \<Rightarrow> path_style list" where
  "styles scope a resource =
     (case map_option of_platform (scope_platform scope) of
        Some Posix \<Rightarrow> [Posix]
      | Some Windows \<Rightarrow> [Windows]
      | None \<Rightarrow> if \<not> path_resource a \<or> \<not> ambiguous resource then [Windows] else [Posix, Windows])"

subsection \<open>Patterns in a scope\<close>

definition expand_home_pattern :: "string \<Rightarrow> string option \<Rightarrow> string" where
  "expand_home_pattern pat home =
     (case home of
        None \<Rightarrow> pat
      | Some h \<Rightarrow>
          (case (if pat = ''~'' then Some [] else strip_prefix ''~/'' pat) of
             None \<Rightarrow> pat
           | Some rest \<Rightarrow>
               let h' = trim_end_of (\<lambda>c. c = slash) (str_replace h [backslash] ''/'')
               in if h' = [] \<and> rest = [] then ''/''
                  else if h' = [] then ''/'' @ rest
                  else if rest = [] then h'
                  else h' @ ''/'' @ rest))"

definition rule_pattern :: "permission_rule \<Rightarrow> string option \<Rightarrow> string" where
  "rule_pattern rule home = expand_home_pattern (rule_resource rule) home"

definition workspace_label :: "file_system \<Rightarrow> string \<Rightarrow> path_style \<Rightarrow> string" where
  "workspace_label canon workspace style =
     path_label (case canon workspace of Some p \<Rightarrow> p | None \<Rightarrow> workspace) style"

definition expand_workspace_pattern ::
  "file_system \<Rightarrow> string \<Rightarrow> string \<Rightarrow> path_style \<Rightarrow> string" where
  "expand_workspace_pattern canon pat workspace style =
     (let label = workspace_label canon workspace style
      in if label = ''/''
         then str_replace (str_replace pat ''${workspace_dir}/'' ''/'') WORKSPACE_DIR_EXPRESSION ''/''
         else str_replace pat WORKSPACE_DIR_EXPRESSION (trim_end_of (\<lambda>c. c = slash) label))"

definition absolute_resource ::
  "file_system \<Rightarrow> string \<Rightarrow> string \<Rightarrow> path_style \<Rightarrow> string" where
  "absolute_resource canon workspace resource style =
     (let label = path_label resource style
      in if label_is_absolute label style then label
         else
           let w = workspace_label canon workspace style;
               separator = (if ends_with w ''/'' then [] else ''/'')
           in path_label (w @ separator @ label) style)"

text \<open>The label a path resource is matched by: relative inside the workspace, else absolute.\<close>

definition matched_resource ::
  "file_system \<Rightarrow> permission_action \<Rightarrow> string \<Rightarrow> string option \<Rightarrow> path_style \<Rightarrow> string" where
  "matched_resource canon a resource workspace style =
     (if path_resource a then
        let label = path_label resource style
        in (case workspace of
              Some w \<Rightarrow>
                if label = ''..'' \<or> starts_with label ''../''
                then absolute_resource canon w label style else label
            | None \<Rightarrow> label)
      else resource)"

definition permission_pattern_matches ::
  "file_system \<Rightarrow> string \<Rightarrow> permission_action \<Rightarrow> string \<Rightarrow> string option \<Rightarrow> path_style \<Rightarrow> bool" where
  "permission_pattern_matches canon pat a resource workspace style =
     (let workspace_pattern = str_contains pat WORKSPACE_DIR_EXPRESSION;
          res = matched_resource canon a resource workspace style
      in (case workspace of
            Some w \<Rightarrow>
              if workspace_pattern then
                simple_wildcard_match (expand_workspace_pattern canon pat w style)
                  (absolute_resource canon w res style)
              else simple_wildcard_match pat res
          | None \<Rightarrow>
              if workspace_pattern then False
              else if is_path a \<and> \<not> label_is_absolute res style then False
              else simple_wildcard_match pat res))"

subsection \<open>Rules\<close>

definition rule_matches_in ::
  "file_system \<Rightarrow> permission_rule \<Rightarrow> permission_action \<Rightarrow> string \<Rightarrow> permission_scope \<Rightarrow> path_style \<Rightarrow> bool"
  where
  "rule_matches_in canon rule a resource scope style \<longleftrightarrow>
     rule_action rule = a \<and> applies_to rule (scope_runtime scope)
     \<and> permission_pattern_matches canon (rule_pattern rule (scope_home scope)) a resource
         (scope_workspace scope) style"

definition rule_matches ::
  "file_system \<Rightarrow> permission_rule \<Rightarrow> permission_action \<Rightarrow> string \<Rightarrow> permission_scope \<Rightarrow> bool" where
  "rule_matches canon rule a resource scope \<longleftrightarrow>
     list_ex (rule_matches_in canon rule a resource scope) (styles scope a resource)"

definition name_only_rule :: "permission_rule \<Rightarrow> permission_action \<Rightarrow> permission_scope \<Rightarrow> bool" where
  "name_only_rule rule a scope \<longleftrightarrow>
     rule_action rule = a \<and> applies_to rule (scope_runtime scope) \<and> rule_resource rule = ''*''"

type_synonym precedence = "nat \<times> nat reverse \<times> bool \<times> nat"

definition wildcards :: "string \<Rightarrow> nat" where
  "wildcards pat = length (filter (\<lambda>c. c = star \<or> c = question) pat)"

definition specificity :: "permission_rule \<Rightarrow> nat \<Rightarrow> string option \<Rightarrow> precedence" where
  "specificity rule declaration_index home =
     (let pat = rule_pattern rule home; w = wildcards pat
      in (length pat - w, Reverse w, rule_runtime rule \<noteq> None, declaration_index))"

subsection \<open>Lemmas\<close>

lemma styles_not_Nil [simp]: "styles scope a resource \<noteq> []"
  by (auto simp: styles_def split: option.splits path_style.splits)

lemma specificity_index: "specificity r i home = specificity r' j home \<Longrightarrow> i = j"
  by (simp add: specificity_def Let_def)

lemma specificity_neq: "i \<noteq> j \<Longrightarrow> specificity r i home \<noteq> specificity r' j home"
  using specificity_index by blast

lemma expand_home_none [simp]: "expand_home_pattern pat None = pat"
  by (simp add: expand_home_pattern_def)

lemma expand_home_star [simp]: "expand_home_pattern ''*'' home = ''*''"
  by (simp add: expand_home_pattern_def split: option.split)

lemma simple_star: "\<not> starts_with resource ''*'' \<Longrightarrow> simple_wildcard_match ''*'' resource"
  by (cases resource) (auto intro: wildcard_star_any)

text \<open>
  A bare rule, whose pattern is \<open>*\<close>, governs every resource that no reading takes for a relative
  path outside a workspace and that does not start with \<open>*\<close> itself.
\<close>

lemma bare_rule_matches:
  assumes "rule_action rule = a" and "applies_to rule (scope_runtime scope)"
    and "rule_resource rule = ''*''" and "\<not> path_resource a" and "\<not> starts_with resource ''*''"
  shows "rule_matches_in canon rule a resource scope style"
  using assms simple_star [of resource]
  by (auto simp: rule_matches_in_def permission_pattern_matches_def matched_resource_def
      rule_pattern_def path_resource_def WORKSPACE_DIR_EXPRESSION_def split: option.split)

end
