(* ===== verification/Hash_Map.thy ===== *)
theory Hash_Map
  imports Prelude
begin

text \<open>
  \<open>std::collections::HashMap\<close> as the modelled code uses it: an association list with
  distinct keys, whose order stands for the unspecified iteration order. The interface
  \<open>keyed_store\<close> states what a client relies on; the stores of the approvals and of the
  client's subscriptions rest on its lemmas through the interpretation below.
\<close>

type_synonym ('k, 'v) hash_map = "('k \<times> 'v) list"

definition hm_empty :: "('k, 'v) hash_map" where
  "hm_empty = []"

definition hm_get :: "('k, 'v) hash_map \<Rightarrow> 'k \<Rightarrow> 'v option" where
  "hm_get m k = map_of m k"

fun hm_insert :: "'k \<Rightarrow> 'v \<Rightarrow> ('k, 'v) hash_map \<Rightarrow> ('k, 'v) hash_map" where
  "hm_insert k v [] = [(k, v)]"
| "hm_insert k v ((k', v') # m) =
     (if k = k' then (k, v) # m else (k', v') # hm_insert k v m)"

definition hm_retain :: "('k \<Rightarrow> 'v \<Rightarrow> bool) \<Rightarrow> ('k, 'v) hash_map \<Rightarrow> ('k, 'v) hash_map" where
  "hm_retain P m = filter (\<lambda>(k, v). P k v) m"

definition hm_remove :: "'k \<Rightarrow> ('k, 'v) hash_map \<Rightarrow> ('k, 'v) hash_map" where
  "hm_remove k m = hm_retain (\<lambda>k' _. k' \<noteq> k) m"

definition hm_ok :: "('k, 'v) hash_map \<Rightarrow> bool" where
  "hm_ok m \<longleftrightarrow> distinct (map fst m)"

lemma find_append:
  "find P (xs @ ys) = (case find P xs of None \<Rightarrow> find P ys | Some x \<Rightarrow> Some x)"
  by (induction xs) auto

subsection \<open>The interface\<close>

locale keyed_store =
  fixes empty_store :: 's
    and look :: "'s \<Rightarrow> 'k \<Rightarrow> 'v option"
    and put :: "'k \<Rightarrow> 'v \<Rightarrow> 's \<Rightarrow> 's"
    and keep :: "('k \<Rightarrow> 'v \<Rightarrow> bool) \<Rightarrow> 's \<Rightarrow> 's"
    and ok :: "'s \<Rightarrow> bool"
  assumes ok_empty: "ok empty_store"
    and ok_put: "ok s \<Longrightarrow> ok (put k v s)"
    and ok_keep: "ok s \<Longrightarrow> ok (keep P s)"
    and look_empty: "look empty_store k = None"
    and look_put: "look (put k v s) k' = (if k' = k then Some v else look s k')"
    and look_keep: "ok s \<Longrightarrow>
      look (keep P s) k = (case look s k of None \<Rightarrow> None | Some v \<Rightarrow> if P k v then Some v else None)"
begin

text \<open>Inserting a list of entries one after the other: the last one of a key stays.\<close>

lemma ok_fold_put: "ok s \<Longrightarrow> ok (fold (\<lambda>x. put (key x) (val x)) xs s)"
  by (induction xs arbitrary: s) (auto intro: ok_put)

lemma look_fold_put:
  "look (fold (\<lambda>x. put (key x) (val x)) xs s) k =
     (case find (\<lambda>x. key x = k) (rev xs) of Some x \<Rightarrow> Some (val x) | None \<Rightarrow> look s k)"
proof (induction xs arbitrary: s)
  case (Cons x xs)
  show ?case
    using Cons.IH [of "put (key x) (val x) s"] by (auto simp: look_put find_append split: option.splits)
qed simp

lemma look_keep_Some: "ok s \<Longrightarrow> look (keep P s) k = Some v \<longleftrightarrow> look s k = Some v \<and> P k v"
  by (auto simp: look_keep split: option.splits)

end

subsection \<open>The interpretation on the hash map\<close>

lemma hm_insert_keys: "fst ` set (hm_insert k v m) = insert k (fst ` set m)"
proof (induction m)
  case (Cons x m)
  then show ?case by (cases x) (auto split: if_splits)
qed simp

lemma hm_ok_insert: "hm_ok m \<Longrightarrow> hm_ok (hm_insert k v m)"
proof (induction m)
  case (Cons x m)
  then show ?case
    using hm_insert_keys [of k v m] by (cases x) (auto simp: hm_ok_def)
qed (simp add: hm_ok_def)

lemma hm_get_insert: "hm_get (hm_insert k v m) k' = (if k' = k then Some v else hm_get m k')"
  by (induction m) (auto simp: hm_get_def)

lemma hm_get_retain:
  "hm_ok m \<Longrightarrow>
     hm_get (hm_retain P m) k =
       (case hm_get m k of None \<Rightarrow> None | Some v \<Rightarrow> if P k v then Some v else None)"
  by (induction m) (auto simp: hm_ok_def hm_get_def hm_retain_def map_of_eq_None_iff image_iff split: option.splits)

lemma hm_ok_retain: "hm_ok m \<Longrightarrow> hm_ok (hm_retain P m)"
  by (auto simp: hm_ok_def hm_retain_def distinct_map_filter)

lemma hm_ok_empty: "hm_ok hm_empty"
  by (simp add: hm_ok_def hm_empty_def)

lemma hm_get_empty: "hm_get hm_empty k = None"
  by (simp add: hm_get_def hm_empty_def)

interpretation hm: keyed_store hm_empty hm_get hm_insert hm_retain hm_ok
  by unfold_locales
    (simp_all add: hm_ok_insert hm_ok_retain hm_get_insert hm_get_retain hm_ok_empty hm_get_empty)

lemma hm_get_in: "hm_ok m \<Longrightarrow> hm_get m k = Some v \<longleftrightarrow> (k, v) \<in> set m"
  by (simp add: hm_get_def hm_ok_def)

lemma hm_ok_remove: "hm_ok m \<Longrightarrow> hm_ok (hm_remove k m)"
  by (simp add: hm_remove_def hm_ok_retain)

lemma hm_get_remove:
  "hm_ok m \<Longrightarrow> hm_get (hm_remove k m) k' = (if k' = k then None else hm_get m k')"
  by (auto simp: hm_remove_def hm_get_retain split: option.split)

end
