(* ===== verification/Approvals.thy ===== *)
theory Approvals
  imports Permission_Rules Hash_Map "HOL-Library.Multiset"
begin

text \<open>
  The approval schema (\<open>crates/protocol/src/approval.rs\<close>): prepared operations, the requests
  that ask about them, the decisions and the record of an approval's life, each with the
  checks its constructor or \<open>validate\<close> makes; and the store of tree grants
  (\<open>ApprovalStore\<close> in \<open>crates/engine_permissions/src/lib.rs\<close>).

  IDs, digests and timestamps are opaque: texts and numbers. The digest of an operation and
  the JSON text its canonical form is sorted by come from \<open>sha2\<close> and \<open>serde_json\<close>: they
  are parameters.
\<close>

type_synonym sha256 = string
type_synonym session_id = nat
type_synonym approval_id = nat
type_synonym grant_id = nat
type_synonym timestamp = nat

datatype schema_error =
    InvalidPreparedIdentity | MissingCapability | MissingResource | TooManyResources
  | UnboundResourceCapability | DuplicateResourceBinding | ZeroRevision | MissingEvaluation
  | IncompleteEvaluations | InvalidTreeGrantConstraint | ProcessLocalTreeGrant
  | FilesystemTreeGrant | TooManyEvaluations | ContradictoryDecision | ContradictoryLifecycle

subsection \<open>Prepared operations\<close>

text \<open>\<open>PreparedResourceIdentity::new\<close>.\<close>

definition prepared_identity_new :: "string \<Rightarrow> schema_error + string" where
  "prepared_identity_new value =
     (if value = [] \<or> length value > 512
         \<or> \<not> list_all (\<lambda>c. is_ascii_lowercase c \<or> is_ascii_digit c
              \<or> c = CHR ''-'' \<or> c = CHR ''_'' \<or> c = CHR ''.'' \<or> c = CHR '':'') value
         \<or> starts_with value ''fd:'' \<or> starts_with value ''tmp:'' \<or> starts_with value ''temp:''
      then Inl InvalidPreparedIdentity else Inr value)"

text \<open>A leading dash passes, which the pattern of the JSON schema of the type does not allow.\<close>

lemma prepared_identity_leading_dash: "prepared_identity_new ''-a'' = Inr ''-a''"
  by code_simp

datatype binding_lifetime = RestartStable | ProcessLocal

datatype boundary = Exact | CommandPrefix string | DelegationTree session_id

datatype resource_source = SecondaryOperation | ModelRequest | DoomLoopGuardSource | PrimaryOperation

record approval_capability =
  cap_action :: permission_action
  cap_operation :: string

record prepared_resource =
  res_capability :: permission_action
  res_canonical :: string
  res_digest :: sha256
  res_lifetime :: binding_lifetime
  res_boundary :: boundary
  res_source :: resource_source

record prepared_operation =
  op_arguments :: sha256
  op_capabilities :: "approval_capability list"
  op_resources :: "prepared_resource list"
  op_context :: sha256

text \<open>Every resource's capability is among the actions of \<open>caps\<close>.\<close>

definition bound_capabilities :: "approval_capability list \<Rightarrow> prepared_resource list \<Rightarrow> bool" where
  "bound_capabilities caps resources \<longleftrightarrow>
     list_all (\<lambda>r. list_ex (\<lambda>c. cap_action c = res_capability r) caps) resources"

fun adjacent_equal :: "'a list \<Rightarrow> bool" where
  "adjacent_equal (x # y # zs) \<longleftrightarrow> x = y \<or> adjacent_equal (y # zs)"
| "adjacent_equal _ \<longleftrightarrow> False"

definition prepared_operation_new ::
  "sha256 \<Rightarrow> approval_capability list \<Rightarrow> prepared_resource list \<Rightarrow> sha256 \<Rightarrow>
     schema_error + prepared_operation" where
  "prepared_operation_new arguments caps resources ctx =
     (if caps = [] \<or> length caps > 256 then Inl MissingCapability
      else if resources = [] then Inl MissingResource
      else if length resources > 256 then Inl TooManyResources
      else if \<not> bound_capabilities caps resources then Inl UnboundResourceCapability
      else if adjacent_equal (sort (map res_digest resources)) then Inl DuplicateResourceBinding
      else Inr \<lparr>op_arguments = arguments, op_capabilities = caps, op_resources = resources,
                op_context = ctx\<rparr>)"

text \<open>
  \<open>canonical_fingerprint_bytes\<close> up to the encoding: a resource without its boundary and
  source, resources and capabilities sorted by their JSON text.
\<close>

type_synonym resource_view = "permission_action \<times> string \<times> sha256 \<times> binding_lifetime"
type_synonym canonical_operation =
  "sha256 \<times> approval_capability list \<times> resource_view list \<times> sha256"

definition resource_view :: "prepared_resource \<Rightarrow> resource_view" where
  "resource_view r = (res_capability r, res_canonical r, res_digest r, res_lifetime r)"

record encoding =
  capability_text :: "approval_capability \<Rightarrow> string"
  resource_text :: "resource_view \<Rightarrow> string"
  operation_digest :: "canonical_operation \<Rightarrow> sha256"

definition canonical_operation :: "encoding \<Rightarrow> prepared_operation \<Rightarrow> canonical_operation" where
  "canonical_operation enc operation =
     (op_arguments operation, sort_key (capability_text enc) (op_capabilities operation),
      sort_key (resource_text enc) (map resource_view (op_resources operation)),
      op_context operation)"

definition fingerprint :: "encoding \<Rightarrow> prepared_operation \<Rightarrow> sha256" where
  "fingerprint enc operation = operation_digest enc (canonical_operation enc operation)"

subsection \<open>Evaluations and requests\<close>

record matched_rule =
  mr_source_layer :: string
  mr_action :: permission_action
  mr_runtime :: "runtime_id option"
  mr_resource :: string
  mr_effect :: permission_effect

record decision_trace =
  tr_action :: permission_action
  tr_resource :: string
  tr_candidates :: "matched_rule list"
  tr_effect :: permission_effect
  tr_reason :: string

record evaluation =
  ev_digest :: sha256
  ev_effect :: permission_effect
  ev_trace :: decision_trace

datatype trigger = ModelToolApproval | InternalAgentTrigger | DoomLoop | PermissionPolicy

record constraints =
  allow_once :: bool
  allow_tree_grant :: bool
  cancellable :: bool
  expires_at :: "timestamp option"

datatype agent_option_kind = AllowOnce | AllowAlways | RejectAlways | RejectOnce

definition kind_allows :: "agent_option_kind \<Rightarrow> bool" where
  "kind_allows k \<longleftrightarrow> k = AllowOnce \<or> k = AllowAlways"

record agent_option =
  option_id :: string
  option_name :: string
  option_kind :: agent_option_kind

record approval_request =
  rq_approval :: approval_id
  rq_revision :: nat
  rq_tool_call :: nat
  rq_trigger :: trigger
  rq_fingerprint :: sha256
  rq_operation :: prepared_operation
  rq_evaluations :: "evaluation list"
  rq_constraints :: constraints
  rq_runtime :: "runtime_id option"
  rq_agent_options :: "agent_option list"

definition request_with_fingerprint ::
  "approval_id \<Rightarrow> nat \<Rightarrow> nat \<Rightarrow> trigger \<Rightarrow> sha256 \<Rightarrow> prepared_operation \<Rightarrow> evaluation list \<Rightarrow>
     constraints \<Rightarrow> schema_error + approval_request" where
  "request_with_fingerprint approval revision tool_call trig fp operation evaluations cs =
     (if revision = 0 then Inl ZeroRevision
      else if evaluations = [] then Inl MissingEvaluation
      else if length evaluations > 256 then Inl TooManyEvaluations
      else if sort (map res_digest (op_resources operation)) \<noteq> sort (map ev_digest evaluations)
      then Inl IncompleteEvaluations
      else if allow_tree_grant cs
              \<and> list_ex (\<lambda>r. res_lifetime r = ProcessLocal \<or> is_path (res_capability r))
                  (op_resources operation)
      then Inl InvalidTreeGrantConstraint
      else Inr \<lparr>rq_approval = approval, rq_revision = revision, rq_tool_call = tool_call,
                rq_trigger = trig, rq_fingerprint = fp, rq_operation = operation,
                rq_evaluations = evaluations, rq_constraints = cs, rq_runtime = None,
                rq_agent_options = []\<rparr>)"

definition request_new ::
  "encoding \<Rightarrow> approval_id \<Rightarrow> nat \<Rightarrow> nat \<Rightarrow> trigger \<Rightarrow> prepared_operation \<Rightarrow> evaluation list \<Rightarrow>
     constraints \<Rightarrow> schema_error + approval_request" where
  "request_new enc approval revision tool_call trig operation evaluations cs =
     request_with_fingerprint approval revision tool_call trig (fingerprint enc operation)
       operation evaluations cs"

definition with_agent_options :: "agent_option list \<Rightarrow> approval_request \<Rightarrow> approval_request" where
  "with_agent_options options rq = rq\<lparr>rq_agent_options := take 16 options\<rparr>"

definition with_runtime :: "runtime_id option \<Rightarrow> approval_request \<Rightarrow> approval_request" where
  "with_runtime rt rq = rq\<lparr>rq_runtime := rt\<rparr>"

definition with_expires_at :: "timestamp option \<Rightarrow> approval_request \<Rightarrow> approval_request" where
  "with_expires_at t rq = rq\<lparr>rq_constraints := (rq_constraints rq)\<lparr>expires_at := t\<rparr>\<rparr>"

subsection \<open>Decisions\<close>

datatype reason_code =
    PolicyAllowed | PolicyDenied | PolicyRequiresApproval | ModelRequested
  | InternalAgentAllowed | InternalAgentDenied | AutoApproveNRejected | AutoApproveYApproved
  | YoloApproved | TreeGrantMatched | UserApprovedOnce | UserApprovedTree | UserRejected
  | UserCancelled | RequestCancelled | DoomLoopDetected | ConstraintViolation
  | OperationChanged | PreparedCapabilityLost | UnsupportedPlatform | ApprovalExpired
  | Escalated | Unattended | InternalAgentFailed | SystemError

datatype decision_source =
    SrcPolicy | SrcModel | SrcInternalAgent | SrcPermissionMode | SrcTreeGrant | SrcUser
  | SrcDoomLoopGuard | SrcSystem

datatype decision_kind = KindAllow | KindDeny | KindEscalate | KindAsk

record internal_decision =
  int_decision :: decision_kind
  int_source :: decision_source
  int_reason :: reason_code
  int_evaluations :: "evaluation list"
  int_rationale :: "string option"

definition MAX_APPROVAL_RATIONALE_CHARS :: nat where
  "MAX_APPROVAL_RATIONALE_CHARS = 300"

definition internal_coherent :: "decision_kind \<Rightarrow> reason_code \<Rightarrow> bool" where
  "internal_coherent kind reason =
     (case kind of
        KindAllow \<Rightarrow> reason \<in> {PolicyAllowed, InternalAgentAllowed, YoloApproved, TreeGrantMatched}
      | KindDeny \<Rightarrow>
          reason \<in> {PolicyDenied, InternalAgentDenied, DoomLoopDetected, ConstraintViolation,
            OperationChanged, PreparedCapabilityLost, UnsupportedPlatform, Unattended, SystemError}
      | KindAsk \<Rightarrow> reason \<in> {PolicyRequiresApproval, ModelRequested}
      | KindEscalate \<Rightarrow> reason \<in> {Escalated, InternalAgentFailed})"

definition internal_source_coherent :: "reason_code \<Rightarrow> decision_source \<Rightarrow> bool" where
  "internal_source_coherent reason src =
     (if reason \<in> {PolicyAllowed, PolicyDenied, PolicyRequiresApproval, YoloApproved}
      then src = SrcPolicy
      else if reason = ModelRequested then src = SrcModel
      else if reason \<in> {InternalAgentAllowed, InternalAgentDenied, InternalAgentFailed}
      then src = SrcInternalAgent
      else if reason = TreeGrantMatched then src = SrcTreeGrant
      else if reason = DoomLoopDetected then src = SrcDoomLoopGuard
      else if reason = Escalated
      then src \<notin> {SrcTreeGrant, SrcUser, SrcPermissionMode, SrcDoomLoopGuard}
      else src = SrcSystem)"

definition internal_validate :: "internal_decision \<Rightarrow> schema_error + unit" where
  "internal_validate d =
     (if int_evaluations d = [] then Inl MissingEvaluation
      else if length (int_evaluations d) > 256 then Inl TooManyEvaluations
      else if internal_coherent (int_decision d) (int_reason d)
              \<and> internal_source_coherent (int_reason d) (int_source d)
              \<and> (case int_rationale d of None \<Rightarrow> True
                 | Some r \<Rightarrow> length r \<le> MAX_APPROVAL_RATIONALE_CHARS)
      then Inr () else Inl ContradictoryDecision)"

datatype user_decision = ApproveOnce | ApproveTree | Reject | Cancel

datatype final_outcome = OutApproved | OutRejected | OutExpired | OutCancelled

record final_decision =
  fin_outcome :: final_outcome
  fin_source :: decision_source
  fin_reason :: reason_code
  fin_feedback :: "string option"
  fin_tree_grant :: "grant_id option"

definition outcome_coherent :: "final_outcome \<Rightarrow> reason_code \<Rightarrow> bool" where
  "outcome_coherent out reason =
     (case out of
        OutApproved \<Rightarrow>
          reason \<in> {PolicyAllowed, InternalAgentAllowed, AutoApproveYApproved, YoloApproved,
            TreeGrantMatched, UserApprovedOnce, UserApprovedTree}
      | OutRejected \<Rightarrow>
          reason \<in> {PolicyDenied, InternalAgentDenied, AutoApproveNRejected, UserRejected,
            DoomLoopDetected, ConstraintViolation, UnsupportedPlatform, Unattended, SystemError}
      | OutCancelled \<Rightarrow>
          reason \<in> {UserCancelled, RequestCancelled, OperationChanged, PreparedCapabilityLost}
      | OutExpired \<Rightarrow> reason = ApprovalExpired)"

definition final_source_coherent :: "reason_code \<Rightarrow> decision_source \<Rightarrow> bool" where
  "final_source_coherent reason src =
     (if reason \<in> {UserApprovedOnce, UserApprovedTree, UserRejected, UserCancelled} then src = SrcUser
      else if reason \<in> {PolicyAllowed, PolicyDenied, YoloApproved} then src = SrcPolicy
      else if reason \<in> {InternalAgentAllowed, InternalAgentDenied} then src = SrcInternalAgent
      else if reason \<in> {AutoApproveNRejected, AutoApproveYApproved} then src = SrcPermissionMode
      else if reason = TreeGrantMatched then src = SrcTreeGrant
      else if reason = DoomLoopDetected then src = SrcDoomLoopGuard
      else src = SrcSystem)"

definition final_validate :: "final_decision \<Rightarrow> schema_error + unit" where
  "final_validate d =
     (if outcome_coherent (fin_outcome d) (fin_reason d)
         \<and> final_source_coherent (fin_reason d) (fin_source d)
         \<and> ((fin_tree_grant d \<noteq> None) = (fin_reason d \<in> {UserApprovedTree, TreeGrantMatched}))
      then Inr () else Inl ContradictoryDecision)"

subsection \<open>The record of an approval\<close>

datatype approval_status =
    StPending | StEscalated | StApproved | StRejected | StExpired | StCancelled

record approval_record =
  rec_session :: session_id
  rec_request :: approval_request
  rec_status :: approval_status
  rec_internal :: "internal_decision option"
  rec_user :: "user_decision option"
  rec_final :: "final_decision option"

definition internal_is :: "decision_kind \<Rightarrow> internal_decision option \<Rightarrow> bool" where
  "internal_is kind i \<longleftrightarrow> (case i of None \<Rightarrow> False | Some d \<Rightarrow> int_decision d = kind)"

definition outcome_is :: "final_outcome \<Rightarrow> final_decision option \<Rightarrow> bool" where
  "outcome_is out f \<longleftrightarrow> (case f of None \<Rightarrow> False | Some d \<Rightarrow> fin_outcome d = out)"

definition status_coherent :: "approval_record \<Rightarrow> bool" where
  "status_coherent r =
     (case rec_status r of
        StPending \<Rightarrow> rec_user r = None \<and> rec_final r = None
          \<and> (rec_internal r = None \<or> internal_is KindAsk (rec_internal r))
      | StEscalated \<Rightarrow> internal_is KindEscalate (rec_internal r) \<and> rec_user r = None
          \<and> rec_final r = None
      | StApproved \<Rightarrow> outcome_is OutApproved (rec_final r)
      | StRejected \<Rightarrow> outcome_is OutRejected (rec_final r)
      | StCancelled \<Rightarrow> outcome_is OutCancelled (rec_final r)
      | StExpired \<Rightarrow> outcome_is OutExpired (rec_final r))"

fun user_final :: "user_decision \<Rightarrow> final_outcome \<times> reason_code" where
  "user_final ApproveOnce = (OutApproved, UserApprovedOnce)"
| "user_final ApproveTree = (OutApproved, UserApprovedTree)"
| "user_final Reject = (OutRejected, UserRejected)"
| "user_final Cancel = (OutCancelled, UserCancelled)"

definition decisions_coherent :: "approval_record \<Rightarrow> bool" where
  "decisions_coherent r =
     (case rec_final r of
        None \<Rightarrow> rec_user r = None
      | Some f \<Rightarrow>
          if fin_source f = SrcUser then
            internal_is KindEscalate (rec_internal r)
            \<and> (case rec_user r of None \<Rightarrow> False
               | Some u \<Rightarrow> user_final u = (fin_outcome f, fin_reason f))
          else if fin_source f = SrcPermissionMode then
            rec_user r = None
            \<and> (case rec_internal r of None \<Rightarrow> False
               | Some i \<Rightarrow> int_decision i = KindEscalate \<and> int_source i = SrcInternalAgent
                   \<and> int_reason i \<in> {Escalated, InternalAgentFailed})
          else if fin_outcome f \<in> {OutApproved, OutRejected} then
            rec_user r = None
            \<and> (case rec_internal r of None \<Rightarrow> False
               | Some i \<Rightarrow> int_source i = fin_source f \<and> int_reason i = fin_reason f
                   \<and> ((int_decision i = KindAllow \<and> fin_outcome f = OutApproved)
                      \<or> (int_decision i = KindDeny \<and> fin_outcome f = OutRejected)))
          else rec_user r = None \<and> rec_internal r = None)"

definition record_validate :: "approval_record \<Rightarrow> schema_error + unit" where
  "record_validate r =
     (case (case rec_internal r of None \<Rightarrow> Inr () | Some i \<Rightarrow> internal_validate i) of
        Inl e \<Rightarrow> Inl e
      | Inr _ \<Rightarrow>
          (case (case rec_final r of None \<Rightarrow> Inr () | Some f \<Rightarrow> final_validate f) of
             Inl e \<Rightarrow> Inl e
           | Inr _ \<Rightarrow>
               if status_coherent r \<and> decisions_coherent r then Inr ()
               else Inl ContradictoryLifecycle))"

subsection \<open>Tree grants\<close>

record tree_grant =
  gr_id :: grant_id
  gr_root :: session_id
  gr_approval :: approval_id
  gr_fingerprint :: sha256
  gr_capabilities :: "approval_capability list"
  gr_resources :: "prepared_resource list"
  gr_created :: timestamp
  gr_runtime :: "runtime_id option"

definition grant_validate :: "tree_grant \<Rightarrow> schema_error + unit" where
  "grant_validate g =
     (if gr_capabilities g = [] \<or> length (gr_capabilities g) > 256 then Inl MissingCapability
      else if gr_resources g = [] then Inl MissingResource
      else if length (gr_resources g) > 256 then Inl TooManyResources
      else if list_ex (\<lambda>r. res_lifetime r \<noteq> RestartStable) (gr_resources g)
      then Inl ProcessLocalTreeGrant
      else if list_ex (\<lambda>r. is_path (res_capability r)) (gr_resources g)
      then Inl FilesystemTreeGrant
      else if \<not> bound_capabilities (gr_capabilities g) (gr_resources g)
      then Inl UnboundResourceCapability
      else Inr ())"

type_synonym approval_key = "session_id \<times> sha256 \<times> runtime_id option"
type_synonym approval_store = "(approval_key, tree_grant) hash_map"

definition approval_key :: "tree_grant \<Rightarrow> approval_key" where
  "approval_key g = (gr_root g, gr_fingerprint g, gr_runtime g)"

definition store_grant :: "tree_grant \<Rightarrow> approval_store \<Rightarrow> approval_store" where
  "store_grant g s = hm_insert (approval_key g) g s"

definition store_replace :: "tree_grant list \<Rightarrow> approval_store \<Rightarrow> approval_store" where
  "store_replace gs s = fold (\<lambda>g. hm_insert (approval_key g) g) gs hm_empty"

definition store_matching ::
  "encoding \<Rightarrow> session_id \<Rightarrow> prepared_operation \<Rightarrow> runtime_id option \<Rightarrow> approval_store \<Rightarrow>
     tree_grant option" where
  "store_matching enc root operation rt s =
     (case hm_get s (root, fingerprint enc operation, rt) of
        None \<Rightarrow> None
      | Some g \<Rightarrow> if gr_capabilities g = op_capabilities operation
                    \<and> gr_resources g = op_resources operation then Some g else None)"

definition store_for_root :: "session_id \<Rightarrow> approval_store \<Rightarrow> tree_grant list" where
  "store_for_root root s = map snd (filter (\<lambda>(key, g). fst key = root) s)"

definition store_invalidate :: "grant_id set \<Rightarrow> approval_store \<Rightarrow> approval_store" where
  "store_invalidate ids s = hm_retain (\<lambda>key g. gr_id g \<notin> ids) s"

subsection \<open>Lemmas\<close>

lemma adjacent_equal_sorted: "sorted xs \<Longrightarrow> adjacent_equal xs \<longleftrightarrow> \<not> distinct xs"
  by (induction xs rule: adjacent_equal.induct) (auto simp: le_less)

lemma prepared_operation_new_Inr:
  "prepared_operation_new arguments caps resources ctx = Inr operation \<longleftrightarrow>
     caps \<noteq> [] \<and> length caps \<le> 256 \<and> resources \<noteq> [] \<and> length resources \<le> 256
     \<and> bound_capabilities caps resources \<and> distinct (map res_digest resources)
     \<and> operation = \<lparr>op_arguments = arguments, op_capabilities = caps, op_resources = resources,
                     op_context = ctx\<rparr>"
  by (auto simp: prepared_operation_new_def adjacent_equal_sorted)

lemma request_Inr:
  "request_with_fingerprint approval revision tool_call trig fp operation evs cs = Inr rq \<Longrightarrow>
     0 < revision \<and> length evs \<le> 256
     \<and> mset (map res_digest (op_resources operation)) = mset (map ev_digest evs)
     \<and> (allow_tree_grant cs \<longrightarrow> list_all (\<lambda>r. res_lifetime r = RestartStable
            \<and> \<not> is_path (res_capability r)) (op_resources operation))
     \<and> rq_operation rq = operation \<and> rq_constraints rq = cs \<and> rq_evaluations rq = evs"
proof -
  assume rq: "request_with_fingerprint approval revision tool_call trig fp operation evs cs = Inr rq"
  then have "sort (map res_digest (op_resources operation)) = sort (map ev_digest evs)"
    by (auto simp: request_with_fingerprint_def split: if_splits)
  then have "mset (map res_digest (op_resources operation)) = mset (map ev_digest evs)"
    by (metis mset_sort)
  moreover have "res_lifetime r \<noteq> ProcessLocal \<longleftrightarrow> res_lifetime r = RestartStable" for r
    by (cases "res_lifetime r") auto
  ultimately show ?thesis
    using rq by (auto simp: request_with_fingerprint_def list_all_iff list_ex_iff split: if_splits)
qed

subsubsection \<open>The store and its abstract state\<close>

datatype store_op = Grant tree_grant | ReplaceAll "tree_grant list" | Invalidate "grant_id set"

fun store_step :: "approval_store \<Rightarrow> store_op \<Rightarrow> approval_store" where
  "store_step s (Grant g) = store_grant g s"
| "store_step s (ReplaceAll gs) = store_replace gs s"
| "store_step s (Invalidate ids) = store_invalidate ids s"

text \<open>What the store promises: the grant in force under a key, newest operation first.\<close>

fun in_force :: "store_op list \<Rightarrow> approval_key \<Rightarrow> tree_grant option" where
  "in_force [] k = None"
| "in_force (Grant g # ops) k = (if approval_key g = k then Some g else in_force ops k)"
| "in_force (ReplaceAll gs # ops) k = find (\<lambda>g. approval_key g = k) (rev gs)"
| "in_force (Invalidate ids # ops) k =
     (case in_force ops k of None \<Rightarrow> None | Some g \<Rightarrow> if gr_id g \<in> ids then None else Some g)"

definition store_ok :: "approval_store \<Rightarrow> bool" where
  "store_ok s \<longleftrightarrow> hm_ok s \<and> (\<forall>k g. hm_get s k = Some g \<longrightarrow> approval_key g = k)"

lemma store_step_get:
  assumes "hm_ok s"
  shows "hm_get (store_step s x) k =
    (case x of
       Grant g \<Rightarrow> if approval_key g = k then Some g else hm_get s k
     | ReplaceAll gs \<Rightarrow> find (\<lambda>g. approval_key g = k) (rev gs)
     | Invalidate ids \<Rightarrow>
         (case hm_get s k of None \<Rightarrow> None | Some g \<Rightarrow> if gr_id g \<in> ids then None else Some g))"
  using assms hm.look_fold_put [of approval_key "\<lambda>g. g" _ hm_empty]
  by (cases x) (auto simp: store_grant_def store_replace_def store_invalidate_def hm_get_insert
      hm_get_retain hm_get_empty split: option.split)

lemma hm_ok_step: "hm_ok s \<Longrightarrow> hm_ok (store_step s x)"
  by (cases x) (auto simp: store_grant_def store_replace_def store_invalidate_def hm_ok_insert
      hm_ok_retain hm_ok_empty hm.ok_fold_put [of _ approval_key "\<lambda>g. g"])

lemma find_SomeD: "find P xs = Some x \<Longrightarrow> x \<in> set xs \<and> P x"
  by (induction xs) (auto split: if_splits)

lemma store_ok_step: "store_ok s \<Longrightarrow> store_ok (store_step s x)"
  by (cases x)
    (auto simp: store_ok_def hm_ok_step store_step_get dest: find_SomeD split: if_splits option.splits
      simp del: store_step.simps)

interpretation approvals: event_fold hm_empty store_step store_ok
proof unfold_locales
  show "store_ok hm_empty"
    by (simp add: store_ok_def hm_ok_empty hm_get_empty)
qed (rule store_ok_step)

lemma store_in_force: "hm_get (approvals.run ops) k = in_force (rev ops) k"
proof (induction ops rule: rev_induct)
  case Nil
  then show ?case by (simp add: approvals.run_def hm_get_empty)
next
  case (snoc x ops)
  have "hm_ok (approvals.run ops)"
    using approvals.inv_run [of ops] by (simp add: store_ok_def)
  with snoc show ?case
    by (cases x) (auto simp: approvals.run_append store_step_get simp del: store_step.simps)
qed

lemma in_force_key: "in_force ops k = Some g \<Longrightarrow> approval_key g = k"
  by (induction ops k rule: in_force.induct) (auto split: if_splits option.splits dest: find_SomeD)

subsection \<open>Properties\<close>

text \<open>
  The store of tree grants refines its abstract state: after any sequence of grants,
  replacements and invalidations, \<open>matching\<close> returns a grant exactly when that grant is in
  force for the asked tree, fingerprint and runtime and covers the very capabilities and
  resources of the operation.
\<close>

theorem store_matching_spec:
  "store_matching enc root operation rt (foldl store_step hm_empty ops) = Some g \<longleftrightarrow>
     in_force (rev ops) (root, fingerprint enc operation, rt) = Some g
     \<and> gr_capabilities g = op_capabilities operation \<and> gr_resources g = op_resources operation"
  using store_in_force [of ops "(root, fingerprint enc operation, rt)"]
  by (auto simp: store_matching_def approvals.run_def split: option.splits)

text \<open>
  C3. A grant authorises nothing but what was approved: where the operation digest is second
  preimage resistant at the approved operation, a grant made for that operation matches no
  call of another tree, another runtime, or another operation.
\<close>

theorem matching_same_operation:
  assumes digest: "\<And>c. operation_digest enc c = operation_digest enc (canonical_operation enc approved) \<Longrightarrow>
      c = canonical_operation enc approved"
    and made: "gr_fingerprint g = fingerprint enc approved"
      "gr_capabilities g = op_capabilities approved" "gr_resources g = op_resources approved"
    and matched: "store_matching enc root operation rt (foldl store_step hm_empty ops) = Some g"
  shows "operation = approved \<and> gr_root g = root \<and> gr_runtime g = rt"
proof -
  have force: "in_force (rev ops) (root, fingerprint enc operation, rt) = Some g"
    and caps: "gr_capabilities g = op_capabilities operation"
    and res: "gr_resources g = op_resources operation"
    using matched store_in_force [of ops "(root, fingerprint enc operation, rt)"]
    by (auto simp: store_matching_def approvals.run_def split: option.splits if_splits)
  have key: "gr_root g = root" "gr_fingerprint g = fingerprint enc operation" "gr_runtime g = rt"
    using in_force_key [OF force] by (auto simp: approval_key_def)
  have "canonical_operation enc operation = canonical_operation enc approved"
    by (rule digest) (use key(2) made(1) in \<open>simp add: fingerprint_def\<close>)
  then have "operation = approved"
    using caps res made(2,3) by (intro prepared_operation.equality) (auto simp: canonical_operation_def)
  with key show ?thesis by simp
qed

definition sample_resource :: prepared_resource where
  "sample_resource = \<lparr>res_capability = ''webfetch'', res_canonical = ''webfetch:ab'',
     res_digest = ''d1'', res_lifetime = RestartStable, res_boundary = Exact,
     res_source = PrimaryOperation\<rparr>"

definition sample_operation :: prepared_operation where
  "sample_operation = \<lparr>op_arguments = ''a'',
     op_capabilities = [\<lparr>cap_action = ''webfetch'', cap_operation = ''fetch:call''\<rparr>],
     op_resources = [sample_resource], op_context = ''c''\<rparr>"

definition sample_encoding :: encoding where
  "sample_encoding = \<lparr>capability_text = cap_operation, resource_text = (\<lambda>v. fst (snd v)),
     operation_digest = (\<lambda>(arguments, caps, views, ctx).
       if arguments = ''a'' \<and> ctx = ''c'' \<and> caps = op_capabilities sample_operation
          \<and> views = [resource_view sample_resource] then ''yes'' else ''no'')\<rparr>"

definition sample_grant :: tree_grant where
  "sample_grant = \<lparr>gr_id = 1, gr_root = 7, gr_approval = 3, gr_fingerprint = ''yes'',
     gr_capabilities = op_capabilities sample_operation, gr_resources = [sample_resource],
     gr_created = 0, gr_runtime = Some ''labpc''\<rparr>"

lemma sample_canonical:
  "canonical_operation sample_encoding sample_operation =
     (''a'', op_capabilities sample_operation, [resource_view sample_resource], ''c'')"
  by (simp add: canonical_operation_def sample_encoding_def sample_operation_def)

theorem matching_same_operation_witness:
  "store_matching sample_encoding 7 sample_operation (Some ''labpc'')
     (foldl store_step hm_empty [Grant sample_grant]) = Some sample_grant
   \<and> gr_root sample_grant = 7"
proof -
  have m: "store_matching sample_encoding 7 sample_operation (Some ''labpc'')
     (foldl store_step hm_empty [Grant sample_grant]) = Some sample_grant"
    by code_simp
  have "gr_root sample_grant = 7"
    using matching_same_operation [of sample_encoding sample_operation sample_grant 7 sample_operation
        "Some ''labpc''" "[Grant sample_grant]", OF _ _ _ _ m]
    by (auto simp: sample_canonical fingerprint_def sample_encoding_def sample_grant_def
        sample_operation_def split: if_splits)
  with m show ?thesis by simp
qed

text \<open>
  The fingerprint names the operation and not its listing: two operations that differ in
  the order of their capabilities and resources, or in the boundaries and sources of their
  resources, have one fingerprint, as long as the JSON texts they are sorted by tell them apart.
\<close>

theorem fingerprint_order_irrelevant:
  assumes "mset (op_capabilities a) = mset (op_capabilities b)"
    and "mset (map resource_view (op_resources a)) = mset (map resource_view (op_resources b))"
    and "op_arguments a = op_arguments b" and "op_context a = op_context b"
    and "inj_on (capability_text enc) (set (op_capabilities a))"
    and "inj_on (resource_text enc) (resource_view ` set (op_resources a))"
  shows "fingerprint enc a = fingerprint enc b"
  using assms sort_key_eq_sort_key [OF assms(1,5)] sort_key_eq_sort_key [OF assms(2), of "resource_text enc"]
  by (simp add: fingerprint_def canonical_operation_def)

definition sample_other :: prepared_resource where
  "sample_other = sample_resource\<lparr>res_canonical := ''webfetch:cd'', res_digest := ''d2''\<rparr>"

theorem fingerprint_order_irrelevant_witness:
  "fingerprint sample_encoding
     (sample_operation\<lparr>op_resources := [sample_other, sample_resource\<lparr>res_boundary := DelegationTree 4\<rparr>]\<rparr>)
   = fingerprint sample_encoding (sample_operation\<lparr>op_resources := [sample_resource, sample_other]\<rparr>)"
  by (rule fingerprint_order_irrelevant)
    (auto simp: sample_operation_def sample_other_def sample_resource_def sample_encoding_def
      resource_view_def)

text \<open>
  A request that may be answered with a tree grant has a grant that the store's reader
  accepts: whatever grant is made of a checked operation whose request allows it passes the
  checks of \<open>TreeApprovalGrant::validate\<close>.
\<close>

theorem tree_grant_of_request_validates:
  assumes "prepared_operation_new arguments caps resources ctx = Inr operation"
    and "request_with_fingerprint approval revision tool_call trig fp operation evs cs = Inr rq"
    and "allow_tree_grant cs"
    and "gr_capabilities g = op_capabilities (rq_operation rq)"
    and "gr_resources g = op_resources (rq_operation rq)"
  shows "grant_validate g = Inr ()"
proof -
  have "\<not> list_ex (\<lambda>r. res_lifetime r \<noteq> RestartStable) (op_resources operation)"
    "\<not> list_ex (\<lambda>r. is_path (res_capability r)) (op_resources operation)"
    using request_Inr [OF assms(2)] assms(3) by (auto simp: list_all_iff list_ex_iff)
  then show ?thesis
    using assms request_Inr [OF assms(2)]
    by (auto simp: grant_validate_def prepared_operation_new_Inr)
qed

definition sample_evaluation :: evaluation where
  "sample_evaluation = \<lparr>ev_digest = ''d1'', ev_effect = Ask, ev_trace =
     \<lparr>tr_action = ''webfetch'', tr_resource = ''https://x'', tr_candidates = [], tr_effect = Ask,
      tr_reason = ''none''\<rparr>\<rparr>"

definition sample_request :: approval_request where
  "sample_request = \<lparr>rq_approval = 3, rq_revision = 1, rq_tool_call = 2, rq_trigger = PermissionPolicy,
     rq_fingerprint = ''yes'', rq_operation = sample_operation, rq_evaluations = [sample_evaluation],
     rq_constraints = \<lparr>allow_once = True, allow_tree_grant = True, cancellable = True,
       expires_at = None\<rparr>, rq_runtime = None, rq_agent_options = []\<rparr>"

theorem tree_grant_of_request_validates_witness:
  "request_with_fingerprint 3 1 2 PermissionPolicy ''yes'' sample_operation [sample_evaluation]
     (rq_constraints sample_request) = Inr sample_request
   \<and> grant_validate sample_grant = Inr ()"
proof -
  have op: "prepared_operation_new ''a'' (op_capabilities sample_operation) [sample_resource] ''c''
      = Inr sample_operation"
    by code_simp
  have rq: "request_with_fingerprint 3 1 2 PermissionPolicy ''yes'' sample_operation
      [sample_evaluation] (rq_constraints sample_request) = Inr sample_request"
    by code_simp
  show ?thesis
    using tree_grant_of_request_validates [OF op rq, of sample_grant] rq
    by (simp add: sample_request_def sample_grant_def sample_operation_def)
qed

text \<open>
  C4. An approved call was authorised: where the record of an approval validates with the
  status \<open>approved\<close>, either the reviewer or policy that decided it allowed it and no user
  answered, or it was escalated and the user approved it, or it was escalated by the reviewer
  and the permission mode approved it; and a tree grant is named exactly for an approval of
  the tree.
\<close>

theorem approved_record_authorised:
  assumes "record_validate r = Inr ()" and "rec_status r = StApproved"
  shows "\<exists>f i. rec_final r = Some f \<and> rec_internal r = Some i \<and> fin_outcome f = OutApproved
    \<and> (if fin_source f = SrcUser
       then int_decision i = KindEscalate
         \<and> (rec_user r = Some ApproveOnce \<and> fin_reason f = UserApprovedOnce \<and> fin_tree_grant f = None
            \<or> rec_user r = Some ApproveTree \<and> fin_reason f = UserApprovedTree
              \<and> fin_tree_grant f \<noteq> None)
       else rec_user r = None
         \<and> (if fin_source f = SrcPermissionMode
            then int_decision i = KindEscalate \<and> int_source i = SrcInternalAgent
              \<and> fin_reason f = AutoApproveYApproved
            else int_decision i = KindAllow \<and> int_reason i = fin_reason f
              \<and> int_source i = fin_source f))"
proof -
  obtain f where f: "rec_final r = Some f" "fin_outcome f = OutApproved"
    using assms by (auto simp: record_validate_def status_coherent_def outcome_is_def
        split: sum.splits option.splits if_splits)
  have fin: "final_validate f = Inr ()" and dec: "decisions_coherent r"
    using assms(1) f(1) by (auto simp: record_validate_def split: sum.splits if_splits option.splits)
  have reason: "outcome_coherent OutApproved (fin_reason f)"
      "final_source_coherent (fin_reason f) (fin_source f)"
      "(fin_tree_grant f \<noteq> None) = (fin_reason f \<in> {UserApprovedTree, TreeGrantMatched})"
    using fin f(2) by (auto simp: final_validate_def split: if_splits)
  obtain i where i: "rec_internal r = Some i"
    using dec f by (auto simp: decisions_coherent_def internal_is_def split: option.splits if_splits)
  show ?thesis
  proof (cases "fin_source f = SrcUser")
    case True
    then obtain u where "rec_user r = Some u" "user_final u = (OutApproved, fin_reason f)"
      using dec f by (auto simp: decisions_coherent_def split: option.splits)
    with True dec f i reason(3) show ?thesis
      by (cases u) (auto simp: decisions_coherent_def internal_is_def)
  next
    case False
    with dec f i reason show ?thesis
      by (cases "fin_source f = SrcPermissionMode")
        (auto simp: decisions_coherent_def final_source_coherent_def outcome_coherent_def
          split: if_splits)
  qed
qed

definition sample_record :: approval_record where
  "sample_record = \<lparr>rec_session = 7, rec_request = sample_request, rec_status = StApproved,
     rec_internal = Some \<lparr>int_decision = KindEscalate, int_source = SrcInternalAgent,
       int_reason = Escalated, int_evaluations = [sample_evaluation], int_rationale = None\<rparr>,
     rec_user = Some ApproveTree,
     rec_final = Some \<lparr>fin_outcome = OutApproved, fin_source = SrcUser,
       fin_reason = UserApprovedTree, fin_feedback = None, fin_tree_grant = Some 1\<rparr>\<rparr>"

theorem approved_record_authorised_witness:
  "record_validate sample_record = Inr () \<and> rec_status sample_record = StApproved
   \<and> rec_internal sample_record \<noteq> None"
proof -
  have v: "record_validate sample_record = Inr ()" and s: "rec_status sample_record = StApproved"
    by code_simp+
  show ?thesis
    using approved_record_authorised [OF v s] v s by auto
qed

fun status_of_outcome :: "final_outcome \<Rightarrow> approval_status" where
  "status_of_outcome OutApproved = StApproved"
| "status_of_outcome OutRejected = StRejected"
| "status_of_outcome OutExpired = StExpired"
| "status_of_outcome OutCancelled = StCancelled"

text \<open>
  A final decision ends an approval and nothing else does: a validated record has a
  final decision just when its status is terminal, and then the decision's outcome is the
  status; the user's answer is recorded only with a final decision of the user's.
\<close>

theorem record_status_is_outcome:
  assumes "record_validate r = Inr ()"
  shows "(case rec_final r of
       None \<Rightarrow> rec_status r \<in> {StPending, StEscalated}
     | Some f \<Rightarrow> rec_status r = status_of_outcome (fin_outcome f))
   \<and> (rec_user r \<noteq> None \<longleftrightarrow> (\<exists>f. rec_final r = Some f \<and> fin_source f = SrcUser))"
proof -
  have st: "status_coherent r" and dec: "decisions_coherent r"
    using assms by (auto simp: record_validate_def split: sum.splits if_splits)
  have "case rec_final r of None \<Rightarrow> rec_status r \<in> {StPending, StEscalated}
     | Some f \<Rightarrow> rec_status r = status_of_outcome (fin_outcome f)"
    using st by (cases "rec_status r") (auto simp: status_coherent_def outcome_is_def split: option.splits)
  moreover have "rec_user r \<noteq> None \<longleftrightarrow> (\<exists>f. rec_final r = Some f \<and> fin_source f = SrcUser)"
    using dec by (auto simp: decisions_coherent_def split: option.splits if_splits)
  ultimately show ?thesis ..
qed

theorem record_status_is_outcome_witness:
  "record_validate sample_record = Inr () \<and> rec_user sample_record \<noteq> None"
proof -
  have v: "record_validate sample_record = Inr ()"
    by code_simp
  have "\<exists>f. rec_final sample_record = Some f \<and> fin_source f = SrcUser"
    by (simp add: sample_record_def)
  with v record_status_is_outcome [OF v] show ?thesis by blast
qed

end
