(* ===== verification/Permission_Decide.thy ===== *)
theory Permission_Decide
  imports Permission_Match Approvals
begin

text \<open>
  Permission decisions (\<open>crates/engine_permissions/src/lib.rs\<close>): the merged rule list of a
  run (\<open>MergedRules\<close>), the decision of one check, the decision of a prepared operation with
  a session overlay and turn-scoped grants (\<open>PermissionPipeline\<close>), the tools a run is offered,
  and the \<open>/permissions\<close> view.
\<close>

datatype rule_source = SessionOverlay | AgentDocument | DefaultSource

record merged_rule =
  mg_rule :: permission_rule
  mg_source :: rule_source

type_synonym merged_rules = "merged_rule list"

text \<open>The part of an agent snapshot the decisions read.\<close>

record agent_snapshot =
  ag_agent :: string
  ag_mode :: agent_mode
  ag_permissions :: "permission_rule list"

subsection \<open>The merged list\<close>

definition identity ::
  "permission_rule \<Rightarrow> string option \<Rightarrow> permission_action \<times> runtime_id option \<times> string" where
  "identity rule home = (rule_action rule, rule_runtime rule, rule_pattern rule home)"

definition merged_new ::
  "permission_rule list \<Rightarrow> permission_rule list option \<Rightarrow> string option \<Rightarrow> merged_rules" where
  "merged_new policy overlay home =
     (let session = (case overlay of None \<Rightarrow> [] | Some rules \<Rightarrow> rules);
          replaced = map (\<lambda>rule. identity rule home) session
      in map (\<lambda>rule. \<lparr>mg_rule = rule, mg_source = AgentDocument\<rparr>)
           (filter (\<lambda>rule.
              let same_target = filter (\<lambda>(a, rt, _). a = rule_action rule \<and> rt = rule_runtime rule)
                    replaced
              in if same_target = [] then True
                 else \<not> list_ex (\<lambda>(_, _, replacing). replacing = rule_pattern rule home) same_target)
            policy)
         @ map (\<lambda>rule. \<lparr>mg_rule = rule, mg_source = SessionOverlay\<rparr>) session)"

definition merged_of ::
  "agent_snapshot \<Rightarrow> permission_rule list option \<Rightarrow> string option \<Rightarrow> merged_rules" where
  "merged_of policy overlay home = merged_new (ag_permissions policy) overlay home"

text \<open>\<open>expanded_from_defaults\<close>: one action's rules against its defaults.\<close>

definition same_rule :: "permission_rule \<Rightarrow> permission_rule \<Rightarrow> bool" where
  "same_rule dflt rule \<longleftrightarrow>
     rule_action rule = rule_action dflt \<and> rule_runtime rule = rule_runtime dflt
     \<and> rule_effect rule = rule_effect dflt"

definition names_one :: "string \<Rightarrow> string \<Rightarrow> permission_rule \<Rightarrow> bool" where
  "names_one pre suf rule \<longleftrightarrow>
     (case strip_prefix pre (rule_resource rule) of
        None \<Rightarrow> False
      | Some rest \<Rightarrow>
          (case strip_suffix suf rest of
             None \<Rightarrow> False | Some name \<Rightarrow> name \<noteq> [] \<and> slash \<notin> set name))"

fun expanded_from_defaults ::
  "permission_rule list \<Rightarrow> permission_rule list \<Rightarrow> string \<Rightarrow> bool" where
  "expanded_from_defaults [] rules agent \<longleftrightarrow> rules = []"
| "expanded_from_defaults (dflt # defaults) rules agent \<longleftrightarrow>
     (let pat = str_replace (rule_resource dflt) AGENT_ID agent
      in (case (case split_once pat SESSION_MACHINE of
                  None \<Rightarrow> split_once pat SESSION_PROJECT | Some x \<Rightarrow> Some x) of
            None \<Rightarrow>
              (case rules of
                 [] \<Rightarrow> False
               | rule # rules' \<Rightarrow>
                   same_rule dflt rule \<and> rule_resource rule = pat
                   \<and> expanded_from_defaults defaults rules' agent)
          | Some (pre, suf) \<Rightarrow>
              expanded_from_defaults defaults
                (dropWhile (\<lambda>rule. same_rule dflt rule \<and> names_one pre suf rule) rules) agent))"

definition label_defaults :: "merged_rules \<Rightarrow> agent_snapshot \<Rightarrow> bool \<Rightarrow> merged_rules" where
  "label_defaults merged policy delegated =
     (let defaults = run_default_rules_with_delegate (ag_mode policy) delegated (ag_permissions policy);
          from_defaults = (\<lambda>a.
            let own = filter (\<lambda>r. rule_action r = a) defaults;
                rules = filter (\<lambda>r. rule_action r = a) (ag_permissions policy)
            in own \<noteq> [] \<and> expanded_from_defaults own rules (ag_agent policy))
      in map (\<lambda>m. if mg_source m = AgentDocument \<and> from_defaults (rule_action (mg_rule m))
                  then m\<lparr>mg_source := DefaultSource\<rparr> else m) merged)"

subsection \<open>One check\<close>

definition applying :: "merged_rules \<Rightarrow> permission_action \<Rightarrow> runtime_id option \<Rightarrow> merged_rules" where
  "applying merged a rt =
     filter (\<lambda>m. rule_action (mg_rule m) = a \<and> applies_to (mg_rule m) rt) merged"

definition offers :: "merged_rules \<Rightarrow> permission_action \<Rightarrow> runtime_id option \<Rightarrow> bool" where
  "offers merged a rt \<longleftrightarrow>
     list_ex (\<lambda>m. rule_effect (mg_rule m) = Allow \<or> rule_effect (mg_rule m) = Ask) (applying merged a rt)
     \<or> \<not> list_ex (\<lambda>m. rule_resource (mg_rule m) = ''*'') (applying merged a rt)"

type_synonym decided = "permission_effect \<times> string"

definition unmatched :: decided where
  "unmatched = (Ask, ''no matching rule; ask by default'')"

definition MOST_SPECIFIC :: string where
  "MOST_SPECIFIC = ''most-specific matching pattern: more literal characters, then fewer wildcards, then a runtime selector, then later declaration''"

definition NAME_ONLY :: string where
  "NAME_ONLY = ''bare or `*` permission rule applies to the permission-name-only check''"

definition strictest :: "decided \<Rightarrow> decided \<Rightarrow> decided" where
  "strictest l r = (if effect_rank (fst l) < effect_rank (fst r) then r else l)"

definition decide_in ::
  "file_system \<Rightarrow> merged_rules \<Rightarrow> permission_action \<Rightarrow> string \<Rightarrow> permission_scope \<Rightarrow> path_style \<Rightarrow> decided"
  where
  "decide_in canon merged a resource scope style =
     (case max_by_key (\<lambda>(index, m). specificity (mg_rule m) index (scope_home scope))
             (filter (\<lambda>(index, m). rule_matches_in canon (mg_rule m) a resource scope style)
               (List.enumerate 0 merged)) of
        None \<Rightarrow> unmatched
      | Some (_, m) \<Rightarrow> (rule_effect (mg_rule m), MOST_SPECIFIC))"

definition decide ::
  "file_system \<Rightarrow> merged_rules \<Rightarrow> permission_action \<Rightarrow> string \<Rightarrow> permission_scope \<Rightarrow> decided" where
  "decide canon merged a resource scope =
     (case styles scope a resource of
        [] \<Rightarrow> unmatched
      | style # rest \<Rightarrow>
          foldl (\<lambda>d st. strictest d (decide_in canon merged a resource scope st))
            (decide_in canon merged a resource scope style) rest)"

definition decide_name_only ::
  "merged_rules \<Rightarrow> permission_action \<Rightarrow> permission_scope \<Rightarrow> decided" where
  "decide_name_only merged a scope =
     (case max_by_key (\<lambda>(index, m). (rule_runtime (mg_rule m) \<noteq> None, index))
             (filter (\<lambda>(index, m). name_only_rule (mg_rule m) a scope) (List.enumerate 0 merged)) of
        None \<Rightarrow> unmatched
      | Some (_, m) \<Rightarrow> (rule_effect (mg_rule m), NAME_ONLY))"

fun source_layer :: "rule_source \<Rightarrow> string" where
  "source_layer SessionOverlay = ''session_overlay''"
| "source_layer AgentDocument = ''agent_document''"
| "source_layer DefaultSource = ''default''"

definition traced :: "merged_rules \<Rightarrow> (permission_rule \<Rightarrow> bool) \<Rightarrow> matched_rule list" where
  "traced merged keep =
     map (\<lambda>m. \<lparr>mr_source_layer = source_layer (mg_source m), mr_action = rule_action (mg_rule m),
               mr_runtime = rule_runtime (mg_rule m), mr_resource = rule_resource (mg_rule m),
               mr_effect = rule_effect (mg_rule m)\<rparr>)
       (filter (\<lambda>m. keep (mg_rule m)) merged)"

subsection \<open>Operations\<close>

definition UNSCOPED :: string where
  "UNSCOPED = ''<permission-name-only>''"

definition aggregate_effect :: "evaluation list \<Rightarrow> permission_effect" where
  "aggregate_effect evaluations =
     (if list_ex (\<lambda>e. ev_effect e = Deny) evaluations then Deny
      else if list_ex (\<lambda>e. ev_effect e = Ask) evaluations then Ask
      else Allow)"

record permission_decision =
  pd_effect :: permission_effect
  pd_evaluations :: "evaluation list"

definition permission_free :: permission_decision where
  "permission_free = \<lparr>pd_effect = Allow, pd_evaluations = []\<rparr>"

definition evaluate_resource ::
  "file_system \<Rightarrow> merged_rules \<Rightarrow> permission_scope \<Rightarrow> prepared_resource \<Rightarrow> string option \<Rightarrow> evaluation"
  where
  "evaluate_resource canon merged scope resource label =
     (let a = res_capability resource;
          candidates = (case label of
             Some l \<Rightarrow> traced merged (\<lambda>rule. rule_matches canon rule a l scope)
           | None \<Rightarrow> traced merged (\<lambda>rule. name_only_rule rule a scope));
          d = (case label of
             Some l \<Rightarrow> decide canon merged a l scope
           | None \<Rightarrow> decide_name_only merged a scope)
      in \<lparr>ev_digest = res_digest resource, ev_effect = fst d,
          ev_trace = \<lparr>tr_action = a,
            tr_resource = (case label of Some l \<Rightarrow> l | None \<Rightarrow> UNSCOPED),
            tr_candidates = candidates, tr_effect = fst d, tr_reason = snd d\<rparr>\<rparr>)"

text \<open>The two assertions panic: no decision.\<close>

definition decide_operation_with_overlay ::
  "file_system \<Rightarrow> agent_snapshot \<Rightarrow> permission_rule list option \<Rightarrow> prepared_operation \<Rightarrow>
     string option list \<Rightarrow> permission_scope \<Rightarrow> permission_decision option" where
  "decide_operation_with_overlay canon policy overlay operation labels scope =
     (if op_resources operation = [] \<or> length (op_resources operation) \<noteq> length labels then None
      else
        let merged = merged_of policy overlay (scope_home scope);
            evaluations = map (\<lambda>(resource, label). evaluate_resource canon merged scope resource label)
              (zip (op_resources operation) labels)
        in Some \<lparr>pd_effect = aggregate_effect evaluations, pd_evaluations = evaluations\<rparr>)"

definition decide_operation ::
  "file_system \<Rightarrow> agent_snapshot \<Rightarrow> prepared_operation \<Rightarrow> string option list \<Rightarrow> permission_scope \<Rightarrow>
     permission_decision option" where
  "decide_operation canon policy operation labels scope =
     decide_operation_with_overlay canon policy None operation labels scope"

definition GRANTED :: string where
  "GRANTED = ''turn-scoped skill grant allows an otherwise ask operation''"

text \<open>Whether one of \<open>grants\<close> covers a resource, in every reading of it.\<close>

definition grant_covers ::
  "file_system \<Rightarrow> permission_rule list \<Rightarrow> permission_scope \<Rightarrow> permission_action \<Rightarrow> string option \<Rightarrow> bool"
  where
  "grant_covers canon grants scope a label \<longleftrightarrow>
     list_ex (\<lambda>rule. rule_effect rule = Allow \<and> rule_action rule = a
        \<and> applies_to rule (scope_runtime scope)
        \<and> (case label of
             None \<Rightarrow> False
           | Some l \<Rightarrow>
               list_all (\<lambda>style. permission_pattern_matches canon
                   (expand_home_pattern (rule_resource rule) (scope_home scope)) a l
                   (scope_workspace scope) style)
                 (styles scope a l))) grants"

definition apply_grants ::
  "file_system \<Rightarrow> permission_rule list \<Rightarrow> permission_scope \<Rightarrow>
     evaluation \<times> prepared_resource \<times> string option \<Rightarrow> evaluation" where
  "apply_grants canon grants scope = (\<lambda>(e, resource, label).
     if ev_effect e \<noteq> Ask then e
     else if grant_covers canon grants scope (res_capability resource) label
     then e\<lparr>ev_effect := Allow,
            ev_trace := (ev_trace e)\<lparr>tr_effect := Allow, tr_reason := GRANTED\<rparr>\<rparr>
     else e)"

definition decide_operation_with_grants ::
  "file_system \<Rightarrow> agent_snapshot \<Rightarrow> permission_rule list option \<Rightarrow> permission_rule list option \<Rightarrow>
     prepared_operation \<Rightarrow> string option list \<Rightarrow> permission_scope \<Rightarrow> permission_decision option" where
  "decide_operation_with_grants canon policy overlay grants operation labels scope =
     (case decide_operation_with_overlay canon policy overlay operation labels scope of
        None \<Rightarrow> None
      | Some d \<Rightarrow>
          (case grants of
             None \<Rightarrow> Some d
           | Some gs \<Rightarrow>
               let evaluations = map (apply_grants canon gs scope)
                     (zip (pd_evaluations d) (zip (op_resources operation) labels))
               in Some \<lparr>pd_effect = aggregate_effect evaluations, pd_evaluations = evaluations\<rparr>))"

subsection \<open>Offered tools\<close>

definition tool_visible ::
  "permission_rule list \<Rightarrow> permission_rule list option \<Rightarrow> permission_action \<Rightarrow> runtime_id option \<Rightarrow> bool"
  where
  "tool_visible rules overlay a rt = offers (merged_new rules overlay None) a rt"

definition tool_visible_by ::
  "file_system \<Rightarrow> merged_rules \<Rightarrow> permission_rule list option \<Rightarrow> string \<Rightarrow> permission_scope \<Rightarrow> bool" where
  "tool_visible_by canon merged grants permission_name scope =
     (case action_new permission_name of
        None \<Rightarrow> False
      | Some a \<Rightarrow>
          if offers merged a (scope_runtime scope) then True
          else (case grants of
                  None \<Rightarrow> False
                | Some gs \<Rightarrow>
                    list_ex (\<lambda>g. rule_action g = a \<and> rule_effect g = Allow
                       \<and> applies_to g (scope_runtime scope)
                       \<and> fst (decide canon merged a
                           (expand_home_pattern (rule_resource g) (scope_home scope)) scope) \<noteq> Deny) gs))"

definition tool_offered_by ::
  "file_system \<Rightarrow> merged_rules \<Rightarrow> permission_rule list option \<Rightarrow> string \<Rightarrow> string \<Rightarrow> permission_scope \<Rightarrow> bool"
  where
  "tool_offered_by canon merged grants permission_name tool_name scope =
     (case action_new permission_name of
        Some a \<Rightarrow>
          if is_tool_name a then fst (decide canon merged a tool_name scope) \<noteq> Deny
          else tool_visible_by canon merged grants permission_name scope
      | None \<Rightarrow> tool_visible_by canon merged grants permission_name scope)"

definition tool_offered ::
  "file_system \<Rightarrow> agent_snapshot \<Rightarrow> permission_rule list option \<Rightarrow> permission_rule list option \<Rightarrow>
     string \<Rightarrow> string \<Rightarrow> permission_scope \<Rightarrow> bool" where
  "tool_offered canon policy overlay grants permission_name tool_name scope =
     tool_offered_by canon (merged_of policy overlay (scope_home scope)) grants permission_name
       tool_name scope"

definition tool_visible_with_grants ::
  "file_system \<Rightarrow> agent_snapshot \<Rightarrow> permission_rule list option \<Rightarrow> permission_rule list option \<Rightarrow>
     string \<Rightarrow> permission_scope \<Rightarrow> bool" where
  "tool_visible_with_grants canon policy overlay grants permission_name scope =
     tool_visible_by canon (merged_of policy overlay (scope_home scope)) grants permission_name scope"

definition tool_visible_with_overlay ::
  "file_system \<Rightarrow> agent_snapshot \<Rightarrow> permission_rule list option \<Rightarrow> string \<Rightarrow> runtime_id option \<Rightarrow> bool"
  where
  "tool_visible_with_overlay canon policy overlay permission_name rt =
     tool_visible_with_grants canon policy overlay None permission_name
       \<lparr>scope_runtime = rt, scope_workspace = None, scope_home = None, scope_platform = None\<rparr>"

subsection \<open>Views\<close>

text \<open>The scope of a rule's evaluation and its effect there, as a client asks for it.\<close>

definition rule_effects ::
  "file_system \<Rightarrow> agent_snapshot \<Rightarrow> permission_rule list \<Rightarrow> permission_action \<Rightarrow> string \<Rightarrow>
     permission_scope list \<Rightarrow> permission_effect list" where
  "rule_effects canon policy overlay a resource scopes =
     map (\<lambda>scope.
        let merged = merged_of policy (Some overlay) (scope_home scope)
        in if resource = ''*'' then fst (decide_name_only merged a scope)
           else fst (decide canon merged a (expand_home_pattern resource (scope_home scope)) scope))
       scopes"

definition stricter :: "permission_effect list \<Rightarrow> permission_effect list \<Rightarrow> bool" where
  "stricter old new \<longleftrightarrow> list_ex (\<lambda>(o', n). effect_rank o' < effect_rank n) (zip old new)"

record effective_rule =
  ef_runtime :: "runtime_id option"
  ef_resource :: string
  ef_effect :: permission_effect
  ef_source :: rule_source

record effective_action =
  ea_action :: permission_action
  ea_effect :: permission_effect
  ea_source :: rule_source
  ea_patterns :: "effective_rule list"

text \<open>
  \<open>collect::<BTreeMap>\<close>: sorted by key, the last of two entries with one key. \<open>None\<close> orders
  before \<open>Some\<close>, as \<open>Option\<close> does.
\<close>

fun option_key :: "'a option \<Rightarrow> 'a list" where
  "option_key None = []"
| "option_key (Some x) = [x]"

fun btree_insert :: "('k::linorder) \<Rightarrow> 'v \<Rightarrow> ('k \<times> 'v) list \<Rightarrow> ('k \<times> 'v) list" where
  "btree_insert k v [] = [(k, v)]"
| "btree_insert k v ((k', v') # m) =
     (if k < k' then (k, v) # (k', v') # m
      else if k = k' then (k, v) # m
      else (k', v') # btree_insert k v m)"

definition view_actions :: "permission_action list \<Rightarrow> merged_rules \<Rightarrow> permission_action list" where
  "view_actions declared_actions merged =
     foldl (\<lambda>acts a. if a \<in> set acts then acts else acts @ [a]) BUILT_IN
       (declared_actions @ map (\<lambda>m. rule_action (mg_rule m)) merged)"

definition view_action :: "merged_rules \<Rightarrow> permission_action \<Rightarrow> effective_action" where
  "view_action merged a =
     (let of_action = filter (\<lambda>m. rule_action (mg_rule m) = a) merged;
          bare = (\<lambda>m. rule_runtime (mg_rule m) = None \<and> rule_resource (mg_rule m) = ''*'');
          wildcard = find bare (rev of_action);
          es = (case wildcard of
             None \<Rightarrow> (Ask, DefaultSource) | Some m \<Rightarrow> (rule_effect (mg_rule m), mg_source m));
          patterns = foldl (\<lambda>acc m.
              let rule = mg_rule m
              in btree_insert (option_key (rule_runtime rule), rule_resource rule)
                   \<lparr>ef_runtime = rule_runtime rule, ef_resource = rule_resource rule,
                    ef_effect = rule_effect rule, ef_source = mg_source m\<rparr> acc)
            [] (filter (\<lambda>m. \<not> bare m) of_action)
      in \<lparr>ea_action = a, ea_effect = fst es, ea_source = snd es, ea_patterns = map snd patterns\<rparr>)"

definition effective_permission_view ::
  "agent_snapshot \<Rightarrow> bool \<Rightarrow> permission_rule list \<Rightarrow> permission_action list \<Rightarrow> effective_action list"
  where
  "effective_permission_view policy delegated overlay declared_actions =
     (let merged = label_defaults (merged_of policy (Some overlay) None) policy delegated
      in map (view_action merged) (view_actions declared_actions merged))"

definition select_governing_agent :: "'a \<Rightarrow> 'a option \<Rightarrow> 'a" where
  "select_governing_agent creation latest = (case latest of None \<Rightarrow> creation | Some a \<Rightarrow> a)"

subsection \<open>Lemmas\<close>

lemma in_enumerate: "(i, m) \<in> set (List.enumerate 0 xs) \<longleftrightarrow> i < length xs \<and> xs ! i = m"
  by (auto simp: in_set_enumerate_eq)

text \<open>
  The rule that decides among those a predicate keeps is the one of the greatest key; it
  depends on the rules and not on where they come from.
\<close>

definition winner ::
  "(permission_rule \<Rightarrow> bool) \<Rightarrow> (permission_rule \<Rightarrow> nat \<Rightarrow> 'k::linorder) \<Rightarrow> permission_rule list \<Rightarrow> nat \<Rightarrow> bool"
  where
  "winner P key rules i \<longleftrightarrow> i < length rules \<and> P (rules ! i)
     \<and> (\<forall>j < length rules. P (rules ! j) \<and> j \<noteq> i \<longrightarrow> key (rules ! j) j < key (rules ! i) i)"

definition pick ::
  "(permission_rule \<Rightarrow> bool) \<Rightarrow> (permission_rule \<Rightarrow> nat \<Rightarrow> 'k::linorder) \<Rightarrow> permission_rule list \<Rightarrow>
     permission_rule option" where
  "pick P key rules = map_option snd
     (max_by_key (\<lambda>(i, r). key r i) (filter (\<lambda>(i, r). P r) (List.enumerate 0 rules)))"

lemma pick_cases:
  fixes key :: "permission_rule \<Rightarrow> nat \<Rightarrow> 'k::linorder"
  assumes key: "\<And>r r' i j. i \<noteq> j \<Longrightarrow> key r i \<noteq> key r' j"
  obtains (none) "pick P key rules = None" "\<And>r. r \<in> set rules \<Longrightarrow> \<not> P r"
    | (some) i where "pick P key rules = Some (rules ! i)" "winner P key rules i"
proof (cases "max_by_key (\<lambda>(i, r). key r i) (filter (\<lambda>(i, r). P r) (List.enumerate 0 rules))")
  case None
  then have "filter (\<lambda>(i, r). P r) (List.enumerate 0 rules) = []"
    by simp
  then have "\<not> P r" if "(i, r) \<in> set (List.enumerate 0 rules)" for i r
    using that by (auto simp: filter_empty_conv)
  then have "\<not> P r" if "r \<in> set rules" for r
    using that unfolding in_enumerate by (auto simp: in_set_conv_nth)
  with None none show ?thesis by (simp add: pick_def)
next
  case (Some w)
  obtain i r where w: "w = (i, r)" by (cases w)
  note best = max_by_key_Some [OF Some]
  have i: "i < length rules" "r = rules ! i" "P r"
    using best(1) by (auto simp: w in_enumerate)
  have "key (rules ! j) j < key r i" if "j < length rules" "P (rules ! j)" "j \<noteq> i" for j
    using best(2) [of "(j, rules ! j)"] key [OF that(3), of "rules ! j" r] that
    by (auto simp: w in_enumerate)
  with i Some w show ?thesis
    by (intro some [of i]) (auto simp: pick_def winner_def)
qed

lemma winner_unique: "winner P key rules i \<Longrightarrow> winner P key rules j \<Longrightarrow> i = j"
  unfolding winner_def using less_asym by blast

lemma enumerate_map: "List.enumerate n (map f xs) = map (apsnd f) (List.enumerate n xs)"
  by (induction xs arbitrary: n) auto

lemma max_by_key_map: "max_by_key f (map g xs) = map_option g (max_by_key (\<lambda>x. f (g x)) xs)"
proof -
  have "fold (\<lambda>y m. if f m \<le> f y then y else m) (map g ys) (g x) =
      g (fold (\<lambda>y m. if f (g m) \<le> f (g y) then y else m) ys x)" for x ys
    by (induction ys arbitrary: x) (auto simp: if_distrib)
  then show ?thesis by (cases xs) auto
qed

lemma pick_merged:
  "pick P key (map mg_rule merged) =
     map_option (\<lambda>(i, m). mg_rule m)
       (max_by_key (\<lambda>(i, m). key (mg_rule m) i)
          (filter (\<lambda>(i, m). P (mg_rule m)) (List.enumerate 0 merged)))"
  by (simp add: pick_def enumerate_map filter_map max_by_key_map option.map_comp comp_def
      case_prod_beta')

lemma decide_in_pick:
  "decide_in canon merged a resource scope style =
     (case pick (\<lambda>r. rule_matches_in canon r a resource scope style)
             (\<lambda>r i. specificity r i (scope_home scope)) (map mg_rule merged) of
        None \<Rightarrow> unmatched | Some r \<Rightarrow> (rule_effect r, MOST_SPECIFIC))"
  by (simp add: decide_in_def pick_merged split: option.split prod.split)

lemma decide_name_only_pick:
  "decide_name_only merged a scope =
     (case pick (\<lambda>r. name_only_rule r a scope) (\<lambda>r i. (rule_runtime r \<noteq> None, i))
             (map mg_rule merged) of
        None \<Rightarrow> unmatched | Some r \<Rightarrow> (rule_effect r, NAME_ONLY))"
  by (simp add: decide_name_only_def pick_merged split: option.split prod.split)

lemma pick_specificity:
  obtains "pick P (\<lambda>r i. specificity r i home) rules = None" "\<And>r. r \<in> set rules \<Longrightarrow> \<not> P r"
    | i where "pick P (\<lambda>r i. specificity r i home) rules = Some (rules ! i)"
        "winner P (\<lambda>r i. specificity r i home) rules i"
  by (rule pick_cases [of "\<lambda>r i. specificity r i home" P rules]) (auto dest: specificity_index)

lemma pick_name_only:
  obtains "pick P (\<lambda>r i. (rule_runtime r \<noteq> None, i)) rules = None" "\<And>r. r \<in> set rules \<Longrightarrow> \<not> P r"
    | i where "pick P (\<lambda>r i. (rule_runtime r \<noteq> None, i)) rules = Some (rules ! i)"
        "winner P (\<lambda>r i. (rule_runtime r \<noteq> None, i)) rules i"
  by (rule pick_cases [of "\<lambda>r i. (rule_runtime r \<noteq> None, i)" P rules]) auto

lemma decide_rules:
  "map mg_rule xs = map mg_rule ys \<Longrightarrow> decide canon xs a resource scope = decide canon ys a resource scope"
  by (simp add: decide_def decide_in_pick cong: list.case_cong)

lemma strictest_rank: "effect_rank (fst (strictest l r)) = max (effect_rank (fst l)) (effect_rank (fst r))"
  by (simp add: strictest_def)

lemma strictest_foldl_rank:
  "effect_rank (fst (foldl (\<lambda>d x. strictest d (f x)) d xs)) =
     Max (insert (effect_rank (fst d)) ((\<lambda>x. effect_rank (fst (f x))) ` set xs))"
proof (induction xs arbitrary: d)
  case (Cons x xs)
  then show ?case
    by (cases "xs = []") (auto simp: strictest_rank Max_insert max.assoc)
qed simp

lemma decide_rank:
  "effect_rank (fst (decide canon merged a resource scope)) =
     Max ((\<lambda>st. effect_rank (fst (decide_in canon merged a resource scope st)))
       ` set (styles scope a resource))"
  by (cases "styles scope a resource") (auto simp: decide_def strictest_foldl_rank)

lemma decide_attained:
  "\<exists>st \<in> set (styles scope a resource).
     fst (decide canon merged a resource scope) = fst (decide_in canon merged a resource scope st)"
proof -
  have "effect_rank (fst (decide canon merged a resource scope)) \<in>
      (\<lambda>st. effect_rank (fst (decide_in canon merged a resource scope st)))
       ` set (styles scope a resource)"
    unfolding decide_rank by (rule Max_in) auto
  then show ?thesis by auto
qed


lemma overlay_filter:
  "(let same_target = filter (\<lambda>(a, rt, _). a = rule_action rule \<and> rt = rule_runtime rule)
          (map (\<lambda>r. identity r home) session)
    in if same_target = [] then True
       else \<not> list_ex (\<lambda>(_, _, replacing). replacing = rule_pattern rule home) same_target)
   \<longleftrightarrow> identity rule home \<notin> (\<lambda>r. identity r home) ` set session"
  by (auto simp: Let_def list_ex_iff filter_empty_conv identity_def image_iff)

lemma applying_not_offered:
  assumes "\<not> offers merged a (scope_runtime scope)"
  shows "(\<forall>r \<in> set (map mg_rule merged). rule_action r = a \<and> applies_to r (scope_runtime scope) \<longrightarrow>
      rule_effect r = Deny)
    \<and> (\<exists>r \<in> set (map mg_rule merged). rule_action r = a \<and> applies_to r (scope_runtime scope)
        \<and> rule_resource r = ''*'')"
  using assms by (auto simp: offers_def applying_def list_ex_iff) (metis permission_effect.exhaust)

lemma decide_in_denied:
  assumes "\<forall>r \<in> set (map mg_rule merged). rule_action r = a \<and> applies_to r (scope_runtime scope) \<longrightarrow>
      rule_effect r = Deny"
  shows "fst (decide_in canon merged a resource scope style) =
     (if \<exists>r \<in> set (map mg_rule merged). rule_matches_in canon r a resource scope style then Deny else Ask)"
proof -
  let ?P = "\<lambda>r. rule_matches_in canon r a resource scope style"
  show ?thesis
  proof (cases rule: pick_specificity [where P = ?P and rules = "map mg_rule merged" and home = "scope_home scope"])
    case 1
    then show ?thesis by (auto simp: decide_in_pick unmatched_def)
  next
    case (2 i)
    then have "map mg_rule merged ! i \<in> set (map mg_rule merged)" "?P (map mg_rule merged ! i)"
      by (auto simp: winner_def)
    with 2 assms show ?thesis
      by (auto simp: decide_in_pick rule_matches_in_def)
  qed
qed


lemma pick_None:
  assumes "\<And>r. r \<in> set rules \<Longrightarrow> \<not> P r"
  shows "pick P key rules = None"
proof -
  have "\<not> P r" if "(i, r) \<in> set (List.enumerate 0 rules)" for i r
    using that assms [OF nth_mem [of i rules]] unfolding in_enumerate by auto
  then have "filter (\<lambda>(i, r). P r) (List.enumerate 0 rules) = []"
    by (auto simp: filter_empty_conv)
  then show ?thesis by (simp add: pick_def)
qed

lemma aggregate_rank:
  "effect_rank (aggregate_effect es) = Max (insert 0 ((\<lambda>e. effect_rank (ev_effect e)) ` set es))"
proof -
  have le: "effect_rank (ev_effect e) \<le> effect_rank (aggregate_effect es)" if "e \<in> set es" for e
    using that by (cases "ev_effect e") (auto simp: aggregate_effect_def list_ex_iff)
  have "effect_rank (aggregate_effect es) \<in> insert 0 ((\<lambda>e. effect_rank (ev_effect e)) ` set es)"
    by (force simp: aggregate_effect_def list_ex_iff)
  then show ?thesis
    by (intro Max_eqI [symmetric]) (auto dest: le)
qed

lemma find_filter_last: "find P (rev xs) = (if filter P xs = [] then None else Some (last (filter P xs)))"
  by (induction xs rule: rev_induct) auto


subsection \<open>Properties\<close>

text \<open>
  The merged list is the frozen policy without the rules whose identity (action, runtime
  selector, and pattern with \<open>~\<close> expanded) some overlay rule has, followed by the whole overlay:
  the two-step search of \<open>MergedRules::new\<close> computes just that.
\<close>

theorem overlay_replaces_by_identity:
  "merged_new policy (Some overlay) home =
     map (\<lambda>r. \<lparr>mg_rule = r, mg_source = AgentDocument\<rparr>)
       (filter (\<lambda>r. identity r home \<notin> (\<lambda>r'. identity r' home) ` set overlay) policy)
     @ map (\<lambda>r. \<lparr>mg_rule = r, mg_source = SessionOverlay\<rparr>) overlay"
  by (simp only: merged_new_def option.case Let_def overlay_filter [unfolded Let_def])

text \<open>
  C28. The most specific matching rule decides: either no rule of the list matches and the check
  asks, or the deciding rule matches and every other matching rule is below it in the order of
  literal characters, fewer wildcards, a runtime selector and later declaration.
\<close>

theorem most_specific_rule_decides:
  "(\<forall>m \<in> set merged. \<not> rule_matches_in canon (mg_rule m) a resource scope style)
     \<and> decide_in canon merged a resource scope style = unmatched
   \<or> (\<exists>i < length merged. rule_matches_in canon (mg_rule (merged ! i)) a resource scope style
       \<and> decide_in canon merged a resource scope style =
           (rule_effect (mg_rule (merged ! i)), MOST_SPECIFIC)
       \<and> (\<forall>j < length merged. j \<noteq> i \<longrightarrow>
            rule_matches_in canon (mg_rule (merged ! j)) a resource scope style \<longrightarrow>
            specificity (mg_rule (merged ! j)) j (scope_home scope)
              < specificity (mg_rule (merged ! i)) i (scope_home scope)))"
proof (cases rule: pick_specificity [where P = "\<lambda>r. rule_matches_in canon r a resource scope style"
      and rules = "map mg_rule merged" and home = "scope_home scope"])
  case 1
  then show ?thesis by (auto simp: decide_in_pick)
next
  case (2 i)
  then show ?thesis
    by (intro disjI2 exI [of _ i]) (auto simp: decide_in_pick winner_def)
qed

definition sample_rules :: merged_rules where
  "sample_rules =
     [\<lparr>mg_rule = new_rule READ ''*'' Allow, mg_source = DefaultSource\<rparr>,
      \<lparr>mg_rule = new_rule READ ''*.env'' Deny, mg_source = AgentDocument\<rparr>,
      \<lparr>mg_rule = (new_rule READ ''*.env'' Ask)\<lparr>rule_runtime := Some ''labpc''\<rparr>,
       mg_source = SessionOverlay\<rparr>]"

definition sample_scope :: permission_scope where
  "sample_scope = \<lparr>scope_runtime = None, scope_workspace = Some ''/ws'', scope_home = Some ''/home/u'',
     scope_platform = Some ''linux''\<rparr>"

lemma sample_decides:
  "decide_in Some sample_rules READ ''a/.env'' sample_scope Posix = (Deny, MOST_SPECIFIC)"
  "decide_in Some sample_rules READ ''a/b'' sample_scope Posix = (Allow, MOST_SPECIFIC)"
  by code_simp+

theorem most_specific_rule_decides_witness:
  "decide_in Some sample_rules READ ''a/.env'' sample_scope Posix = (Deny, MOST_SPECIFIC)
   \<and> (\<exists>i < length sample_rules. rule_effect (mg_rule (sample_rules ! i)) = Deny
       \<and> rule_matches_in Some (mg_rule (sample_rules ! i)) READ ''a/.env'' sample_scope Posix)"
  using most_specific_rule_decides [of sample_rules Some READ "''a/.env''" sample_scope Posix]
    sample_decides(1)
  by (auto simp: unmatched_def)

text \<open>
  Where the platform is unknown a path is decided as strictly as its strictest reading: the
  effect of a check is the greatest, in the order allow, ask, deny, over the styles the
  scope reads the resource in.
\<close>

theorem decision_is_strictest_reading:
  "effect_rank (fst (decide canon merged a resource scope)) =
     Max ((\<lambda>style. effect_rank (fst (decide_in canon merged a resource scope style)))
       ` set (styles scope a resource))"
  by (rule decide_rank)

text \<open>
  An action no rule of the run names is asked about, on every resource and by name: it is
  offered, and no check of it is allowed or denied.
\<close>

theorem unnamed_action_asks:
  assumes "list_all (\<lambda>m. rule_action (mg_rule m) \<noteq> a) merged"
  shows "fst (decide canon merged a resource scope) = Ask
    \<and> fst (decide_name_only merged a scope) = Ask \<and> offers merged a (scope_runtime scope)"
proof -
  have none: "rule_action r \<noteq> a" if "r \<in> set (map mg_rule merged)" for r
    using assms that by (auto simp: list_all_iff)
  have "decide_in canon merged a resource scope style = unmatched" for style
    unfolding decide_in_pick by (subst pick_None) (use none in \<open>auto simp: rule_matches_in_def\<close>)
  then have "fst (decide canon merged a resource scope) = Ask"
    using decide_attained [of scope a resource canon merged] by (auto simp: unmatched_def)
  moreover have "fst (decide_name_only merged a scope) = Ask"
    unfolding decide_name_only_pick
    by (subst pick_None) (use none in \<open>auto simp: name_only_rule_def unmatched_def\<close>)
  moreover have "applying merged a (scope_runtime scope) = []"
    using assms by (auto simp: applying_def filter_empty_conv list_all_iff)
  ultimately show ?thesis by (simp add: offers_def)
qed

theorem unnamed_action_asks_witness:
  "fst (decide Some sample_rules BASH ''ls'' sample_scope) = Ask
   \<and> offers sample_rules BASH (scope_runtime sample_scope)"
proof -
  have "list_all (\<lambda>m. rule_action (mg_rule m) \<noteq> BASH) sample_rules"
    by code_simp
  from unnamed_action_asks [OF this, of Some "''ls''" sample_scope] show ?thesis by blast
qed

text \<open>
  C1. A hidden tool cannot run: where the merged list does not offer an action on a runtime, no
  check of it there is allowed; a check by name is denied, and so is every check of an action
  whose resources are not paths, on every resource that does not start with \<open>*\<close>.
\<close>

theorem hidden_action_never_allowed:
  assumes "\<not> offers merged a (scope_runtime scope)"
  shows "fst (decide canon merged a resource scope) \<noteq> Allow
    \<and> fst (decide_name_only merged a scope) = Deny
    \<and> (\<not> path_resource a \<and> \<not> starts_with resource ''*'' \<longrightarrow>
         fst (decide canon merged a resource scope) = Deny)"
proof -
  note hidden = applying_not_offered [OF assms]
  note denied = decide_in_denied [OF conjunct1 [OF hidden]]
  obtain st where st: "fst (decide canon merged a resource scope)
      = fst (decide_in canon merged a resource scope st)"
    using decide_attained by blast
  obtain r where r: "r \<in> set (map mg_rule merged)" "rule_action r = a"
      "applies_to r (scope_runtime scope)" "rule_resource r = ''*''"
    using hidden by blast
  have "fst (decide_name_only merged a scope) = Deny"
    using hidden r by (cases rule: pick_name_only [where P = "\<lambda>r. name_only_rule r a scope"
          and rules = "map mg_rule merged"])
      (force simp: decide_name_only_pick winner_def name_only_rule_def in_set_conv_nth)+
  moreover have "fst (decide canon merged a resource scope) \<noteq> Allow"
    by (simp add: st denied)
  moreover have "fst (decide canon merged a resource scope) = Deny"
    if "\<not> path_resource a" "\<not> starts_with resource ''*''"
    using bare_rule_matches [OF r(2-4) that, of canon st] r(1) by (auto simp: st denied)
  ultimately show ?thesis by blast
qed

theorem hidden_action_never_allowed_witness:
  "\<not> offers [\<lparr>mg_rule = new_rule BASH ''*'' Deny, mg_source = DefaultSource\<rparr>] BASH None
   \<and> fst (decide Some [\<lparr>mg_rule = new_rule BASH ''*'' Deny, mg_source = DefaultSource\<rparr>] BASH ''ls''
        (sample_scope)) = Deny"
proof -
  have h: "\<not> offers [\<lparr>mg_rule = new_rule BASH ''*'' Deny, mg_source = DefaultSource\<rparr>] BASH
      (scope_runtime sample_scope)"
    by code_simp
  then show ?thesis
    using hidden_action_never_allowed [OF h, of Some "''ls''"]
    by (simp add: sample_scope_def path_resource_def is_path_def action_defs)
qed

lemma decide_operation_Some:
  assumes "decide_operation_with_overlay canon policy overlay operation labels scope = Some d"
  shows "length labels = length (op_resources operation)"
    and "labels \<noteq> []"
    and "pd_evaluations d = map (\<lambda>(resource, label). evaluate_resource canon
        (merged_of policy overlay (scope_home scope)) scope resource label)
      (zip (op_resources operation) labels)"
    and "pd_effect d = aggregate_effect (pd_evaluations d)"
  using assms by (auto simp: decide_operation_with_overlay_def Let_def split: if_splits)

text \<open>
  An operation is decided as strictly as its strictest resource: the effect of a prepared
  operation is the greatest, in the order allow, ask, deny, of the effects of its resources,
  each checked by its label or, without one, by name.
\<close>

theorem operation_strictest_resource:
  assumes "decide_operation_with_overlay canon policy overlay operation labels scope = Some d"
  shows "effect_rank (pd_effect d) =
    Max (set (map (\<lambda>(resource, label). effect_rank (fst (case label of
          Some l \<Rightarrow> decide canon (merged_of policy overlay (scope_home scope))
                     (res_capability resource) l scope
        | None \<Rightarrow> decide_name_only (merged_of policy overlay (scope_home scope))
                     (res_capability resource) scope)))
      (zip (op_resources operation) labels)))"
    (is "_ = Max (set (map ?f ?zs))")
proof -
  note d = decide_operation_Some [OF assms]
  have "map (\<lambda>e. effect_rank (ev_effect e)) (pd_evaluations d) = map ?f ?zs"
    by (auto simp: d(3) evaluate_resource_def Let_def)
  then have "(\<lambda>e. effect_rank (ev_effect e)) ` set (pd_evaluations d) = set (map ?f ?zs)"
    by (simp only: set_map [symmetric])
  moreover have "?zs \<noteq> []"
    using d(1,2) by (cases "op_resources operation"; cases labels) auto
  ultimately have "effect_rank (pd_effect d) = Max (insert 0 (set (map ?f ?zs)))" "set (map ?f ?zs) \<noteq> {}"
    by (simp_all add: d(4) aggregate_rank del: set_map set_zip)
  then show ?thesis
    by (subst (asm) Max_insert) (auto simp del: set_map)
qed

definition sample_policy :: agent_snapshot where
  "sample_policy = \<lparr>ag_agent = ''dev'', ag_mode = Primary, ag_permissions =
     [new_rule WEBFETCH ''https://docs/*'' Allow, new_rule WEBFETCH ''*'' Ask]\<rparr>"

theorem operation_strictest_resource_witness:
  "(case decide_operation_with_overlay Some sample_policy None sample_operation
       [Some ''https://x''] sample_scope of
      None \<Rightarrow> False
    | Some d \<Rightarrow> pd_effect d = Ask \<and> effect_rank (pd_effect d) = 1)"
proof -
  obtain d where d: "decide_operation_with_overlay Some sample_policy None sample_operation
      [Some ''https://x''] sample_scope = Some d"
    by (auto simp: decide_operation_with_overlay_def sample_operation_def Let_def)
  have "decide Some (merged_of sample_policy None (scope_home sample_scope)) WEBFETCH ''https://x''
      sample_scope = (Ask, MOST_SPECIFIC)"
    by code_simp
  then have "effect_rank (pd_effect d) = 1"
    using operation_strictest_resource [OF d]
    by (simp add: sample_operation_def sample_resource_def action_defs)
  with d show ?thesis
    by (cases "pd_effect d") auto
qed

text \<open>
  C2. Turn-scoped grants only lift asks: against the decision without them, each evaluation is
  unchanged, or asked before and is allowed now by a grant that covers the resource in every
  reading; an operation is denied with the grants exactly when it is denied without them.
\<close>

theorem grants_only_lift_asks:
  assumes "decide_operation_with_overlay canon policy overlay operation labels scope = Some d"
    and "decide_operation_with_grants canon policy overlay (Some grants) operation labels scope = Some d'"
  shows "list_all2 (\<lambda>(e, resource, label) e'. e' = e
      \<or> ev_effect e = Ask \<and> ev_effect e' = Allow \<and> ev_digest e' = ev_digest e
        \<and> grant_covers canon grants scope (res_capability resource) label)
      (zip (pd_evaluations d) (zip (op_resources operation) labels)) (pd_evaluations d')
    \<and> (pd_effect d' = Deny \<longleftrightarrow> pd_effect d = Deny)
    \<and> effect_rank (pd_effect d') \<le> effect_rank (pd_effect d)"
proof -
  note d = decide_operation_Some [OF assms(1)]
  let ?zs = "zip (pd_evaluations d) (zip (op_resources operation) labels)"
  have d': "pd_evaluations d' = map (apply_grants canon grants scope) ?zs"
      "pd_effect d' = aggregate_effect (pd_evaluations d')"
    using assms by (auto simp: decide_operation_with_grants_def Let_def)
  have len: "length (pd_evaluations d) = length (zip (op_resources operation) labels)"
    by (simp add: d(3))
  have es: "pd_evaluations d = map fst ?zs"
    by (simp add: len)
  have step: "ev_effect (apply_grants canon grants scope z) = ev_effect (fst z)
      \<or> ev_effect (fst z) = Ask \<and> ev_effect (apply_grants canon grants scope z) = Allow" for z
    by (auto simp: apply_grants_def split: prod.splits)
  have deny: "ev_effect (apply_grants canon grants scope z) = Deny \<longleftrightarrow> ev_effect (fst z) = Deny" for z
    using step [of z] by auto
  have ask: "ev_effect (apply_grants canon grants scope z) = Ask \<Longrightarrow> ev_effect (fst z) = Ask" for z
    using step [of z] by auto
  have "list_all2 (\<lambda>(e, resource, label) e'. e' = e
      \<or> ev_effect e = Ask \<and> ev_effect e' = Allow \<and> ev_digest e' = ev_digest e
        \<and> grant_covers canon grants scope (res_capability resource) label) ?zs (pd_evaluations d')"
    unfolding d'(1) by (auto simp: list_all2_map2 list_all2_same apply_grants_def split: prod.splits)
  moreover have exd: "list_ex P (pd_evaluations d) \<longleftrightarrow> (\<exists>z \<in> set ?zs. P (fst z))" for P
    by (subst es) (simp add: list_ex_iff)
  moreover have exd': "list_ex P (pd_evaluations d') \<longleftrightarrow>
      (\<exists>z \<in> set ?zs. P (apply_grants canon grants scope z))" for P
    by (simp add: d'(1) list_ex_iff)
  have "pd_effect d' = Deny \<longleftrightarrow> pd_effect d = Deny"
    by (simp add: d(4) d'(2) aggregate_effect_def exd exd' deny)
  moreover have "effect_rank (pd_effect d') \<le> effect_rank (pd_effect d)"
    using ask by (auto simp: d(4) d'(2) aggregate_effect_def exd exd' deny)
  ultimately show ?thesis by blast
qed

theorem grants_only_lift_asks_witness:
  "(\<exists>d d'. decide_operation_with_overlay Some sample_policy None sample_operation
       [Some ''https://x''] sample_scope = Some d
     \<and> decide_operation_with_grants Some sample_policy None (Some [new_rule WEBFETCH ''https://*'' Allow])
         sample_operation [Some ''https://x''] sample_scope = Some d'
     \<and> (pd_effect d' = Deny \<longleftrightarrow> pd_effect d = Deny))"
proof -
  obtain d where d: "decide_operation_with_overlay Some sample_policy None sample_operation
      [Some ''https://x''] sample_scope = Some d"
    by (auto simp: decide_operation_with_overlay_def sample_operation_def Let_def)
  then obtain d' where d': "decide_operation_with_grants Some sample_policy None
      (Some [new_rule WEBFETCH ''https://*'' Allow]) sample_operation [Some ''https://x''] sample_scope = Some d'"
    by (auto simp: decide_operation_with_grants_def Let_def)
  from grants_only_lift_asks [OF d d'] d d' show ?thesis by blast
qed

lemma label_defaults_rules [simp]: "map mg_rule (label_defaults merged policy delegated) = map mg_rule merged"
  by (simp add: label_defaults_def Let_def)

text \<open>
  The rules that decide a check by name in the base layer: the last bare one.
\<close>

lemma base_name_only:
  "fst (decide_name_only merged a BASE) =
     (case find (\<lambda>m. rule_runtime (mg_rule m) = None \<and> rule_resource (mg_rule m) = ''*'')
         (rev (filter (\<lambda>m. rule_action (mg_rule m) = a) merged)) of
        None \<Rightarrow> Ask | Some m \<Rightarrow> rule_effect (mg_rule m))"
proof -
  let ?P = "\<lambda>r. name_only_rule r a BASE"
  have P: "?P r \<longleftrightarrow> rule_action r = a \<and> rule_runtime r = None \<and> rule_resource r = ''*''" for r
    by (auto simp: name_only_rule_def applies_to_def BASE_def split: option.splits)
  have filt: "filter (\<lambda>m. rule_runtime (mg_rule m) = None \<and> rule_resource (mg_rule m) = ''*'')
      (filter (\<lambda>m. rule_action (mg_rule m) = a) merged) = filter (\<lambda>m. ?P (mg_rule m)) merged"
    by (simp add: P conj_commute conj_left_commute)
  show ?thesis
  proof (cases rule: pick_name_only [where P = ?P and rules = "map mg_rule merged"])
    case 1
    then have "filter (\<lambda>m. ?P (mg_rule m)) merged = []"
      by (simp add: filter_empty_conv)
    with 1 show ?thesis
      unfolding find_filter_last filt by (simp add: decide_name_only_pick unmatched_def)
  next
    case (2 i)
    have i: "i < length merged" "?P (mg_rule (merged ! i))"
      using 2(2) by (auto simp: winner_def)
    have "\<not> ?P (mg_rule (merged ! j))" if "i < j" "j < length merged" for j
      using 2(2) that by (force simp: winner_def P less_prod_def)
    then have "filter (\<lambda>m. ?P (mg_rule m)) (drop (Suc i) merged) = []"
      by (auto simp: filter_empty_conv in_set_conv_nth)
    then have "filter (\<lambda>m. ?P (mg_rule m)) merged
        = filter (\<lambda>m. ?P (mg_rule m)) (take i merged) @ [merged ! i]"
      using i by (subst id_take_nth_drop [OF i(1)]) simp
    with 2 i show ?thesis
      unfolding find_filter_last filt by (simp add: decide_name_only_pick)
  qed
qed

lemma fold_new_set:
  "set (foldl (\<lambda>acts a. if a \<in> set acts then acts else acts @ [a]) acc xs) = set acc \<union> set xs
   \<and> (distinct acc \<longrightarrow> distinct (foldl (\<lambda>acts a. if a \<in> set acts then acts else acts @ [a]) acc xs))"
  by (induction xs arbitrary: acc) auto

text \<open>
  C29. What \<open>/permissions\<close> shows is what is decided: for every action of the view, the effect
  shown is the effect of a check of that action by name in the base layer, whichever rules
  were labelled as defaults; and every action with a rule is shown, once.
\<close>

theorem view_shows_decisions:
  "map ea_effect (effective_permission_view policy delegated overlay declared_actions) =
     map (\<lambda>e. fst (decide_name_only (merged_of policy (Some overlay) None) (ea_action e) BASE))
       (effective_permission_view policy delegated overlay declared_actions)
   \<and> distinct (map ea_action (effective_permission_view policy delegated overlay declared_actions))
   \<and> ea_action ` set (effective_permission_view policy delegated overlay declared_actions) =
       set BUILT_IN \<union> set declared_actions
       \<union> (\<lambda>m. rule_action (mg_rule m)) ` set (merged_of policy (Some overlay) None)"
proof -
  define merged where "merged = merged_of policy (Some overlay) None"
  define labelled where "labelled = label_defaults merged policy delegated"
  have same: "decide_name_only merged a BASE = decide_name_only labelled a BASE" for a
    by (simp add: labelled_def decide_name_only_pick)
  have view: "effective_permission_view policy delegated overlay declared_actions =
      map (view_action labelled) (view_actions declared_actions labelled)"
    by (simp add: effective_permission_view_def labelled_def merged_def Let_def)
  have eff: "ea_effect (view_action labelled a) = fst (decide_name_only labelled a BASE)" for a
    unfolding base_name_only by (simp add: view_action_def Let_def split: option.split)
  have act: "ea_action (view_action labelled a) = a" for a
    by (simp add: view_action_def Let_def)
  have names: "map (\<lambda>m. rule_action (mg_rule m)) labelled = map (\<lambda>m. rule_action (mg_rule m)) merged"
  proof -
    have "map rule_action (map mg_rule labelled) = map rule_action (map mg_rule merged)"
      by (simp only: labelled_def label_defaults_rules)
    then show ?thesis by (simp add: comp_def)
  qed
  have "distinct BUILT_IN"
    by (simp add: BUILT_IN_def action_defs)
  with fold_new_set [of BUILT_IN "declared_actions @ map (\<lambda>m. rule_action (mg_rule m)) labelled"]
  have acts: "distinct (view_actions declared_actions labelled)"
    "set (view_actions declared_actions labelled) = set BUILT_IN \<union> set declared_actions
       \<union> (\<lambda>m. rule_action (mg_rule m)) ` set merged"
    by (simp_all only: view_actions_def names set_append set_map) auto
  show ?thesis
    unfolding view merged_def [symmetric] same
    using acts by (simp add: eff act comp_def image_image)
qed

end
