(* ===== verification/Loop_Guard.thy ===== *)
theory Loop_Guard
  imports Hash_Map
begin

text \<open>
  The loop guard (\<open>crates/engine/src/runtime/loop_guard.rs\<close>): the walk back over a run's
  events to the window of its latest calls, the search for a block of calls that the window's
  end repeats, and the warning. The hash of an output is the parameter \<open>dig\<close>; the digest cache
  is state, threaded through every comparison in the order the code makes them.
\<close>

type_synonym call_id = nat
type_synonym digest = string
type_synonym digests = "(call_id, digest) hash_map"

datatype termination_outcome = Completed | Failed | Cancelled | Interrupted

record call_termination =
  tm_call :: call_id
  tm_outcome :: termination_outcome
  tm_result :: "string option"
  tm_error :: "string option"

datatype payload =
    UserInputSubmitted | UserInputApplied | RunStarted
  | ToolCallStarted call_id string
  | ToolCallTerminated call_termination
  | OtherPayload

record guard_event =
  ge_run :: "nat option"
  ge_payload :: payload

definition MAX_BLOCK_CALLS :: nat where "MAX_BLOCK_CALLS = 8"
definition MIN_REPETITIONS :: nat where "MIN_REPETITIONS = 3"
definition WINDOW_CALLS :: nat where "WINDOW_CALLS = 64"

datatype observed = Output digest | Error string | Missing

datatype source = Current string | Terminated "call_termination option"

record call =
  c_id :: call_id
  c_fingerprint :: string
  c_source :: source

subsection \<open>The warning\<close>

definition LOOP_WARNING_MARKER :: string where
  "LOOP_WARNING_MARKER = [CHR 0x0A, CHR 0x0A] @ ''<system-reminder>'' @ [CHR 0x0A]
     @ ''Repeated tool calls detected''"

definition without_loop_warning :: "string \<Rightarrow> string" where
  "without_loop_warning out =
     (case rfind LOOP_WARNING_MARKER out of None \<Rightarrow> out | Some i \<Rightarrow> take i out)"

definition own_output_digest :: "(string \<Rightarrow> digest) \<Rightarrow> string \<Rightarrow> digest" where
  "own_output_digest dig out = dig (without_loop_warning out)"

definition warning_body :: "nat \<Rightarrow> nat \<Rightarrow> string" where
  "warning_body block repetitions =
     '': you have made ''
     @ (if block = 1 then ''the same tool call''
        else ''the same sequence of '' @ show_nat block @ '' tool calls'')
     @ '' '' @ show_nat repetitions
     @ '' times in a row, and every repetition returned identical results. Repeating it again will not produce new information. Work from the results you already have: take a different approach, or finish and report what you found, including anything you could not resolve.''"

definition warning_text :: "nat \<Rightarrow> nat \<Rightarrow> string" where
  "warning_text block repetitions =
     LOOP_WARNING_MARKER @ warning_body block repetitions @ [CHR 0x0A] @ ''</system-reminder>''"

subsection \<open>Comparing calls\<close>

text \<open>The output a call's digest is taken of, or what the model saw without one.\<close>

definition outcome_of :: "source \<Rightarrow> observed + string" where
  "outcome_of src =
     (case src of
        Current out \<Rightarrow> Inr out
      | Terminated None \<Rightarrow> Inl Missing
      | Terminated (Some t) \<Rightarrow>
          (case (tm_outcome t, tm_result t, tm_error t) of
             (Completed, Some out, _) \<Rightarrow> Inr out
           | (_, _, Some e) \<Rightarrow> Inl (Error e)
           | _ \<Rightarrow> Inl Missing))"

definition observe_call :: "(string \<Rightarrow> digest) \<Rightarrow> call \<Rightarrow> digests \<Rightarrow> observed \<times> digests" where
  "observe_call dig c ds =
     (case outcome_of (c_source c) of
        Inl obs \<Rightarrow> (obs, ds)
      | Inr out \<Rightarrow>
          (case hm_get ds (c_id c) of
             Some d \<Rightarrow> (Output d, ds)
           | None \<Rightarrow> let d = own_output_digest dig out in (Output d, hm_insert (c_id c) d ds)))"

fun matching ::
  "(string \<Rightarrow> digest) \<Rightarrow> call list \<Rightarrow> nat \<Rightarrow> nat list \<Rightarrow> digests \<Rightarrow> nat \<times> digests" where
  "matching dig calls block [] ds = (0, ds)"
| "matching dig calls block (off # offs) ds =
     (let final = length calls - 1; c = calls ! (final - off); earlier = calls ! (final - off - block)
      in if c_fingerprint c = c_fingerprint earlier then
           let (obs, ds1) = observe_call dig c ds
           in if obs \<noteq> Missing then
                let (obs', ds2) = observe_call dig earlier ds1
                in if obs = obs' then
                     let (n, ds3) = matching dig calls block offs ds2 in (Suc n, ds3)
                   else (0, ds2)
              else (0, ds1)
         else (0, ds))"

fun find_block ::
  "(string \<Rightarrow> digest) \<Rightarrow> call list \<Rightarrow> nat list \<Rightarrow> digests \<Rightarrow> (nat \<times> nat) option \<times> digests" where
  "find_block dig calls [] ds = (None, ds)"
| "find_block dig calls (block # blocks) ds =
     (if length calls < block * MIN_REPETITIONS then (None, ds)
      else
        let (n, ds') = matching dig calls block [0..<Suc (length calls - 1 - block)] ds;
            repetitions = n div block + 1
        in if MIN_REPETITIONS \<le> repetitions then (Some (block, repetitions), ds')
           else find_block dig calls blocks ds')"

definition repeated_block ::
  "(string \<Rightarrow> digest) \<Rightarrow> call list \<Rightarrow> digests \<Rightarrow> (nat \<times> nat) option \<times> digests" where
  "repeated_block dig calls ds =
     (if calls = [] then (None, ds) else find_block dig calls [1..<Suc MAX_BLOCK_CALLS] ds)"

subsection \<open>The window\<close>

record walked =
  wk_found :: bool
  wk_window :: "(call_id \<times> string) list"
  wk_terminated :: "(call_id, call_termination) hash_map"

text \<open>The walk over the run's events, newest first; it stops where the loop breaks.\<close>

fun walk :: "call_id \<Rightarrow> guard_event list \<Rightarrow> walked \<Rightarrow> walked" where
  "walk current [] w = w"
| "walk current (e # es) w =
     (case ge_payload e of
        UserInputSubmitted \<Rightarrow> w
      | UserInputApplied \<Rightarrow> w
      | RunStarted \<Rightarrow> w
      | ToolCallStarted c fp \<Rightarrow>
          let w1 = w\<lparr>wk_found := wk_found w \<or> c = current\<rparr>
          in if wk_found w1 then
               let w2 = w1\<lparr>wk_window := wk_window w1 @ [(c, fp)]\<rparr>
               in if length (wk_window w2) = WINDOW_CALLS then w2 else walk current es w2
             else walk current es w1
      | ToolCallTerminated t \<Rightarrow>
          walk current es
            (if hm_get (wk_terminated w) (tm_call t) = None
             then w\<lparr>wk_terminated := hm_insert (tm_call t) t (wk_terminated w)\<rparr> else w)
      | OtherPayload \<Rightarrow> walk current es w)"

definition window_calls :: "call_id \<Rightarrow> string \<Rightarrow> walked \<Rightarrow> call list" where
  "window_calls current out w =
     map (\<lambda>(c, fp). \<lparr>c_id = c, c_fingerprint = fp,
            c_source = (if c = current then Current out
                        else Terminated (hm_get (wk_terminated w) c))\<rparr>)
       (rev (wk_window w))"

definition loop_warning ::
  "(string \<Rightarrow> digest) \<Rightarrow> guard_event list \<Rightarrow> nat \<Rightarrow> call_id \<Rightarrow> string \<Rightarrow> digests \<Rightarrow>
     string option \<times> digests" where
  "loop_warning dig events run current out ds =
     (let w = walk current (filter (\<lambda>e. ge_run e = Some run) (rev events))
            \<lparr>wk_found = False, wk_window = [], wk_terminated = hm_empty\<rparr>
      in if \<not> wk_found w then (None, ds)
         else
           let calls = window_calls current out w;
               (found, ds') = repeated_block dig calls ds;
               kept = hm_retain (\<lambda>k _. list_ex (\<lambda>c. c_id c = k) calls) ds'
           in (map_option (\<lambda>(block, repetitions). warning_text block repetitions) found, kept))"

subsection \<open>The reference\<close>

text \<open>What a call shows, without the cache; and that two calls show the same.\<close>

definition shown :: "(string \<Rightarrow> digest) \<Rightarrow> call \<Rightarrow> observed" where
  "shown dig c = (case outcome_of (c_source c) of Inl obs \<Rightarrow> obs | Inr out \<Rightarrow> Output (own_output_digest dig out))"

definition same_call :: "(string \<Rightarrow> digest) \<Rightarrow> call \<Rightarrow> call \<Rightarrow> bool" where
  "same_call dig c e \<longleftrightarrow>
     c_fingerprint c = c_fingerprint e \<and> shown dig c \<noteq> Missing \<and> shown dig c = shown dig e"

text \<open>The end of \<open>calls\<close> is \<open>n\<close> consecutive copies of one block of \<open>b\<close> calls.\<close>

definition tail_repeats :: "(string \<Rightarrow> digest) \<Rightarrow> call list \<Rightarrow> nat \<Rightarrow> nat \<Rightarrow> bool" where
  "tail_repeats dig calls b n \<longleftrightarrow>
     n * b \<le> length calls
     \<and> (\<forall>i < (n - 1) * b.
          same_call dig (calls ! (length calls - 1 - i)) (calls ! (length calls - 1 - i - b)))"

text \<open>The cache holds digests of the outputs of the calls it names.\<close>

definition cache_true :: "(string \<Rightarrow> digest) \<Rightarrow> call list \<Rightarrow> digests \<Rightarrow> bool" where
  "cache_true dig calls ds \<longleftrightarrow>
     (\<forall>c d out. c \<in> set calls \<longrightarrow> hm_get ds (c_id c) = Some d \<longrightarrow> outcome_of (c_source c) = Inr out \<longrightarrow>
          d = own_output_digest dig out)"

definition cache_ok :: "(string \<Rightarrow> digest) \<Rightarrow> call list \<Rightarrow> digests \<Rightarrow> bool" where
  "cache_ok dig calls ds \<longleftrightarrow> distinct (map c_id calls) \<and> cache_true dig calls ds"

lemma observe_call_shown:
  assumes "cache_ok dig calls ds" and "c \<in> set calls"
  shows "fst (observe_call dig c ds) = shown dig c" and "cache_ok dig calls (snd (observe_call dig c ds))"
proof -
  have inj: "c' = c" if "c' \<in> set calls" "c_id c' = c_id c" for c'
    using assms that by (auto simp: cache_ok_def cache_true_def distinct_map inj_on_def)
  show "fst (observe_call dig c ds) = shown dig c"
    using assms by (auto simp: observe_call_def shown_def cache_ok_def cache_true_def Let_def split: sum.splits option.splits)
  show "cache_ok dig calls (snd (observe_call dig c ds))"
    using assms by (auto simp: observe_call_def cache_ok_def cache_true_def Let_def hm_get_insert
        split: sum.splits option.splits dest!: inj)
qed

lemma matching_shown:
  assumes "cache_ok dig calls ds" and "calls \<noteq> []"
  shows "fst (matching dig calls b offs ds) =
      length (takeWhile (\<lambda>i. same_call dig (calls ! (length calls - 1 - i))
        (calls ! (length calls - 1 - i - b))) offs)
    \<and> cache_ok dig calls (snd (matching dig calls b offs ds))"
  using assms
proof (induction offs arbitrary: ds)
  case (Cons i offs)
  let ?c = "calls ! (length calls - 1 - i)" and ?e = "calls ! (length calls - 1 - i - b)"
  have mem: "?c \<in> set calls" "?e \<in> set calls"
    using Cons.prems(2) by (cases calls; force intro!: nth_mem)+
  obtain obs ds1 where o1: "observe_call dig ?c ds = (obs, ds1)" by fastforce
  obtain obs' ds2 where o2: "observe_call dig ?e ds1 = (obs', ds2)" by fastforce
  note s1 = observe_call_shown [OF Cons.prems(1) mem(1), unfolded o1, simplified]
  note s2 = observe_call_shown [OF s1(2) mem(2), unfolded o2, simplified]
  obtain n ds3 where m: "matching dig calls b offs ds2 = (n, ds3)" by fastforce
  show ?case
    using Cons.IH [OF s2(2) Cons.prems(2)] Cons.prems(1) s1 s2 o1 o2 m
    by (auto simp: same_call_def Let_def)
qed simp

lemma matching_reference:
  "cache_ok dig calls ds \<Longrightarrow> calls \<noteq> [] \<Longrightarrow> matching dig calls b offs ds = (n, ds') \<Longrightarrow>
     n = length (takeWhile (\<lambda>i. same_call dig (calls ! (length calls - 1 - i))
        (calls ! (length calls - 1 - i - b))) offs) \<and> cache_ok dig calls ds'"
  using matching_shown [of dig calls ds b offs] by simp

lemma takeWhile_upt:
  "m \<le> n \<Longrightarrow> m \<le> length (takeWhile P [0..<n]) \<longleftrightarrow> (\<forall>i < m. P i)"
proof
  assume "m \<le> length (takeWhile P [0..<n])" and "m \<le> n"
  then show "\<forall>i < m. P i"
    by (metis add_0 diff_zero length_upt less_le_trans nth_upt set_takeWhileD takeWhile_nth nth_mem)
next
  assume "\<forall>i < m. P i" and "m \<le> n"
  then have "takeWhile P ([0..<m] @ [m..<n]) = [0..<m] @ takeWhile P [m..<n]"
    by (intro takeWhile_append2) auto
  then show "m \<le> length (takeWhile P [0..<n])"
    using \<open>m \<le> n\<close> upt_add_eq_append [of 0 m "n - m"] by simp
qed

lemma copies_iff:
  assumes "calls \<noteq> []" and "0 < b" and "b < length calls" and "0 < r"
  shows "r \<le> length (takeWhile (\<lambda>i. same_call dig (calls ! (length calls - 1 - i))
        (calls ! (length calls - 1 - i - b))) [0..<Suc (length calls - 1 - b)]) div b + 1
    \<longleftrightarrow> tail_repeats dig calls b r"
    (is "r \<le> ?n div b + 1 \<longleftrightarrow> _")
proof -
  have le: "?n \<le> length calls - b"
    using length_takeWhile_le [of _ "[0..<Suc (length calls - 1 - b)]"] assms
    by (metis (no_types, lifting) Suc_diff_Suc diff_diff_left diff_zero length_upt plus_1_eq_Suc)
  have "r \<le> ?n div b + 1 \<longleftrightarrow> (r - 1) * b \<le> ?n"
    using assms(2,4) by (cases r) (auto simp: less_eq_div_iff_mult_less_eq)
  also have "\<dots> \<longleftrightarrow> tail_repeats dig calls b r"
  proof (cases "r * b \<le> length calls")
    case True
    then have "(r - 1) * b \<le> Suc (length calls - 1 - b)"
      using assms by (cases r) auto
    from takeWhile_upt [OF this] True show ?thesis
      by (simp add: tail_repeats_def)
  next
    case False
    then have "\<not> (r - 1) * b \<le> ?n"
      using le assms by (cases r) auto
    with False show ?thesis by (simp add: tail_repeats_def)
  qed
  finally show ?thesis .
qed


lemma tail_repeats_mono: "tail_repeats dig calls b r \<Longrightarrow> r' \<le> r \<Longrightarrow> tail_repeats dig calls b r'"
proof -
  assume r: "tail_repeats dig calls b r" "r' \<le> r"
  have "r' * b \<le> r * b" "(r' - 1) * b \<le> (r - 1) * b"
    using r(2) by (auto intro: mult_le_mono1)
  with r(1) show ?thesis
    unfolding tail_repeats_def using le_trans less_le_trans by blast
qed

lemma find_block_reference:
  assumes "cache_ok dig calls ds" and "calls \<noteq> []" and "list_all (\<lambda>b. 0 < b) blocks"
    and "sorted blocks" and "find_block dig calls blocks ds = (res, ds')"
  shows "cache_ok dig calls ds'
    \<and> (case res of
         None \<Rightarrow> \<forall>b \<in> set blocks. \<not> tail_repeats dig calls b MIN_REPETITIONS
       | Some (b, r) \<Rightarrow> b \<in> set blocks \<and> MIN_REPETITIONS \<le> r \<and> tail_repeats dig calls b r
           \<and> \<not> tail_repeats dig calls b (Suc r)
           \<and> (\<forall>b' \<in> set blocks. b' < b \<longrightarrow> \<not> tail_repeats dig calls b' MIN_REPETITIONS))"
  using assms
proof (induction blocks arbitrary: ds)
  case (Cons b blocks)
  show ?case
  proof (cases "length calls < b * MIN_REPETITIONS")
    case True
    have "\<not> tail_repeats dig calls b' MIN_REPETITIONS" if "b' \<in> set (b # blocks)" for b'
    proof -
      have "b * MIN_REPETITIONS \<le> b' * MIN_REPETITIONS"
        using Cons.prems(4) that by (auto intro: mult_le_mono1)
      with True have "length calls < b' * MIN_REPETITIONS"
        by (rule less_le_trans)
      then show ?thesis by (simp add: tail_repeats_def mult.commute [of MIN_REPETITIONS])
    qed
    with True Cons.prems show ?thesis by auto
  next
    case False
    have b: "0 < b" "b < length calls"
      using False Cons.prems(2,3) by (auto simp: MIN_REPETITIONS_def)
    obtain n ds1 where m: "matching dig calls b [0..<Suc (length calls - 1 - b)] ds = (n, ds1)"
      by fastforce
    note ref = matching_reference [OF Cons.prems(1,2) m]
    have copies: "r \<le> n div b + 1 \<longleftrightarrow> tail_repeats dig calls b r" if "0 < r" for r
      using copies_iff [OF Cons.prems(2) b that, of dig] ref by simp
    show ?thesis
    proof (cases "MIN_REPETITIONS \<le> n div b + 1")
      case True
      then have res: "res = Some (b, n div b + 1)" "ds' = ds1"
        using Cons.prems(5) False m by (simp_all add: Let_def del: upt_Suc)
      have "\<not> tail_repeats dig calls b (Suc (n div b + 1))"
        using copies [of "Suc (n div b + 1)"] by simp
      moreover have "tail_repeats dig calls b (n div b + 1)"
        using copies [of "n div b + 1"] by simp
      moreover have "\<not> b' < b" if "b' \<in> set (b # blocks)" for b'
        using Cons.prems(4) that by auto
      ultimately show ?thesis
        using True ref by (auto simp: res)
    next
      case nomatch: False
      then have rest: "find_block dig calls blocks ds1 = (res, ds')"
        using Cons.prems(5) False m by (simp add: Let_def del: upt_Suc)
      have "\<not> tail_repeats dig calls b MIN_REPETITIONS"
        using copies [of MIN_REPETITIONS] nomatch by (simp add: MIN_REPETITIONS_def)
      with Cons.IH [OF conjunct2 [OF ref] Cons.prems(2) _ _ rest] Cons.prems(3,4) show ?thesis
        by (auto split: option.splits)
    qed
  qed
qed simp


lemma repeated_block_reference:
  assumes "cache_ok dig calls ds" and "repeated_block dig calls ds = (res, ds')"
  shows "case res of
         None \<Rightarrow> \<forall>b. 0 < b \<and> b \<le> MAX_BLOCK_CALLS \<longrightarrow> \<not> tail_repeats dig calls b MIN_REPETITIONS
       | Some (b, r) \<Rightarrow> 0 < b \<and> b \<le> MAX_BLOCK_CALLS \<and> MIN_REPETITIONS \<le> r
           \<and> tail_repeats dig calls b r \<and> \<not> tail_repeats dig calls b (Suc r)
           \<and> (\<forall>b'. 0 < b' \<and> b' < b \<longrightarrow> \<not> tail_repeats dig calls b' MIN_REPETITIONS)"
proof (cases "calls = []")
  case True
  with assms show ?thesis
    by (auto simp: repeated_block_def tail_repeats_def MIN_REPETITIONS_def)
next
  case False
  then have "find_block dig calls [1..<Suc MAX_BLOCK_CALLS] ds = (res, ds')"
    using assms(2) by (simp add: repeated_block_def)
  note found = this
  have "list_all (\<lambda>b. 0 < b) [1..<Suc MAX_BLOCK_CALLS]" "sorted [1..<Suc MAX_BLOCK_CALLS]"
    by (auto simp: list_all_iff simp del: upt_Suc)
  note ref = find_block_reference [OF assms(1) False this found]
  have blocks: "b \<in> set [1..<Suc MAX_BLOCK_CALLS] \<longleftrightarrow> 0 < b \<and> b \<le> MAX_BLOCK_CALLS" for b
    by auto
  show ?thesis
    using ref unfolding blocks Ball_def by (auto split: option.splits)
qed

text \<open>The window: distinct calls, the current one last.\<close>

definition started :: "guard_event list \<Rightarrow> call_id list" where
  "started es = List.map_filter
     (\<lambda>e. case ge_payload e of ToolCallStarted c fp \<Rightarrow> Some c | _ \<Rightarrow> None) es"

lemma walk_window:
  "distinct (map fst (wk_window w) @ started es) \<Longrightarrow>
     distinct (map fst (wk_window (walk current es w)))
     \<and> set (map fst (wk_window (walk current es w))) \<subseteq> set (map fst (wk_window w)) \<union> set (started es)"
proof (induction es arbitrary: w)
  case (Cons e es)
  show ?case
  proof (cases "ge_payload e")
    case (ToolCallStarted c fp)
    then show ?thesis
      using Cons.prems Cons.IH [of "w\<lparr>wk_found := True, wk_window := wk_window w @ [(c, fp)]\<rparr>"]
        Cons.IH [of "w\<lparr>wk_found := False\<rparr>"]
      by (auto simp: started_def map_filter_simps Let_def)
  next
    case (ToolCallTerminated t)
    then show ?thesis
      using Cons.prems Cons.IH [of w]
        Cons.IH [of "w\<lparr>wk_terminated := hm_insert (tm_call t) t (wk_terminated w)\<rparr>"]
      by (auto simp: started_def map_filter_simps)
  qed (use Cons in \<open>auto simp: started_def map_filter_simps\<close>)
qed (auto simp: started_def)

lemma marker_split: "LOOP_WARNING_MARKER = CHR 0x0A # CHR 0x0A # CHR ''<'' # drop 3 LOOP_WARNING_MARKER"
  by (simp add: LOOP_WARNING_MARKER_def)

fun blank_line :: "string \<Rightarrow> bool" where
  "blank_line (a # b # s) \<longleftrightarrow> (a = CHR 0x0A \<and> b = CHR 0x0A) \<or> blank_line (b # s)"
| "blank_line _ \<longleftrightarrow> False"

lemma blank_line_no_newline: "CHR 0x0A \<notin> set s \<Longrightarrow> blank_line (s @ t) \<longleftrightarrow> blank_line t"
proof (induction s)
  case (Cons a s)
  then show ?case by (cases "s @ t") auto
qed simp

lemma no_marker: "\<not> blank_line s \<Longrightarrow> rfind LOOP_WARNING_MARKER s = None"
proof (induction s)
  case (Cons a s)
  have "\<not> blank_line s"
    using Cons.prems by (cases s) auto
  moreover have "\<not> prefix LOOP_WARNING_MARKER (a # s)"
    using Cons.prems by (cases s) (auto simp: LOOP_WARNING_MARKER_def)
  ultimately show ?case using Cons.IH by simp
qed (simp add: LOOP_WARNING_MARKER_def)

lemma digit_not_newline: "CHR 0x0A \<notin> set (show_nat n)"
  using show_nat_digits [of "CHR 0x0A" n] by (auto simp: is_ascii_digit_def)

lemma warning_body_line: "CHR 0x0A \<notin> set (warning_body b r)"
  by (simp add: warning_body_def digit_not_newline)

lemma blank_line_warning_body:
  "blank_line (CHR ''d'' # warning_body b r @ t) \<longleftrightarrow> blank_line t"
  using blank_line_no_newline [of "CHR ''d'' # warning_body b r" t] warning_body_line [of b r]
  by (simp del: blank_line.simps)

lemma rfind_here: "rfind p s = None \<Longrightarrow> prefix p (c # s) \<Longrightarrow> rfind p (c # s) = Some 0"
  by simp

lemma warning_split:
  "warning_text b r = CHR 0x0A # tl LOOP_WARNING_MARKER @ warning_body b r @ [CHR 0x0A] @ ''</system-reminder>''"
  by (simp add: warning_text_def LOOP_WARNING_MARKER_def)

lemma rfind_warning: "rfind LOOP_WARNING_MARKER (warning_text b r) = Some 0"
  unfolding warning_split
proof (rule rfind_here)
  show "rfind LOOP_WARNING_MARKER
      (tl LOOP_WARNING_MARKER @ warning_body b r @ [CHR 0x0A] @ ''</system-reminder>'') = None"
    by (rule no_marker) (simp add: LOOP_WARNING_MARKER_def blank_line_warning_body)
  show "prefix LOOP_WARNING_MARKER (CHR 0x0A # tl LOOP_WARNING_MARKER @ warning_body b r
      @ [CHR 0x0A] @ ''</system-reminder>'')"
    by (simp add: LOOP_WARNING_MARKER_def)
qed

lemma cache_ok_window:
  assumes "distinct (started es)" and "cache_true dig (window_calls current out w) ds"
    and "w = walk current es \<lparr>wk_found = False, wk_window = [], wk_terminated = hm_empty\<rparr>"
  shows "cache_ok dig (window_calls current out w) ds"
  using assms walk_window [of "\<lparr>wk_found = False, wk_window = [], wk_terminated = hm_empty\<rparr>" es current]
  by (simp add: cache_ok_def window_calls_def comp_def case_prod_beta' rev_map [symmetric])

subsection \<open>Properties\<close>

text \<open>
  C6. The guard finds exactly the loops. For calls of distinct IDs and a cache that
  holds true digests, the cached, short-cutting search finds the shortest block of at most eight
  calls that the end of the window repeats three times or more, with the exact number of its
  copies, and finds none exactly when there is none.
\<close>

theorem repeated_block_exact:
  assumes "cache_ok dig calls ds"
  shows "case fst (repeated_block dig calls ds) of
         None \<Rightarrow> \<forall>b. 0 < b \<and> b \<le> 8 \<longrightarrow> \<not> tail_repeats dig calls b 3
       | Some (b, r) \<Rightarrow> 0 < b \<and> b \<le> 8 \<and> 3 \<le> r
           \<and> tail_repeats dig calls b r \<and> \<not> tail_repeats dig calls b (Suc r)
           \<and> (\<forall>b'. 0 < b' \<and> b' < b \<longrightarrow> \<not> tail_repeats dig calls b' 3)"
  using repeated_block_reference [OF assms, of "fst (repeated_block dig calls ds)"
      "snd (repeated_block dig calls ds)"]
  unfolding MAX_BLOCK_CALLS_def MIN_REPETITIONS_def by simp

definition sample_call :: "call_id \<Rightarrow> string \<Rightarrow> string \<Rightarrow> call" where
  "sample_call c fp out = \<lparr>c_id = c, c_fingerprint = fp, c_source = Terminated (Some
     \<lparr>tm_call = c, tm_outcome = Completed, tm_result = Some out, tm_error = None\<rparr>)\<rparr>"

definition sample_calls :: "call list" where
  "sample_calls =
     [sample_call 0 ''z'' ''q'', sample_call 1 ''a'' ''x'', sample_call 2 ''b'' ''y'',
      sample_call 3 ''a'' ''x'', sample_call 4 ''b'' ''y'', sample_call 5 ''a'' ''x'',
      (sample_call 6 ''b'' ''u'')\<lparr>c_source := Current ''y''\<rparr>]"

theorem repeated_block_exact_witness:
  "fst (repeated_block (\<lambda>s. s) sample_calls [(2, ''y'')]) = Some (2, 3)
   \<and> tail_repeats (\<lambda>s. s) sample_calls 2 3"
proof -
  have ok: "cache_ok (\<lambda>s. s) sample_calls [(2, ''y'')]"
    by (auto simp: cache_ok_def cache_true_def sample_calls_def sample_call_def hm_get_def
        outcome_of_def own_output_digest_def without_loop_warning_def LOOP_WARNING_MARKER_def
        split: if_splits)
  have "fst (repeated_block (\<lambda>s. s) sample_calls [(2, ''y'')]) = Some (2, 3)"
    by code_simp
  with repeated_block_exact [OF ok] show ?thesis by simp
qed

text \<open>
  The warning never hides from the guard what it was appended to: for an output that holds
  no warning of its own, the digest of the output with a warning appended is the digest of the
  output, so that a call compares equal before and after it was warned about.
\<close>

theorem warned_output_digest:
  assumes "\<not> str_contains out LOOP_WARNING_MARKER"
  shows "own_output_digest dig (out @ warning_text b r) = own_output_digest dig out
    \<and> without_loop_warning (out @ warning_text b r) = out"
proof -
  have "rfind LOOP_WARNING_MARKER (out @ warning_text b r) = Some (length out)"
    using rfind_append [OF rfind_warning] by simp
  moreover have "rfind LOOP_WARNING_MARKER out = None"
    using assms rfind_None [of LOOP_WARNING_MARKER out] by (simp add: LOOP_WARNING_MARKER_def)
  ultimately show ?thesis
    by (simp add: own_output_digest_def without_loop_warning_def)
qed

theorem warned_output_digest_witness:
  "without_loop_warning (''listing'' @ warning_text 2 3) = ''listing''"
  using warned_output_digest [of "''listing''"] by (simp add: LOOP_WARNING_MARKER_def)

text \<open>
  A warning is given just for a loop that the current call ends: where every call of the run
  started once and the cached digests are true, \<open>loop_warning\<close> warns exactly when the current
  call started since the last user input and the window's calls, with the current one's output,
  end in a block of at most eight calls repeated three times.
\<close>

theorem loop_warning_iff:
  assumes "distinct (started (filter (\<lambda>e. ge_run e = Some run) (rev events)))"
    and "w = walk current (filter (\<lambda>e. ge_run e = Some run) (rev events))
      \<lparr>wk_found = False, wk_window = [], wk_terminated = hm_empty\<rparr>"
    and "cache_true dig (window_calls current out w) ds"
  shows "fst (loop_warning dig events run current out ds) \<noteq> None \<longleftrightarrow>
    wk_found w \<and> (\<exists>b. 0 < b \<and> b \<le> 8 \<and> tail_repeats dig (window_calls current out w) b 3)"
proof (cases "wk_found w")
  case True
  obtain found ds' where rb: "repeated_block dig (window_calls current out w) ds = (found, ds')"
    by fastforce
  have "fst (loop_warning dig events run current out ds) \<noteq> None \<longleftrightarrow> found \<noteq> None"
    using True rb by (simp add: loop_warning_def Let_def assms(2) [symmetric] split: option.splits)
  moreover have "found \<noteq> None \<longleftrightarrow>
      (\<exists>b. 0 < b \<and> b \<le> 8 \<and> tail_repeats dig (window_calls current out w) b 3)"
    using repeated_block_reference [OF cache_ok_window [OF assms(1,3,2)] rb]
    by (auto simp: MAX_BLOCK_CALLS_def MIN_REPETITIONS_def split: option.splits
        intro: tail_repeats_mono)
  ultimately show ?thesis
    using True by simp
qed (simp add: loop_warning_def Let_def assms(2) [symmetric])

definition sample_events :: "guard_event list" where
  "sample_events = map (\<lambda>p. \<lparr>ge_run = Some 1, ge_payload = p\<rparr>)
     [RunStarted,
      ToolCallStarted 1 ''a'', ToolCallTerminated (\<lparr>tm_call = 1, tm_outcome = Completed,
        tm_result = Some ''x'', tm_error = None\<rparr>),
      ToolCallStarted 2 ''a'', ToolCallTerminated (\<lparr>tm_call = 2, tm_outcome = Completed,
        tm_result = Some ''x'', tm_error = None\<rparr>),
      ToolCallStarted 3 ''a'']"

theorem loop_warning_iff_witness:
  "fst (loop_warning (\<lambda>s. s) sample_events 1 3 ''x'' hm_empty) \<noteq> None
   \<and> fst (loop_warning (\<lambda>s. s) sample_events 1 3 ''new'' hm_empty) = None"
proof -
  let ?w = "walk 3 (filter (\<lambda>e. ge_run e = Some 1) (rev sample_events))
      \<lparr>wk_found = False, wk_window = [], wk_terminated = hm_empty\<rparr>"
  have dist: "distinct (started (filter (\<lambda>e. ge_run e = Some 1) (rev sample_events)))"
    by code_simp
  have found: "wk_found ?w"
    by code_simp
  have window: "window_calls 3 out ?w = [sample_call 1 ''a'' ''x'', sample_call 2 ''a'' ''x'',
      \<lparr>c_id = 3, c_fingerprint = ''a'', c_source = Current out\<rparr>]" for out
    by (simp add: sample_events_def window_calls_def sample_call_def hm_get_def hm_empty_def
        WINDOW_CALLS_def)
  have own: "without_loop_warning ''new'' = ''new''" "without_loop_warning ''x'' = ''x''"
    by code_simp+
  have repeats: "tail_repeats (\<lambda>s. s) (window_calls 3 ''x'' ?w) 1 3"
    unfolding window tail_repeats_def
    by (simp add: eval_nat_numeral All_less_Suc same_call_def shown_def outcome_of_def
        sample_call_def own_output_digest_def)
  have "\<not> tail_repeats (\<lambda>s. s) (window_calls 3 ''new'' ?w) 1 3"
    unfolding window tail_repeats_def
    by (simp add: eval_nat_numeral All_less_Suc same_call_def shown_def outcome_of_def
        sample_call_def own_output_digest_def own)
  moreover have "b = 1" if "0 < b" "tail_repeats (\<lambda>s. s) (window_calls 3 ''new'' ?w) b 3" for b
    using that unfolding window tail_repeats_def by simp
  ultimately have "\<not> (\<exists>b. 0 < b \<and> b \<le> 8 \<and> tail_repeats (\<lambda>s. s) (window_calls 3 ''new'' ?w) b 3)"
    by blast
  moreover have "cache_true (\<lambda>s. s) (window_calls 3 out ?w) hm_empty" for out
    by (simp add: cache_true_def hm_get_empty)
  ultimately show ?thesis
    using loop_warning_iff [OF dist refl, of "\<lambda>s. s" 3 "''x''" hm_empty]
      loop_warning_iff [OF dist refl, of "\<lambda>s. s" 3 "''new''" hm_empty] found repeats
    by (metis numeral_One one_le_numeral zero_less_one)
qed

end
