(* ===== verification/Backoff.thy ===== *)
theory Backoff
  imports Prelude
begin

text \<open>
  Delays between retries (\<open>crates/identity/src/backoff.rs\<close>) and before redials of a dropped
  daemon (\<open>RedialDelays\<close> in \<open>crates/client_state/src/subscriptions.rs\<close>). A \<open>Duration\<close>
  is its nanoseconds, at most \<open>DURATION_MAX\<close>; the saturating and checked operations on \<open>u128\<close>,
  \<open>u64\<close> and \<open>u32\<close> are written out.
\<close>

type_synonym duration = nat

definition PER_SECOND :: nat where "PER_SECOND = 1000000000"
definition PER_MILLI :: nat where "PER_MILLI = 1000000"

definition DURATION_MAX :: duration where
  "DURATION_MAX = U64_MAX * PER_SECOND + (PER_SECOND - 1)"

definition as_millis :: "duration \<Rightarrow> nat" where
  "as_millis d = d div PER_MILLI"

definition u128_mul :: "nat \<Rightarrow> nat \<Rightarrow> nat" where
  "u128_mul a b = min (a * b) U128_MAX"

definition duration_add :: "duration \<Rightarrow> duration \<Rightarrow> duration" where
  "duration_add a b = min (a + b) DURATION_MAX"

datatype jitter = NoJitter | Add duration | Scale (scale_low: nat) (scale_high: nat)

record backoff =
  base :: duration
  cap :: duration
  jitter :: jitter

definition backoff_new :: "duration \<Rightarrow> duration \<Rightarrow> backoff" where
  "backoff_new b c = \<lparr>base = b, cap = c, jitter = NoJitter\<rparr>"

definition backoff_fixed :: "duration \<Rightarrow> backoff" where
  "backoff_fixed d = backoff_new d d"

definition with_jitter :: "jitter \<Rightarrow> backoff \<Rightarrow> backoff" where
  "with_jitter j b = b\<lparr>jitter := j\<rparr>"

definition from_nanos :: "nat \<Rightarrow> duration" where
  "from_nanos n = min (n div PER_SECOND) U64_MAX * PER_SECOND + n mod PER_SECOND"

definition from_millis :: "nat \<Rightarrow> duration" where
  "from_millis m = from_nanos (u128_mul m 1000000)"

definition delay :: "backoff \<Rightarrow> nat \<Rightarrow> duration" where
  "delay b attempt =
     (let multiplier = (if attempt < 128 then 2 ^ attempt else U128_MAX)
      in from_nanos (min (u128_mul (base b) multiplier) (cap b)))"

definition clamp :: "nat \<Rightarrow> nat \<Rightarrow> nat \<Rightarrow> nat" where
  "clamp lo hi x = (if x < lo then lo else if hi < x then hi else x)"

definition jittered :: "backoff \<Rightarrow> nat \<Rightarrow> nat \<Rightarrow> duration" where
  "jittered b attempt entropy =
     (let d = delay b attempt
      in case jitter b of
           NoJitter \<Rightarrow> d
         | Add most \<Rightarrow>
             let span = min (as_millis most + 1) U128_MAX
             in duration_add d (from_millis (entropy mod span))
         | Scale low high \<Rightarrow>
             let span = (high - low) + 1;
                 per_mille = low + entropy mod span;
                 millis = u128_mul (as_millis d) per_mille div 1000
             in from_millis (clamp 1 (max (as_millis (cap b)) 1) millis))"

record delays =
  dl_backoff :: backoff
  dl_attempt :: nat

definition delays_of :: "backoff \<Rightarrow> delays" where
  "delays_of b = \<lparr>dl_backoff = b, dl_attempt = 0\<rparr>"

definition next_delay :: "delays \<Rightarrow> duration \<times> delays" where
  "next_delay d =
     (delay (dl_backoff d) (dl_attempt d), d\<lparr>dl_attempt := min (dl_attempt d + 1) U32_MAX\<rparr>)"

definition delays_reset :: "delays \<Rightarrow> delays" where
  "delays_reset d = d\<lparr>dl_attempt := 0\<rparr>"

definition RECONNECT_BACKOFF :: backoff where
  "RECONNECT_BACKOFF = backoff_new (500 * PER_MILLI) (10 * PER_SECOND)"

definition RESTART_REDIAL :: duration where "RESTART_REDIAL = 500 * PER_MILLI"
definition RESTART_REDIALS :: nat where "RESTART_REDIALS = 60"

record redial_delays =
  rd_fast :: nat
  rd_backoff :: delays

definition redial_new :: "bool \<Rightarrow> redial_delays" where
  "redial_new for_restart =
     \<lparr>rd_fast = (if for_restart then RESTART_REDIALS else 0),
      rd_backoff = delays_of RECONNECT_BACKOFF\<rparr>"

definition redial_next :: "redial_delays \<Rightarrow> duration \<times> redial_delays" where
  "redial_next r =
     (if 0 < rd_fast r then (RESTART_REDIAL, r\<lparr>rd_fast := rd_fast r - 1\<rparr>)
      else let (d, b) = next_delay (rd_backoff r) in (d, r\<lparr>rd_backoff := b\<rparr>))"

subsection \<open>Sources of delays\<close>

text \<open>
  What a retry loop relies on: every delay of the source stays within a bound. The delays
  of \<open>n\<close> retries then add up to at most \<open>n\<close> times the bound.
\<close>

locale delay_source =
  fixes pull :: "'s \<Rightarrow> nat \<times> 's" and bound :: nat and ok :: "'s \<Rightarrow> bool"
  assumes pull_bound: "ok s \<Longrightarrow> fst (pull s) \<le> bound"
    and pull_ok: "ok s \<Longrightarrow> ok (snd (pull s))"
begin

primrec pulls :: "nat \<Rightarrow> 's \<Rightarrow> nat list" where
  "pulls 0 s = []"
| "pulls (Suc n) s = fst (pull s) # pulls n (snd (pull s))"

lemma length_pulls [simp]: "length (pulls n s) = n"
  by (induction n arbitrary: s) auto

lemma pulls_bound: "ok s \<Longrightarrow> d \<in> set (pulls n s) \<Longrightarrow> d \<le> bound"
  by (induction n arbitrary: s) (auto intro: pull_bound dest: pull_ok)

lemma total_wait: "ok s \<Longrightarrow> sum_list (pulls n s) \<le> n * bound"
  by (induction n arbitrary: s) (auto intro!: add_mono simp: pull_bound pull_ok)

end

definition valid_backoff :: "backoff \<Rightarrow> bool" where
  "valid_backoff b \<longleftrightarrow> base b \<le> DURATION_MAX \<and> cap b \<le> DURATION_MAX"

lemma duration_max_u128: "DURATION_MAX \<le> U128_MAX"
  by (simp add: DURATION_MAX_def U128_MAX_def U64_MAX_def PER_SECOND_def)

lemma from_nanos_id: "n \<le> DURATION_MAX \<Longrightarrow> from_nanos n = n"
proof -
  assume "n \<le> DURATION_MAX"
  then have "n div PER_SECOND \<le> DURATION_MAX div PER_SECOND"
    by (rule div_le_mono)
  also have "DURATION_MAX div PER_SECOND = U64_MAX"
    by (simp add: DURATION_MAX_def PER_SECOND_def)
  finally show ?thesis
    by (simp add: from_nanos_def min_def div_mult_mod_eq)
qed

lemma from_nanos_le: "from_nanos n \<le> n"
  by (simp add: from_nanos_def min_def) (metis add_le_mono1 div_mult_mod_eq mult_le_mono1 nat_le_linear)

lemma delay_ideal:
  assumes "valid_backoff b"
  shows "delay b n = min (base b * 2 ^ n) (cap b)"
proof -
  have cap: "cap b \<le> U128_MAX"
    using assms duration_max_u128 by (simp add: valid_backoff_def)
  have "min (u128_mul (base b) (if n < 128 then 2 ^ n else U128_MAX)) (cap b)
      = min (base b * 2 ^ n) (cap b)"
  proof (cases "n < 128 \<or> base b = 0")
    case True
    then show ?thesis
      using cap by (auto simp: u128_mul_def min_def)
  next
    case False
    then have "2 ^ 128 \<le> (2 :: nat) ^ n" "1 \<le> base b"
      using power_increasing [of 128 n "2 :: nat"] by auto
    then have "U128_MAX \<le> base b * 2 ^ n" "U128_MAX \<le> base b * U128_MAX"
      using mult_le_mono [of 1 "base b" U128_MAX "2 ^ n"] by (auto simp: U128_MAX_def)
    then have "u128_mul (base b) U128_MAX = U128_MAX" "cap b \<le> base b * 2 ^ n"
      using cap by (simp_all add: u128_mul_def)
    with False cap show ?thesis
      by simp
  qed
  with assms show ?thesis
    by (simp add: delay_def Let_def from_nanos_id valid_backoff_def min.coboundedI2)
qed

definition delays_ok :: "nat \<Rightarrow> delays \<Rightarrow> bool" where
  "delays_ok c d \<longleftrightarrow> valid_backoff (dl_backoff d) \<and> cap (dl_backoff d) \<le> c"

interpretation dl: delay_source next_delay c "delays_ok c" for c
  by unfold_locales (auto simp: next_delay_def delays_ok_def delay_ideal)

lemma valid_reconnect: "valid_backoff RECONNECT_BACKOFF"
  by (simp add: valid_backoff_def RECONNECT_BACKOFF_def backoff_new_def DURATION_MAX_def
      U64_MAX_def PER_SECOND_def PER_MILLI_def)

definition redial_ok :: "redial_delays \<Rightarrow> bool" where
  "redial_ok r \<longleftrightarrow> dl_backoff (rd_backoff r) = RECONNECT_BACKOFF"

lemma reconnect_cap: "delay RECONNECT_BACKOFF n \<le> 10 * PER_SECOND"
  by (simp add: delay_ideal valid_reconnect) (simp add: RECONNECT_BACKOFF_def backoff_new_def)

interpretation rd: delay_source redial_next "10 * PER_SECOND" redial_ok
proof unfold_locales
  show "redial_ok r \<Longrightarrow> fst (redial_next r) \<le> 10 * PER_SECOND" for r
    using reconnect_cap by (simp add: redial_next_def redial_ok_def next_delay_def RESTART_REDIAL_def
        PER_SECOND_def PER_MILLI_def)
  show "redial_ok r \<Longrightarrow> redial_ok (snd (redial_next r))" for r
    by (simp add: redial_next_def redial_ok_def next_delay_def)
qed

subsection \<open>Properties\<close>

text \<open>
  A backoff doubles from its base up to its cap, whatever the attempt: the checked shift
  and the saturating product on \<open>u128\<close> never show, not even at attempts where they saturate.
\<close>

theorem delay_doubles_to_cap:
  assumes "base b \<le> DURATION_MAX" and "cap b \<le> DURATION_MAX"
  shows "delay b n = min (base b * 2 ^ n) (cap b)"
  using assms by (simp add: delay_ideal valid_backoff_def)

theorem delay_doubles_to_cap_witness:
  "delay RECONNECT_BACKOFF 3 = 4 * PER_SECOND \<and> delay RECONNECT_BACKOFF 200 = 10 * PER_SECOND"
proof -
  have d: "delay RECONNECT_BACKOFF n = min (500000000 * 2 ^ n) 10000000000" for n
    using delay_doubles_to_cap [of RECONNECT_BACKOFF n] valid_reconnect
    by (simp add: valid_backoff_def RECONNECT_BACKOFF_def backoff_new_def PER_SECOND_def PER_MILLI_def)
  show ?thesis
    by (simp add: d PER_SECOND_def)
qed

text \<open>
  Jitter stays in its bounds: added jitter lengthens a delay by at most the whole
  milliseconds of its span, and a scaled delay is at least a millisecond and at most the cap (or a
  millisecond, for a shorter cap).
\<close>

theorem jittered_bounds:
  assumes "base b \<le> DURATION_MAX" and "cap b \<le> DURATION_MAX" and "entropy \<le> U64_MAX"
  shows "case jitter b of
      NoJitter \<Rightarrow> jittered b n entropy = delay b n
    | Add most \<Rightarrow> delay b n \<le> jittered b n entropy \<and> jittered b n entropy \<le> delay b n + most
    | Scale low high \<Rightarrow> PER_MILLI \<le> jittered b n entropy
        \<and> jittered b n entropy \<le> max (cap b) PER_MILLI"
proof (cases "jitter b")
  case (Add most)
  have d: "delay b n \<le> DURATION_MAX"
    using assms by (simp add: delay_ideal valid_backoff_def min.coboundedI2)
  have most: "from_millis x \<le> most" if "x \<le> as_millis most" for x
  proof -
    have "from_millis x \<le> x * 1000000"
      unfolding from_millis_def u128_mul_def by (rule order.trans [OF from_nanos_le]) simp
    also have "\<dots> \<le> most"
      using that by (simp add: as_millis_def PER_MILLI_def less_eq_div_iff_mult_less_eq)
    finally show ?thesis .
  qed
  have "entropy mod min (as_millis most + 1) U128_MAX \<le> as_millis most"
  proof -
    have "0 < min (as_millis most + 1) U128_MAX"
      by (simp add: U128_MAX_def)
    then have "entropy mod min (as_millis most + 1) U128_MAX < min (as_millis most + 1) U128_MAX"
      by (rule mod_less_divisor)
    then show ?thesis by simp
  qed
  from most [OF this] show ?thesis
    using Add d by (auto simp: jittered_def Let_def duration_add_def min_def)
next
  case (Scale low high)
  define m where "m = clamp 1 (max (as_millis (cap b)) 1)
      (u128_mul (as_millis (delay b n)) (low + entropy mod (high - low + 1)) div 1000)"
  have m: "1 \<le> m" "m \<le> max (as_millis (cap b)) 1"
    by (auto simp: m_def clamp_def)
  have cap: "as_millis (cap b) * 1000000 \<le> cap b"
    by (simp add: as_millis_def PER_MILLI_def)
  have "m * 1000000 \<le> max (cap b) PER_MILLI"
    using m(2) cap by (auto simp: max_def PER_MILLI_def split: if_splits)
  moreover have "max (cap b) PER_MILLI \<le> DURATION_MAX"
    using assms(2) by (simp add: DURATION_MAX_def U64_MAX_def PER_SECOND_def PER_MILLI_def)
  ultimately have "m * 1000000 \<le> DURATION_MAX"
    by (rule le_trans)
  then have "from_millis m = m * 1000000"
    using duration_max_u128 by (simp add: from_millis_def u128_mul_def from_nanos_id)
  moreover have "jittered b n entropy = from_millis m"
    by (simp add: Scale jittered_def Let_def m_def)
  ultimately show ?thesis
    using Scale m(1) \<open>m * 1000000 \<le> max (cap b) PER_MILLI\<close>
    by (simp add: PER_MILLI_def)
qed (simp add: jittered_def)

theorem jittered_bounds_witness:
  "(let b = with_jitter (Scale 500 1500) RECONNECT_BACKOFF
    in PER_MILLI \<le> jittered b 3 77 \<and> jittered b 3 77 \<le> 10 * PER_SECOND)"
  using jittered_bounds [of "with_jitter (Scale 500 1500) RECONNECT_BACKOFF" 77 3] valid_reconnect
  by (simp add: with_jitter_def valid_backoff_def U64_MAX_def RECONNECT_BACKOFF_def backoff_new_def
      PER_SECOND_def PER_MILLI_def)

lemma redial_next_steps:
  "redial_next \<lparr>rd_fast = Suc f, rd_backoff = d\<rparr> = (RESTART_REDIAL, \<lparr>rd_fast = f, rd_backoff = d\<rparr>)"
  "redial_next \<lparr>rd_fast = 0, rd_backoff = \<lparr>dl_backoff = b, dl_attempt = a\<rparr>\<rparr> =
     (delay b a, \<lparr>rd_fast = 0, rd_backoff = \<lparr>dl_backoff = b, dl_attempt = min (a + 1) U32_MAX\<rparr>\<rparr>)"
  by (simp_all add: redial_next_def next_delay_def)

lemma redial_fast:
  "rd.pulls n \<lparr>rd_fast = f, rd_backoff = d\<rparr> =
     replicate (min n f) RESTART_REDIAL @ rd.pulls (n - f) \<lparr>rd_fast = 0, rd_backoff = d\<rparr>"
proof (induction n arbitrary: f)
  case (Suc n)
  then show ?case by (cases f) (simp_all add: redial_next_steps)
qed simp

lemma redial_backoff:
  "a + n \<le> U32_MAX \<Longrightarrow> rd.pulls n \<lparr>rd_fast = 0, rd_backoff = \<lparr>dl_backoff = b, dl_attempt = a\<rparr>\<rparr> =
     map (delay b) [a..<a + n]"
  by (induction n arbitrary: a) (auto simp: redial_next_steps upt_conv_Cons simp del: upt_Suc)

lemma diff_min: "n - min n m = n - (m :: nat)"
  by simp

text \<open>
  A client redials a restarting daemon every half second sixty times, then backs off from
  the first delay; any other drop backs off at once; and \<open>n\<close> redials never wait longer than \<open>n\<close>
  times ten seconds.
\<close>

theorem redial_schedule:
  assumes "n \<le> U32_MAX"
  shows "rd.pulls n (redial_new for_restart) =
      (let fast = (if for_restart then min n 60 else 0)
       in replicate fast RESTART_REDIAL
          @ map (\<lambda>k. min (500 * PER_MILLI * 2 ^ k) (10 * PER_SECOND)) [0..<n - fast])
    \<and> sum_list (rd.pulls n (redial_new for_restart)) \<le> n * (10 * PER_SECOND)"
proof -
  have sched: "delay RECONNECT_BACKOFF = (\<lambda>k. min (500 * PER_MILLI * 2 ^ k) (10 * PER_SECOND))"
    by (simp add: fun_eq_iff delay_ideal valid_reconnect) (simp add: RECONNECT_BACKOFF_def backoff_new_def)
  have "redial_ok (redial_new for_restart)"
    by (simp add: redial_ok_def redial_new_def delays_of_def)
  moreover have "rd.pulls n (redial_new for_restart) =
      (let fast = (if for_restart then min n 60 else 0)
       in replicate fast RESTART_REDIAL @ map (delay RECONNECT_BACKOFF) [0..<n - fast])"
    using assms redial_backoff [of 0 n RECONNECT_BACKOFF] redial_backoff [of 0 "n - 60" RECONNECT_BACKOFF]
      diff_min [of n 60]
    by (auto simp: redial_new_def delays_of_def redial_fast [of n 60] RESTART_REDIALS_def Let_def)
  ultimately show ?thesis
    using rd.total_wait unfolding sched by blast
qed

theorem redial_schedule_witness:
  "rd.pulls 2 (redial_new False) = [500 * PER_MILLI, 1000 * PER_MILLI]
   \<and> rd.pulls 2 (redial_new True) = [RESTART_REDIAL, RESTART_REDIAL]"
proof -
  have two: "[0..<2 :: nat] = [0, 1]" "replicate 2 x = [x, x]" for x :: nat
    by (simp_all add: upt_rec numeral_2_eq_2)
  show ?thesis
    using redial_schedule [of 2 False] redial_schedule [of 2 True]
    by (simp add: U32_MAX_def Let_def two PER_MILLI_def PER_SECOND_def)
qed

end
