(* ===== verification/Subscriptions.thy ===== *)
theory Subscriptions
  imports Hash_Map "HOL-Library.Word"
begin

text \<open>
  The client's subscriptions (\<open>crates/client_state/src/subscriptions.rs\<close>): the trees viewed
  most recently, and the state machine of every session's subscription on one connection.
  Attempt numbers are \<open>u64\<close> and wrap as the source lets them. Each method is a definition that
  returns the new state with what the method returns; \<open>sub_step\<close> puts them together as the
  calls a client makes.
\<close>

type_synonym session = nat
type_synonym attempt = "64 word"

definition RECENT_SUBSCRIBED_TREES :: nat where
  "RECENT_SUBSCRIBED_TREES = 8"

subsection \<open>Recent trees\<close>

type_synonym recent_trees = "session list"

text \<open>The eviction loop pops from the back until the bound holds.\<close>

function evict :: "recent_trees \<Rightarrow> session list \<Rightarrow> recent_trees \<times> session list" where
  "evict trees evicted =
     (if length trees > RECENT_SUBSCRIBED_TREES then
        (if trees = [] then (trees, evicted)
         else evict (butlast trees) (evicted @ [last trees]))
      else (trees, evicted))"
  by pat_completeness auto
termination
  by (relation "measure (\<lambda>(trees, evicted). length trees)") auto

declare evict.simps [simp del]

definition note_viewed :: "session \<Rightarrow> recent_trees \<Rightarrow> recent_trees \<times> session list" where
  "note_viewed root trees = evict (root # filter (\<lambda>recent. recent \<noteq> root) trees) []"

subsection \<open>The state machine\<close>

datatype subscription_state =
    Subscribing (sub_attempt: attempt) (sub_owned: bool) (sub_again: bool) (sub_ended: bool)
  | Live bool
  | Recovering bool bool

datatype subscribe_intent = Follow | Open

datatype subscription_outcome = Established | LiveTail | ReplayInProgress | Failed string

record subscribe_request =
  rq_session :: session
  rq_attempt :: attempt
  rq_from_scratch :: bool

record subscriptions =
  states :: "(session, subscription_state) hash_map"
  next_attempt :: attempt
  recent :: recent_trees

definition subscriptions_default :: subscriptions where
  "subscriptions_default = \<lparr>states = hm_empty, next_attempt = 0, recent = []\<rparr>"

definition state_of :: "subscriptions \<Rightarrow> session \<Rightarrow> subscription_state option" where
  "state_of s i = hm_get (states s) i"

definition put_state :: "session \<Rightarrow> subscription_state \<Rightarrow> subscriptions \<Rightarrow> subscriptions" where
  "put_state i st s = s\<lparr>states := hm_insert i st (states s)\<rparr>"

definition start :: "session \<Rightarrow> bool \<Rightarrow> bool \<Rightarrow> subscriptions \<Rightarrow> subscriptions \<times> subscribe_request" where
  "start i owned from_scratch s =
     (let a = next_attempt s + 1;
          s' = put_state i (Subscribing a owned False False) (s\<lparr>next_attempt := a\<rparr>)
      in (s', \<lparr>rq_session = i, rq_attempt = a, rq_from_scratch = from_scratch\<rparr>))"

definition asked :: "subscriptions \<times> subscribe_request \<Rightarrow> subscriptions \<times> subscribe_request option" where
  "asked r = (fst r, Some (snd r))"

definition subscribe ::
  "session \<Rightarrow> bool \<Rightarrow> subscribe_intent \<Rightarrow> subscriptions \<Rightarrow> subscriptions \<times> subscribe_request option" where
  "subscribe i owned intent s =
     (case state_of s i of
        None \<Rightarrow> asked (start i owned False s)
      | Some (Subscribing a own again ended) \<Rightarrow>
          if \<not> own \<and> owned then (put_state i (Subscribing a own True ended) s, None) else (s, None)
      | Some (Recovering own again) \<Rightarrow>
          if \<not> own \<and> owned then (put_state i (Recovering own True) s, None) else (s, None)
      | Some (Live own) \<Rightarrow>
          if \<not> own \<and> (owned \<or> intent = Open) then asked (start i owned False s) else (s, None))"

definition subscribe_from_cursor :: "session \<Rightarrow> bool \<Rightarrow> subscriptions \<Rightarrow> subscriptions \<times> subscribe_request" where
  "subscribe_from_cursor i owned s = start i owned False s"

definition subscribe_from_scratch :: "session \<Rightarrow> bool \<Rightarrow> subscriptions \<Rightarrow> subscriptions \<times> subscribe_request" where
  "subscribe_from_scratch i owned s = start i owned True s"

definition finish ::
  "session \<Rightarrow> attempt \<Rightarrow> subscription_outcome \<Rightarrow> bool \<Rightarrow> subscriptions \<Rightarrow>
     subscriptions \<times> subscribe_request option" where
  "finish i a outcome owned_now s =
     (case state_of s i of
        Some (Subscribing current owned again ended) \<Rightarrow>
          if current \<noteq> a then (s, None)
          else (case outcome of
              Established \<Rightarrow>
                if again then asked (start i True False s)
                else (put_state i (Live owned) s, None)
            | LiveTail \<Rightarrow> (put_state i (Live True) s, None)
            | ReplayInProgress \<Rightarrow>
                let again' = again \<or> owned
                in if again' \<and> ended then asked (start i owned_now False s)
                   else (put_state i (Recovering owned again') s, None)
            | Failed _ \<Rightarrow> (put_state i (Recovering owned again) s, None))
      | _ \<Rightarrow> (s, None))"

definition note_replay_end ::
  "session \<Rightarrow> bool \<Rightarrow> subscriptions \<Rightarrow> subscriptions \<times> subscribe_request option" where
  "note_replay_end i owned_now s =
     (case state_of s i of
        Some (Subscribing a owned again ended) \<Rightarrow> (put_state i (Subscribing a owned again True) s, None)
      | Some (Recovering owned again) \<Rightarrow>
          if again then asked (start i owned_now False s) else (put_state i (Live owned) s, None)
      | Some (Live _) \<Rightarrow> (s, None)
      | None \<Rightarrow> (s, None))"

definition recover :: "session \<Rightarrow> bool \<Rightarrow> subscriptions \<Rightarrow> subscriptions" where
  "recover i owned s =
     (let again = (case state_of s i of
         Some (Subscribing _ _ r _) \<Rightarrow> r | Some (Recovering _ r) \<Rightarrow> r | _ \<Rightarrow> False)
      in put_state i (Recovering owned again) s)"

definition recovery_failed ::
  "session option \<Rightarrow> session option \<Rightarrow> subscriptions \<Rightarrow> subscriptions \<times> session option" where
  "recovery_failed i viewed s =
     (s\<lparr>states := (case i of Some j \<Rightarrow> hm_remove j (states s) | None \<Rightarrow> hm_empty)\<rparr>,
      case viewed of
        None \<Rightarrow> None
      | Some v \<Rightarrow> if (case i of None \<Rightarrow> True | Some j \<Rightarrow> j = v) then Some v else None)"

definition retry ::
  "session \<Rightarrow> session option \<Rightarrow> bool \<Rightarrow> subscriptions \<Rightarrow> subscriptions \<times> subscribe_request option" where
  "retry i viewed owned s =
     (if viewed = Some i \<and> state_of s i = None then asked (subscribe_from_scratch i owned s)
      else (s, None))"

definition release :: "session \<Rightarrow> subscriptions \<Rightarrow> subscriptions \<times> bool" where
  "release i s = (s\<lparr>states := hm_remove i (states s)\<rparr>, state_of s i \<noteq> None)"

fun release_all :: "session list \<Rightarrow> subscriptions \<Rightarrow> subscriptions \<times> session list" where
  "release_all [] s = (s, [])"
| "release_all (i # is) s =
     (let (s1, had) = release i s; (s2, released) = release_all is s1
      in (s2, if had then i # released else released))"

fun release_trees ::
  "session list \<Rightarrow> (session \<Rightarrow> session) \<Rightarrow> (session \<Rightarrow> bool) \<Rightarrow> subscriptions \<Rightarrow>
     subscriptions \<times> session list" where
  "release_trees [] root_of settled s = (s, [])"
| "release_trees (t # ts) root_of settled s =
     (let sessions = sort (filter (\<lambda>i. root_of i = t \<and> settled i) (map fst (states s)));
          (s1, r1) = release_all sessions s;
          (s2, r2) = release_trees ts root_of settled s1
      in (s2, r1 @ r2))"

definition note_viewed_tree ::
  "session \<Rightarrow> (session \<Rightarrow> session) \<Rightarrow> (session \<Rightarrow> bool) \<Rightarrow> subscriptions \<Rightarrow>
     subscriptions \<times> session list" where
  "note_viewed_tree root root_of settled s =
     (let (trees, evicted) = note_viewed root (recent s)
      in release_trees evicted root_of settled (s\<lparr>recent := trees\<rparr>))"

definition reset :: "subscriptions \<Rightarrow> subscriptions" where
  "reset s = s\<lparr>states := hm_empty\<rparr>"

subsection \<open>Calls\<close>

datatype sub_call =
    CSubscribe session bool subscribe_intent
  | CFromCursor session bool
  | CFromScratch session bool
  | CFinish session attempt subscription_outcome bool
  | CReplayEnd session bool
  | CRecover session bool
  | CRecoveryFailed "session option" "session option"
  | CRetry session "session option" bool
  | CRelease session
  | CViewed session "session \<Rightarrow> session" "session \<Rightarrow> bool"
  | CReset

fun sub_step :: "subscriptions \<Rightarrow> sub_call \<Rightarrow> subscriptions \<times> subscribe_request option" where
  "sub_step s (CSubscribe i owned intent) = subscribe i owned intent s"
| "sub_step s (CFromCursor i owned) = asked (subscribe_from_cursor i owned s)"
| "sub_step s (CFromScratch i owned) = asked (subscribe_from_scratch i owned s)"
| "sub_step s (CFinish i a outcome owned_now) = finish i a outcome owned_now s"
| "sub_step s (CReplayEnd i owned_now) = note_replay_end i owned_now s"
| "sub_step s (CRecover i owned) = (recover i owned s, None)"
| "sub_step s (CRecoveryFailed i viewed) = (fst (recovery_failed i viewed s), None)"
| "sub_step s (CRetry i viewed owned) = retry i viewed owned s"
| "sub_step s (CRelease i) = (fst (release i s), None)"
| "sub_step s (CViewed root root_of settled) = (fst (note_viewed_tree root root_of settled s), None)"
| "sub_step s CReset = (reset s, None)"

text \<open>The state after some calls, and the requests they returned.\<close>

fun sub_run :: "subscriptions \<Rightarrow> sub_call list \<Rightarrow> subscriptions \<times> subscribe_request list" where
  "sub_run s [] = (s, [])"
| "sub_run s (c # cs) =
     (let (s1, r) = sub_step s c; (s2, rs) = sub_run s1 cs
      in (s2, (case r of None \<Rightarrow> rs | Some q \<Rightarrow> q # rs)))"

subsection \<open>Lemmas\<close>

lemma state_put [simp]: "state_of (put_state i st s) j = (if j = i then Some st else state_of s j)"
  by (simp add: state_of_def put_state_def hm_get_insert)

lemma put_state_fields [simp]:
  "next_attempt (put_state i st s) = next_attempt s" "recent (put_state i st s) = recent s"
  by (simp_all add: put_state_def)

lemma state_next [simp]: "state_of (s\<lparr>next_attempt := a\<rparr>) j = state_of s j"
  "state_of (s\<lparr>recent := r\<rparr>) j = state_of s j"
  by (simp_all add: state_of_def)

lemma start_state [simp]:
  "state_of (fst (start i owned scratch s)) j =
     (if j = i then Some (Subscribing (next_attempt s + 1) owned False False) else state_of s j)"
  "next_attempt (fst (start i owned scratch s)) = next_attempt s + 1"
  "rq_attempt (snd (start i owned scratch s)) = next_attempt s + 1"
  "rq_session (snd (start i owned scratch s)) = i"
  by (simp_all add: start_def Let_def)

lemma asked_simps [simp]: "fst (asked r) = fst r" "snd (asked r) = Some (snd r)"
  by (simp_all add: asked_def)

definition sub_ok :: "subscriptions \<Rightarrow> bool" where
  "sub_ok s \<longleftrightarrow> hm_ok (states s)"

lemma sub_ok_put [simp]: "sub_ok s \<Longrightarrow> sub_ok (put_state i st s)"
  "sub_ok s \<Longrightarrow> sub_ok (s\<lparr>next_attempt := a\<rparr>)" "sub_ok s \<Longrightarrow> sub_ok (s\<lparr>recent := r\<rparr>)"
  "sub_ok (s\<lparr>states := hm_empty\<rparr>)" "sub_ok s \<Longrightarrow> sub_ok (s\<lparr>states := hm_remove i (states s)\<rparr>)"
  by (simp_all add: sub_ok_def put_state_def hm_ok_insert hm_ok_empty hm_ok_remove)

lemma sub_ok_start [simp]: "sub_ok s \<Longrightarrow> sub_ok (fst (start i owned scratch s))"
  by (simp add: start_def Let_def)

lemma release_state [simp]:
  "sub_ok s \<Longrightarrow> state_of (fst (release i s)) j = (if j = i then None else state_of s j)"
  "sub_ok s \<Longrightarrow> sub_ok (fst (release i s))"
  "sub_ok s \<Longrightarrow> next_attempt (fst (release i s)) = next_attempt s"
  "sub_ok s \<Longrightarrow> snd (release i s) \<longleftrightarrow> state_of s i \<noteq> None"
  by (auto simp: release_def state_of_def sub_ok_def hm_get_remove hm_ok_remove)

lemma release_all_state:
  "sub_ok s \<Longrightarrow> sub_ok (fst (release_all is s))
     \<and> next_attempt (fst (release_all is s)) = next_attempt s
     \<and> state_of (fst (release_all is s)) j = (if j \<in> set is then None else state_of s j)
     \<and> (distinct is \<longrightarrow> snd (release_all is s) = filter (\<lambda>i. state_of s i \<noteq> None) is)"
proof (induction "is" arbitrary: s)
  case (Cons i "is")
  obtain s1 had where r: "release i s = (s1, had)" by fastforce
  obtain s2 rs where ra: "release_all is s1 = (s2, rs)" by fastforce
  have s1: "sub_ok s1" "next_attempt s1 = next_attempt s" "had \<longleftrightarrow> state_of s i \<noteq> None"
      "state_of s1 k = (if k = i then None else state_of s k)" for k
    using release_state [OF Cons.prems, of i] r by auto
  have "filter (\<lambda>k. state_of s1 k \<noteq> None) is = filter (\<lambda>k. state_of s k \<noteq> None) is" if "i \<notin> set is"
    using that by (intro filter_cong) (auto simp: s1(4))
  then show ?case
    using Cons.IH [OF s1(1)] r ra s1 by auto
qed simp

lemma state_keys: "sub_ok s \<Longrightarrow> i \<in> set (map fst (states s)) \<longleftrightarrow> state_of s i \<noteq> None"
  by (auto simp: sub_ok_def state_of_def hm_get_def map_of_eq_None_iff)

lemma release_trees_state:
  "sub_ok s \<Longrightarrow> sub_ok (fst (release_trees ts root_of settled s))
     \<and> next_attempt (fst (release_trees ts root_of settled s)) = next_attempt s
     \<and> state_of (fst (release_trees ts root_of settled s)) j =
         (if root_of j \<in> set ts \<and> settled j then None else state_of s j)
     \<and> set (snd (release_trees ts root_of settled s)) =
         {i. state_of s i \<noteq> None \<and> root_of i \<in> set ts \<and> settled i}"
proof (induction ts arbitrary: s)
  case (Cons t ts)
  define xs where "xs = sort (filter (\<lambda>i. root_of i = t \<and> settled i) (map fst (states s)))"
  obtain s1 r1 where ra: "release_all xs s = (s1, r1)" by fastforce
  obtain s2 r2 where rt: "release_trees ts root_of settled s1 = (s2, r2)" by fastforce
  have xs: "i \<in> set xs \<longleftrightarrow> state_of s i \<noteq> None \<and> root_of i = t \<and> settled i" for i
    using state_keys [OF Cons.prems, of i] by (auto simp: xs_def)
  have "distinct xs"
    using Cons.prems by (simp add: xs_def sub_ok_def hm_ok_def)
  then have s1: "sub_ok s1" "next_attempt s1 = next_attempt s" "r1 = filter (\<lambda>i. state_of s i \<noteq> None) xs"
      "state_of s1 k = (if k \<in> set xs then None else state_of s k)" for k
    using release_all_state [OF Cons.prems, of xs] ra by auto
  have res: "release_trees (t # ts) root_of settled s = (s2, r1 @ r2)"
    using ra rt by (simp add: xs_def)
  show ?case
    unfolding res using Cons.IH [OF s1(1)] rt s1 by (auto simp: xs)
qed simp

lemma viewed_state:
  assumes "sub_ok s"
  shows "sub_ok (fst (note_viewed_tree root root_of settled s))"
    and "next_attempt (fst (note_viewed_tree root root_of settled s)) = next_attempt s"
    and "state_of (fst (note_viewed_tree root root_of settled s)) j =
      (if root_of j \<in> set (snd (note_viewed root (recent s))) \<and> settled j then None else state_of s j)"
    and "set (snd (note_viewed_tree root root_of settled s)) =
      {i. state_of s i \<noteq> None \<and> root_of i \<in> set (snd (note_viewed root (recent s))) \<and> settled i}"
  using release_trees_state [of "s\<lparr>recent := fst (note_viewed root (recent s))\<rparr>"
      "snd (note_viewed root (recent s))" root_of settled] assms
  by (auto simp: note_viewed_tree_def split_beta)

lemma sub_ok_step: "sub_ok s \<Longrightarrow> sub_ok (fst (sub_step s c))"
  by (cases c) (auto simp: subscribe_def subscribe_from_cursor_def subscribe_from_scratch_def
      finish_def note_replay_end_def recover_def recovery_failed_def retry_def reset_def viewed_state
      Let_def split: option.splits subscription_state.splits subscription_outcome.splits)

lemmas sub_defs = subscribe_def subscribe_from_cursor_def subscribe_from_scratch_def
  finish_def note_replay_end_def recover_def recovery_failed_def retry_def reset_def

text \<open>A subscription that ends on a live tail: owned, or owing a subscribe once it settles.\<close>

fun promised :: "subscription_state \<Rightarrow> bool" where
  "promised (Subscribing a owned again ended) \<longleftrightarrow> owned \<or> again"
| "promised (Live owned) \<longleftrightarrow> owned"
| "promised (Recovering owned again) \<longleftrightarrow> owned \<or> again"

fun reports_owned :: "session \<Rightarrow> sub_call \<Rightarrow> bool" where
  "reports_owned i (CSubscribe j owned intent) \<longleftrightarrow> j = i \<longrightarrow> owned"
| "reports_owned i (CFromCursor j owned) \<longleftrightarrow> j = i \<longrightarrow> owned"
| "reports_owned i (CFromScratch j owned) \<longleftrightarrow> j = i \<longrightarrow> owned"
| "reports_owned i (CFinish j a outcome owned_now) \<longleftrightarrow> j = i \<longrightarrow> owned_now"
| "reports_owned i (CReplayEnd j owned_now) \<longleftrightarrow> j = i \<longrightarrow> owned_now"
| "reports_owned i (CRecover j owned) \<longleftrightarrow> j = i \<longrightarrow> owned"
| "reports_owned i (CRetry j viewed owned) \<longleftrightarrow> j = i \<longrightarrow> owned"
| "reports_owned i _ \<longleftrightarrow> True"

definition kept :: "session \<Rightarrow> subscriptions \<Rightarrow> bool" where
  "kept i s \<longleftrightarrow> (case state_of s i of None \<Rightarrow> True | Some st \<Rightarrow> promised st)"

lemma state_cleared [simp]: "state_of (s\<lparr>states := hm_empty\<rparr>) i = None"
  by (simp add: state_of_def hm_get_empty)

lemma state_removed [simp]:
  "sub_ok s \<Longrightarrow> state_of (s\<lparr>states := hm_remove j (states s)\<rparr>) i = (if i = j then None else state_of s i)"
  by (simp add: state_of_def hm_get_remove sub_ok_def)

lemma kept_step:
  assumes "sub_ok s" and "kept i s" and "reports_owned i c"
  shows "kept i (fst (sub_step s c))"
proof (cases c)
  case (CFinish j a outcome owned_now)
  then show ?thesis
    using assms by (auto simp: kept_def finish_def Let_def split: option.splits
        subscription_state.splits subscription_outcome.splits)
next
  case (CViewed root root_of settled)
  then show ?thesis
    using assms by (auto simp: kept_def viewed_state split: option.splits)
qed (use assms in \<open>auto simp: kept_def sub_defs Let_def split: option.splits subscription_state.splits\<close>)

lemma sub_run_Cons: "fst (sub_run s (c # cs)) = fst (sub_run (fst (sub_step s c)) cs)"
  by (auto simp: split_beta)

lemma kept_run:
  "sub_ok s \<Longrightarrow> kept i s \<Longrightarrow> list_all (reports_owned i) cs \<Longrightarrow> kept i (fst (sub_run s cs))"
proof (induction cs arbitrary: s)
  case (Cons c cs)
  then show ?case
    unfolding sub_run_Cons by (simp add: sub_ok_step kept_step)
qed simp

lemma kept_subscribe: "kept i (fst (subscribe i True intent s))"
  by (auto simp: kept_def subscribe_def split: option.splits subscription_state.splits)

text \<open>Each request takes the next attempt number.\<close>

lemma step_attempt:
  "sub_ok s \<Longrightarrow> (case snd (sub_step s c) of
      None \<Rightarrow> next_attempt (fst (sub_step s c)) = next_attempt s
    | Some q \<Rightarrow> rq_attempt q = next_attempt s + 1 \<and> next_attempt (fst (sub_step s c)) = next_attempt s + 1)"
  by (cases c) (auto simp: sub_defs Let_def viewed_state split: option.splits subscription_state.splits
      subscription_outcome.splits)

lemma run_attempts:
  "sub_ok s \<Longrightarrow> map rq_attempt (snd (sub_run s cs)) =
     map (\<lambda>k. next_attempt s + of_nat (Suc k)) [0..<length (snd (sub_run s cs))]
   \<and> length (snd (sub_run s cs)) \<le> length cs"
proof (induction cs arbitrary: s)
  case (Cons c cs)
  obtain s1 r where c: "sub_step s c = (s1, r)" by fastforce
  obtain s2 rs where cs: "sub_run s1 cs = (s2, rs)" by fastforce
  have ok: "sub_ok s1" using sub_ok_step [OF Cons.prems, of c] c by simp
  note IH = Cons.IH [OF ok, unfolded cs, simplified]
  show ?case
  proof (cases r)
    case None
    then show ?thesis
      using IH step_attempt [OF Cons.prems, of c] by (simp add: c cs)
  next
    case (Some q)
    then have q: "rq_attempt q = next_attempt s + 1" "next_attempt s1 = next_attempt s + 1"
      using step_attempt [OF Cons.prems, of c] c by auto
    have "map (\<lambda>k. next_attempt s + of_nat (Suc k)) [0..<Suc (length rs)] =
        (next_attempt s + 1) # map (\<lambda>k. next_attempt s1 + of_nat (Suc k)) [0..<length rs]"
      by (simp add: upt_conv_Cons map_Suc_upt [symmetric] q comp_def add.assoc del: upt_Suc)
    then show ?thesis
      using IH Some by (simp add: c cs q del: upt_Suc)
  qed
qed simp

lemma evict_take: "evict ts ev = (take 8 ts, ev @ rev (drop 8 ts))"
proof (induction ts ev rule: evict.induct)
  case (1 ts ev)
  show ?case
  proof (cases "length ts > 8")
    case True
    then have ts: "ts \<noteq> []" by auto
    have "evict ts ev = evict (butlast ts) (ev @ [last ts])"
      using True ts by (subst evict.simps) (simp add: RECENT_SUBSCRIBED_TREES_def)
    also have "\<dots> = (take 8 (butlast ts), (ev @ [last ts]) @ rev (drop 8 (butlast ts)))"
      using "1.IH" True ts by (simp add: RECENT_SUBSCRIBED_TREES_def)
    also have "drop 8 ts = drop 8 (butlast ts) @ [last ts]"
      using True ts by (metis append_butlast_last_id drop_append length_butlast
          drop0 diff_is_0_eq less_eq_Suc_le Suc_diff_1 length_greater_0_conv less_Suc_eq_le)
    moreover have "take 8 (butlast ts) = take 8 ts"
      using True by (simp add: take_butlast)
    ultimately show ?thesis by simp
  next
    case False
    then show ?thesis by (subst evict.simps) (simp add: RECENT_SUBSCRIBED_TREES_def)
  qed
qed

lemma note_viewed_take:
  "note_viewed root ts = (take 8 (root # filter (\<lambda>r. r \<noteq> root) ts), rev (drop 8 (root # filter (\<lambda>r. r \<noteq> root) ts)))"
  by (simp add: note_viewed_def evict_take)

lemma take_filter_first:
  "distinct ys \<Longrightarrow>
     take m (filter (\<lambda>r. r \<noteq> x) (take (Suc m) ys)) = take m (filter (\<lambda>r. r \<noteq> x) ys)"
proof (induction ys arbitrary: m)
  case (Cons y ys)
  show ?case
  proof (cases "y = x")
    case True
    then have "filter (\<lambda>r. r \<noteq> x) ys = ys" "filter (\<lambda>r. r \<noteq> x) (take m ys) = take m ys"
      using Cons.prems by (auto simp: filter_id_conv dest: in_set_takeD)
    with True show ?thesis by simp
  next
    case False
    with Cons show ?thesis by (cases m) auto
  qed
qed simp

lemma remdups_snoc: "remdups (xs @ [x]) = filter (\<lambda>y. y \<noteq> x) (remdups xs) @ [x]"
  by (induction xs) auto

lemma recent_run:
  "fold (\<lambda>root ts. fst (note_viewed root ts)) roots [] = take 8 (rev (remdups roots))"
proof (induction roots rule: rev_induct)
  case (snoc root roots)
  let ?f = "\<lambda>root ts. fst (note_viewed root ts)"
  have "fold ?f (roots @ [root]) [] = fst (note_viewed root (fold ?f roots []))"
    by simp
  also have "\<dots> = take 8 (root # filter (\<lambda>r. r \<noteq> root) (take 8 (rev (remdups roots))))"
    by (simp only: snoc.IH) (simp add: note_viewed_take)
  also have "\<dots> = root # take 7 (filter (\<lambda>r. r \<noteq> root) (take (Suc 7) (rev (remdups roots))))"
    by simp
  also have "\<dots> = root # take 7 (filter (\<lambda>r. r \<noteq> root) (rev (remdups roots)))"
    by (subst take_filter_first) auto
  also have "\<dots> = take 8 (rev (remdups (roots @ [root])))"
    by (simp add: remdups_snoc rev_filter)
  finally show ?case .
qed simp

subsection \<open>Properties\<close>

text \<open>
  C5. A session the client owns is never left on a snapshot: once it subscribed the session as
  owned, and as long as every later call reports it as owned, whatever else happens on the
  connection (lost attempts, failed and superseded replays, recoveries), the session is
  unsubscribed, or its subscription is owned, or it owes a further subscribe; and it is never
  live without the tail.
\<close>

theorem owned_session_never_left_on_snapshot:
  assumes "sub_ok s" and "list_all (reports_owned i) calls"
  shows "(case state_of (fst (sub_run s (CSubscribe i True intent # calls))) i of
      None \<Rightarrow> True | Some st \<Rightarrow> promised st)
    \<and> state_of (fst (sub_run s (CSubscribe i True intent # calls))) i \<noteq> Some (Live False)"
proof -
  have "sub_ok (fst (subscribe i True intent s))"
    using sub_ok_step [OF assms(1), of "CSubscribe i True intent"] by simp
  from kept_run [OF this kept_subscribe assms(2)]
  have k: "kept i (fst (sub_run s (CSubscribe i True intent # calls)))"
    unfolding sub_run_Cons by simp
  then show ?thesis
    by (auto simp: kept_def)
qed

definition sample_sub_calls :: "sub_call list" where
  "sample_sub_calls = [CReplayEnd 5 True, CFinish 5 1 ReplayInProgress True, CFinish 5 2 Established True]"

theorem owned_session_never_left_on_snapshot_witness:
  "state_of (fst (sub_run (fst (subscribe 5 False Open subscriptions_default))
     (CSubscribe 5 True Follow # sample_sub_calls))) 5 = Some (Live True)"
proof -
  let ?s = "fst (subscribe 5 False Open subscriptions_default)"
  have "sub_ok subscriptions_default"
    by (simp add: sub_ok_def subscriptions_default_def hm_ok_empty)
  then have ok: "sub_ok ?s"
    using sub_ok_step [of _ "CSubscribe 5 False Open"] by simp
  have "list_all (reports_owned 5) sample_sub_calls"
    by (simp add: sample_sub_calls_def)
  from owned_session_never_left_on_snapshot [OF ok this, of Follow]
  have "state_of (fst (sub_run ?s (CSubscribe 5 True Follow # sample_sub_calls))) 5 \<noteq> Some (Live False)"
    by simp
  moreover have "\<exists>own. state_of (fst (sub_run ?s (CSubscribe 5 True Follow # sample_sub_calls))) 5
      = Some (Live own)"
    by (simp add: sample_sub_calls_def subscribe_def finish_def note_replay_end_def start_def
        subscriptions_default_def state_of_def put_state_def hm_get_def hm_empty_def asked_def Let_def)
      blast
  ultimately show ?thesis by auto
qed

text \<open>
  No answer can be taken for another's: on a connection that makes fewer than \<open>2^64\<close> calls,
  the attempt numbers of all the requests a client is asked to send are distinct, so that
  \<open>finish\<close> of an overtaken attempt finds another number and changes nothing.
\<close>

theorem attempts_distinct:
  assumes "sub_ok s" and "length calls < 2 ^ 64"
  shows "distinct (map rq_attempt (snd (sub_run s calls)))"
proof -
  have "inj_on (\<lambda>k. next_attempt s + of_nat (Suc k)) {0..<length (snd (sub_run s calls))}"
  proof (rule inj_onI)
    fix x y
    assume "x \<in> {0..<length (snd (sub_run s calls))}" "y \<in> {0..<length (snd (sub_run s calls))}"
    moreover assume "next_attempt s + of_nat (Suc x) = next_attempt s + of_nat (Suc y)"
    then have "(of_nat (Suc x) :: 64 word) = of_nat (Suc y)"
      by simp
    moreover have "length (snd (sub_run s calls)) < 2 ^ 64"
      using run_attempts [OF assms(1), of calls] assms(2) by linarith
    ultimately show "x = y"
      by (simp add: word_of_nat_eq_iff take_bit_nat_eq_self del: of_nat_Suc)
  qed
  then show ?thesis
    using run_attempts [OF assms(1), of calls] by (simp add: distinct_map)
qed

theorem attempts_distinct_witness:
  "distinct (map rq_attempt (snd (sub_run subscriptions_default
     [CSubscribe 5 False Open, CFromScratch 5 True, CFromCursor 6 True])))
   \<and> length (snd (sub_run subscriptions_default
     [CSubscribe 5 False Open, CFromScratch 5 True, CFromCursor 6 True])) = 3"
proof -
  have "sub_ok subscriptions_default"
    by (simp add: sub_ok_def subscriptions_default_def hm_ok_empty)
  from attempts_distinct [OF this, of "[CSubscribe 5 False Open, CFromScratch 5 True, CFromCursor 6 True]"]
  show ?thesis
    by (auto simp: subscribe_def subscribe_from_cursor_def subscribe_from_scratch_def split_beta
        subscriptions_default_def state_of_def hm_get_def hm_empty_def)
qed

text \<open>
  C30. The recent trees are the eight roots viewed last, newest first, each once; and viewing
  a tree releases exactly the settled sessions of the trees that it pushes out.
\<close>

theorem recent_trees_are_last_viewed:
  assumes "sub_ok s" and "recent s = fold (\<lambda>root ts. fst (note_viewed root ts)) roots []"
  shows "recent s = take 8 (rev (remdups roots))
    \<and> set (snd (note_viewed root (recent s))) = set (recent s) - set (take 8 (rev (remdups (roots @ [root]))))
    \<and> set (snd (note_viewed_tree root root_of settled s)) =
        {i. state_of s i \<noteq> None \<and> root_of i \<in> set (snd (note_viewed root (recent s))) \<and> settled i}"
proof -
  have r: "recent s = take 8 (rev (remdups roots))"
    using assms(2) recent_run by simp
  have viewed: "fst (note_viewed root (recent s)) = take 8 (rev (remdups (roots @ [root])))"
    using recent_run [of "roots @ [root]"] assms(2) by simp
  define ts where "ts = root # filter (\<lambda>y. y \<noteq> root) (recent s)"
  have "distinct ts" "root \<notin> set (drop 8 ts)"
    by (auto simp: ts_def r drop_Cons' dest: in_set_dropD)
  then have "set (drop 8 ts) = set ts - set (take 8 ts)"
    by (metis Diff_cancel Un_Diff append_take_drop_id Diff_triv distinct_append inf_commute set_append sup_bot_left)
  moreover have "root \<in> set (take 8 ts)"
    by (simp add: ts_def)
  ultimately have "set (snd (note_viewed root (recent s))) = set (recent s) - set (take 8 ts)"
    by (auto simp: note_viewed_take ts_def)
  with r viewed viewed_state(4) [OF assms(1)] show ?thesis
    by (simp add: note_viewed_take ts_def)
qed

theorem recent_trees_are_last_viewed_witness:
  "recent (subscriptions_default\<lparr>recent := [2, 1]\<rparr>) = take 8 (rev (remdups [1, 2]))"
proof -
  have "sub_ok (subscriptions_default\<lparr>recent := [2, 1]\<rparr>)"
    by (simp add: sub_ok_def subscriptions_default_def hm_ok_empty)
  moreover have "recent (subscriptions_default\<lparr>recent := [2, 1]\<rparr>) =
      fold (\<lambda>root ts. fst (note_viewed root ts)) [1, 2] []"
    by (simp add: note_viewed_take)
  ultimately show ?thesis
    using recent_trees_are_last_viewed [of "subscriptions_default\<lparr>recent := [2, 1]\<rparr>" "[1, 2]"] by blast
qed

end
