(* ===== verification/Goal_Fold.thy ===== *)
theory Goal_Fold
  imports Hash_Map
begin

text \<open>
  The goal part of a session's log: the goal types (\<open>crates/protocol/src/goal.rs\<close>), the
  events that the projection reads (\<open>crates/protocol/src/event.rs\<close>, \<open>producer.rs\<close>) and
  \<open>GoalFold\<close> (\<open>crates/engine_store/src/goal_projection.rs\<close>). IDs, revisions and sequence
  numbers are natural numbers: the fold only stores and compares them. Of an event the model
  keeps what the projection reads.
\<close>

subsection \<open>Goals and events\<close>

type_synonym goal_id = nat
type_synonym run_id = nat
type_synonym message_id = nat
type_synonym seq = nat
type_synonym run_selection = string

datatype goal_status = Active | Paused | Completed | Cancelled

record goal_item =
  it_description :: string
  it_finished :: bool

record goal_state =
  g_id :: goal_id
  g_objective :: string
  g_status :: goal_status
  g_items :: "goal_item list"
  g_revision :: nat

datatype reminder_kind = Started | Continuation

record reminder_identity =
  rm_goal :: goal_id
  rm_revision :: nat
  rm_kind :: reminder_kind

datatype producer_owner =
    External string string
  | Delegation nat
  | OwnerGoal goal_id
  | GoalControl goal_id
  | OwnerAgent nat
  | OwnerTool nat
  | Subagent nat
  | AcpAgent string

datatype delivery_mode = Steer | Queue

text \<open>The fields of \<open>ProducerMessageAccepted\<close> but for the retained output.\<close>

record acceptance =
  ac_message :: message_id
  ac_owner :: producer_owner
  ac_mode :: delivery_mode
  ac_key :: string
  ac_description :: string
  ac_body :: string
  ac_reminder :: "reminder_identity option"
  ac_hop :: "nat option"

datatype log_payload =
    GoalActivated goal_id string nat "run_selection option"
  | GoalChecklistRevised goal_id "goal_item list" nat
  | GoalLifecycleChanged goal_id goal_status nat "run_selection option"
  | ProducerMessageAccepted acceptance
  | ProducerMessageAdmitted message_id
  | ProducerMessagesClaimed "message_id list"
  | ProducerMessagesReleased seq
  | ModelTurnCommitted seq
  | ProducerMessageConsumed message_id run_id
  | ProducerMessageDiscarded message_id "reminder_identity option" producer_owner
  | RunFinished
  | OtherEvent

record log_event =
  le_run :: "run_id option"
  le_seq :: seq
  le_payload :: log_payload

subsection \<open>The fold\<close>

record goal_fold =
  gf_goal :: "goal_state option"
  gf_revisions :: "(goal_id, nat) hash_map"

definition goal_fold_new :: goal_fold where
  "goal_fold_new = \<lparr>gf_goal = None, gf_revisions = hm_empty\<rparr>"

definition is_terminal :: "goal_status \<Rightarrow> bool" where
  "is_terminal status \<longleftrightarrow> status = Completed \<or> status = Cancelled"

fun valid_lifecycle_change :: "goal_state \<Rightarrow> goal_status \<Rightarrow> bool" where
  "valid_lifecycle_change goal status =
     (case (g_status goal, status) of
        (Active, Paused) \<Rightarrow> True
      | (Active, Cancelled) \<Rightarrow> True
      | (Paused, Active) \<Rightarrow> True
      | (Paused, Cancelled) \<Rightarrow> True
      | (Active, Completed) \<Rightarrow> g_items goal \<noteq> [] \<and> list_all it_finished (g_items goal)
      | (Paused, Completed) \<Rightarrow> g_items goal \<noteq> [] \<and> list_all it_finished (g_items goal)
      | _ \<Rightarrow> False)"

text \<open>\<open>Option::is_none_or\<close> and \<open>Option::is_some_and\<close>.\<close>

definition is_none_or :: "('a \<Rightarrow> bool) \<Rightarrow> 'a option \<Rightarrow> bool" where
  "is_none_or P x \<longleftrightarrow> (case x of None \<Rightarrow> True | Some a \<Rightarrow> P a)"

definition is_some_and :: "('a \<Rightarrow> bool) \<Rightarrow> 'a option \<Rightarrow> bool" where
  "is_some_and P x \<longleftrightarrow> (case x of None \<Rightarrow> False | Some a \<Rightarrow> P a)"

lemma option_tests [simp]:
  "is_none_or P None" "is_none_or P (Some a) = P a"
  "\<not> is_some_and P None" "is_some_and P (Some a) = P a"
  by (simp_all add: is_none_or_def is_some_and_def)

lemma is_some_and_Some: "is_some_and P x \<longleftrightarrow> (\<exists>a. x = Some a \<and> P a)"
  by (cases x) auto

text \<open>
  \<open>GoalFold::observe\<close> returns the new fold with its result: the reason on the left when the
  event is invalid where it stands.
\<close>

fun goal_observe :: "goal_fold \<Rightarrow> log_event \<Rightarrow> goal_fold \<times> (string + unit)" where
  "goal_observe f e =
     (case le_payload e of
        GoalActivated goal_id objective revision _ \<Rightarrow>
          let replaceable = is_none_or (\<lambda>goal. is_terminal (g_status goal)) (gf_goal f);
              different = is_none_or (\<lambda>goal. g_id goal \<noteq> goal_id) (gf_goal f);
              unseen = hm_get (gf_revisions f) goal_id = None
          in if trim objective = [] \<or> \<not> replaceable \<or> \<not> different \<or> \<not> unseen
             then (f, Inl ''invalid goal activation'')
             else (f\<lparr>gf_goal := Some \<lparr>g_id = goal_id, g_objective = objective, g_status = Active,
                       g_items = [], g_revision = revision\<rparr>,
                     gf_revisions := hm_insert goal_id revision (gf_revisions f)\<rparr>, Inr ())
      | GoalChecklistRevised goal_id items revision \<Rightarrow>
          let valid_items = list_all (\<lambda>item. trim (it_description item) \<noteq> []) items;
              valid = valid_items \<and> is_some_and (\<lambda>goal. g_id goal = goal_id
                        \<and> \<not> is_terminal (g_status goal) \<and> revision > g_revision goal) (gf_goal f)
          in if \<not> valid then (f, Inl ''invalid goal checklist revision'')
             else (f\<lparr>gf_goal := map_option (\<lambda>goal. goal\<lparr>g_items := items, g_revision := revision\<rparr>) (gf_goal f),
                     gf_revisions := hm_insert goal_id revision (gf_revisions f)\<rparr>, Inr ())
      | GoalLifecycleChanged goal_id status revision selection \<Rightarrow>
          let valid = is_some_and (\<lambda>goal. g_id goal = goal_id \<and> revision > g_revision goal
                        \<and> valid_lifecycle_change goal status
                        \<and> (selection = None \<or> status = Active)) (gf_goal f)
          in if \<not> valid then (f, Inl ''invalid goal lifecycle transition'')
             else (f\<lparr>gf_goal := map_option (\<lambda>goal. goal\<lparr>g_status := status, g_revision := revision\<rparr>) (gf_goal f),
                     gf_revisions := hm_insert goal_id revision (gf_revisions f)\<rparr>, Inr ())
      | _ \<Rightarrow> (f, Inr ()))"

declare goal_observe.simps [simp del] valid_lifecycle_change.simps [simp del]

definition goal_is_active :: "goal_fold \<Rightarrow> bool" where
  "goal_is_active f \<longleftrightarrow> is_some_and (\<lambda>goal. g_status goal = Active) (gf_goal f)"

definition goal_next :: "goal_fold \<Rightarrow> log_event \<Rightarrow> goal_fold" where
  "goal_next f e = fst (goal_observe f e)"

subsection \<open>What a step can do\<close>

text \<open>
  The contract of the fold as a relation between its states: nothing, a first or a replacing
  goal under a new ID, or a change of the current goal, which is not terminal, at a higher
  revision.
\<close>

inductive goal_step :: "goal_fold \<Rightarrow> goal_fold \<Rightarrow> bool" where
  stay: "goal_step f f"
| activate: "is_none_or (\<lambda>goal. is_terminal (g_status goal)) (gf_goal f) \<Longrightarrow>
    hm_get (gf_revisions f) (g_id g) = None \<Longrightarrow> trim (g_objective g) \<noteq> [] \<Longrightarrow>
    g_status g = Active \<Longrightarrow> g_items g = [] \<Longrightarrow>
    goal_step f \<lparr>gf_goal = Some g, gf_revisions = hm_insert (g_id g) (g_revision g) (gf_revisions f)\<rparr>"
| revise: "gf_goal f = Some g \<Longrightarrow> \<not> is_terminal (g_status g) \<Longrightarrow> g_revision g < revision \<Longrightarrow>
    list_all (\<lambda>item. trim (it_description item) \<noteq> []) items \<Longrightarrow>
    goal_step f \<lparr>gf_goal = Some (g\<lparr>g_items := items, g_revision := revision\<rparr>),
                 gf_revisions = hm_insert (g_id g) revision (gf_revisions f)\<rparr>"
| change: "gf_goal f = Some g \<Longrightarrow> g_revision g < revision \<Longrightarrow> valid_lifecycle_change g status \<Longrightarrow>
    goal_step f \<lparr>gf_goal = Some (g\<lparr>g_status := status, g_revision := revision\<rparr>),
                 gf_revisions = hm_insert (g_id g) revision (gf_revisions f)\<rparr>"

inductive_cases goal_stepE: "goal_step f f'"

lemma valid_lifecycle_changeD:
  assumes "valid_lifecycle_change g status"
  shows "\<not> is_terminal (g_status g)" and "status \<noteq> g_status g"
    and "status = Completed \<Longrightarrow> g_items g \<noteq> [] \<and> list_all it_finished (g_items g)"
  using assms
  by (auto simp: valid_lifecycle_change.simps is_terminal_def split: goal_status.splits)

lemma goal_observe_step: "goal_step f (goal_next f e)"
proof (cases "le_payload e")
  case (GoalActivated goal_id objective revision selection)
  let ?g = "\<lparr>g_id = goal_id, g_objective = objective, g_status = Active,
             g_items = [], g_revision = revision\<rparr>"
  show ?thesis
    using GoalActivated goal_step.activate [of f ?g]
    by (cases f) (auto simp: goal_next_def goal_observe.simps intro: goal_step.stay)
next
  case (GoalChecklistRevised goal_id items revision)
  then show ?thesis
    by (cases f) (auto simp: goal_next_def goal_observe.simps is_some_and_Some
        intro: goal_step.stay goal_step.revise [of "\<lparr>gf_goal = Some _, gf_revisions = _\<rparr>", simplified])
next
  case (GoalLifecycleChanged goal_id status revision selection)
  then show ?thesis
    by (cases f) (auto simp: goal_next_def goal_observe.simps is_some_and_Some
        intro: goal_step.stay goal_step.change [of "\<lparr>gf_goal = Some _, gf_revisions = _\<rparr>", simplified])
qed (simp_all add: goal_next_def goal_observe.simps goal_step.stay)

lemma goal_observe_error: "goal_observe f e = (f', Inl reason) \<Longrightarrow> f' = f"
  by (auto simp: goal_observe.simps Let_def split: log_payload.splits if_splits)

subsection \<open>Invariants of the log\<close>

definition goal_ok :: "goal_fold \<Rightarrow> bool" where
  "goal_ok f \<longleftrightarrow> is_none_or (\<lambda>g. hm_get (gf_revisions f) (g_id g) = Some (g_revision g)
     \<and> trim (g_objective g) \<noteq> []
     \<and> list_all (\<lambda>item. trim (it_description item) \<noteq> []) (g_items g)
     \<and> (g_status g = Completed \<longrightarrow> g_items g \<noteq> [] \<and> list_all it_finished (g_items g))) (gf_goal f)"

lemma goal_step_ok:
  assumes "goal_step f f'" and "goal_ok f"
  shows "goal_ok f'"
  using assms
proof (cases rule: goal_step.cases)
  case (change g revision status)
  then show ?thesis
    using assms(2) valid_lifecycle_changeD [OF change(4)] by (auto simp: goal_ok_def hm_get_insert)
qed (use assms(2) in \<open>auto simp: goal_ok_def hm_get_insert is_terminal_def\<close>)

interpretation goals: event_fold goal_fold_new goal_next goal_ok
proof unfold_locales
  show "goal_ok goal_fold_new"
    by (simp add: goal_ok_def goal_fold_new_def)
  show "goal_ok f \<Longrightarrow> goal_ok (goal_next f e)" for f e
    by (rule goal_step_ok [OF goal_observe_step])
qed

text \<open>
  What is once true of a goal: it is the current one, or another is and its ID cannot be used
  again; as the current one it is the same or has changed at a higher revision, and the same
  when it was terminal.
\<close>

definition goal_follows :: "goal_state \<Rightarrow> goal_fold \<Rightarrow> bool" where
  "goal_follows g f \<longleftrightarrow> hm_get (gf_revisions f) (g_id g) \<noteq> None
     \<and> is_some_and (\<lambda>g'. g' = g \<or> g_id g' \<noteq> g_id g
          \<or> \<not> is_terminal (g_status g) \<and> g_revision g < g_revision g') (gf_goal f)"

lemma goal_follows_step:
  assumes "goal_step f f'" and "goal_follows g f" and "goal_ok f"
  shows "goal_follows g f'"
  using assms(1)
proof (cases rule: goal_step.cases)
  case (change g' revision status)
  then show ?thesis
    using assms(2) valid_lifecycle_changeD [OF change(4)]
    by (auto simp: goal_follows_def hm_get_insert)
next
  case (activate g')
  then show ?thesis
    using assms(2) by (auto simp: goal_follows_def hm_get_insert)
next
  case (revise g' revision items)
  then show ?thesis
    using assms(2) by (auto simp: goal_follows_def hm_get_insert)
qed (use assms(2) in simp)

lemma goal_follows_run:
  assumes "goal_ok f" and "gf_goal f = Some g"
  shows "goal_follows g (foldl goal_next f es)"
proof -
  have "goal_ok (foldl goal_next f es) \<and> goal_follows g (foldl goal_next f es)"
  proof (induction es rule: rev_induct)
    case Nil
    then show ?case using assms by (auto simp: goal_ok_def goal_follows_def)
  next
    case (snoc e es)
    then show ?case
      using goal_follows_step [OF goal_observe_step] goals.inv_observe by simp
  qed
  then show ?thesis ..
qed

subsection \<open>Properties\<close>

definition sample_goal_log :: "log_event list" where
  "sample_goal_log =
     [\<lparr>le_run = None, le_seq = 1, le_payload = GoalActivated 7 ''Ship'' 0 None\<rparr>,
      \<lparr>le_run = None, le_seq = 2, le_payload = GoalActivated 8 ''Too soon'' 0 None\<rparr>,
      \<lparr>le_run = None, le_seq = 3, le_payload =
         GoalChecklistRevised 7 [\<lparr>it_description = ''Test'', it_finished = True\<rparr>] 1\<rparr>]"

definition sample_completion :: log_event where
  "sample_completion = \<lparr>le_run = None, le_seq = 4, le_payload = GoalLifecycleChanged 7 Completed 2 None\<rparr>"

lemma sample_goal_run:
  "gf_goal (goals.run sample_goal_log) = Some \<lparr>g_id = 7, g_objective = ''Ship'', g_status = Active,
     g_items = [\<lparr>it_description = ''Test'', it_finished = True\<rparr>], g_revision = 1\<rparr>"
  "gf_goal (goals.run (sample_goal_log @ [sample_completion])) =
     Some \<lparr>g_id = 7, g_objective = ''Ship'', g_status = Completed,
     g_items = [\<lparr>it_description = ''Test'', it_finished = True\<rparr>], g_revision = 2\<rparr>"
  unfolding goals.run_def by code_simp+

text \<open>
  C25. A goal that ended stays as it ended, and a revision names one state of a goal: if the same
  goal is current at two points of a log, it is equal at both, or it had not ended at the first
  and has a higher revision at the second. No log, however malformed, restarts a completed or
  cancelled goal or moves a goal back.
\<close>

theorem goal_never_goes_back:
  assumes "gf_goal (goals.run es) = Some g" and "gf_goal (goals.run (es @ later)) = Some g'"
    and "g_id g' = g_id g"
  shows "g' = g \<or> \<not> is_terminal (g_status g) \<and> g_revision g < g_revision g'"
  using goal_follows_run [OF goals.inv_run assms(1), of later] assms(2,3)
  by (auto simp: goal_follows_def goals.run_append)

theorem goal_never_goes_back_witness:
  "\<exists>g g'. gf_goal (goals.run sample_goal_log) = Some g
    \<and> gf_goal (goals.run (sample_goal_log @ [sample_completion])) = Some g'
    \<and> \<not> is_terminal (g_status g) \<and> g_revision g < g_revision g' \<and> g' \<noteq> g"
  using goal_never_goes_back [OF sample_goal_run] by (simp add: sample_goal_run)

text \<open>
  Only finished work completes: after any log a completed goal has a checklist that is not
  empty and whose items are all finished, and every current goal has an objective and items that
  are not blank.
\<close>

theorem completed_goal_is_finished:
  assumes "gf_goal (goals.run es) = Some g"
  shows "trim (g_objective g) \<noteq> []
    \<and> (\<forall>item \<in> set (g_items g). trim (it_description item) \<noteq> [])
    \<and> (g_status g = Completed \<longrightarrow> g_items g \<noteq> [] \<and> (\<forall>item \<in> set (g_items g). it_finished item))"
  using goals.inv_run [of es] assms by (auto simp: goal_ok_def list_all_iff)

theorem completed_goal_is_finished_witness:
  "trim ''Ship'' \<noteq> [] \<and> gf_goal (goals.run (sample_goal_log @ [sample_completion])) \<noteq> None"
  using completed_goal_is_finished [OF sample_goal_run(2)] by (simp add: sample_goal_run)

end
