(* ===== verification/Producer_Fold.thy ===== *)
theory Producer_Fold
  imports Goal_Fold "HOL-Library.Monad_Syntax"
begin

text \<open>
  The producer messages of a session's log: \<open>GoalProducerProjection\<close> and
  \<open>GoalProducerFold\<close> (\<open>crates/engine_store/src/goal_projection.rs\<close>). An index into
  the messages that is out of range panics in the source and is \<open>None\<close> here; that no log
  reaches it is \<open>producers\<close>' invariant. A projection that readers share is copied on a
  change; the model has values only. The hash sets of claims and of ended runs are sets.
\<close>

subsection \<open>The projection\<close>

record message_record =
  m_id :: message_id
  m_owner :: producer_owner
  m_mode :: delivery_mode
  m_key :: string
  m_description :: string
  m_body :: string
  m_reminder :: "reminder_identity option"
  m_hop :: "nat option"
  m_accepted :: seq
  m_admission :: "(run_id \<times> seq) option"
  m_claims :: "seq set"
  m_consumed :: bool
  m_discarded :: bool
  m_discarded_seq :: "seq option"
  m_recorded :: bool
  m_consumed_run :: "run_id option"

record claim_record =
  c_run :: run_id
  c_messages :: "message_id list"

record projection =
  p_goal :: "goal_state option"
  p_selection :: "run_selection option"
  p_messages :: "message_record list"
  p_claims :: "(seq, claim_record) hash_map"
  p_invalid :: "(seq \<times> string) list"

record producer_fold =
  f_projection :: projection
  f_goals :: goal_fold
  f_message_indexes :: "(message_id, nat) hash_map"
  f_dedup_indexes :: "(producer_owner \<times> string, nat) hash_map"
  f_terminal_runs :: "run_id set"

definition producer_fold_new :: producer_fold where
  "producer_fold_new =
     \<lparr>f_projection = \<lparr>p_goal = None, p_selection = None, p_messages = [], p_claims = hm_empty,
                      p_invalid = []\<rparr>,
      f_goals = goal_fold_new, f_message_indexes = hm_empty, f_dedup_indexes = hm_empty,
      f_terminal_runs = {}\<rparr>"

definition is_agent :: "producer_owner \<Rightarrow> bool" where
  "is_agent owner \<longleftrightarrow> (case owner of OwnerAgent _ \<Rightarrow> True | _ \<Rightarrow> False)"

fun valid_reminder_owner :: "producer_owner \<Rightarrow> reminder_identity option \<Rightarrow> bool" where
  "valid_reminder_owner owner reminder =
     (case (owner, reminder) of
        (OwnerGoal goal_id, Some r) \<Rightarrow> goal_id = rm_goal r
      | (OwnerGoal _, None) \<Rightarrow> False
      | (_, Some _) \<Rightarrow> False
      | (_, None) \<Rightarrow> True)"

definition valid_hop_owner :: "producer_owner \<Rightarrow> nat option \<Rightarrow> bool" where
  "valid_hop_owner owner agent_hop \<longleftrightarrow> (agent_hop \<noteq> None) = is_agent owner"

definition next_reminder_kind :: "projection \<Rightarrow> goal_id \<Rightarrow> reminder_kind" where
  "next_reminder_kind p goal_id =
     (if list_ex (\<lambda>m. m_consumed m \<and> is_some_and (\<lambda>r. rm_goal r = goal_id) (m_reminder m)) (p_messages p)
      then Continuation else Started)"

text \<open>\<open>u32::saturating_add\<close> of one.\<close>

definition next_hop :: "nat \<Rightarrow> nat" where
  "next_hop deepest = min (deepest + 1) U32_MAX"

definition observed_by :: "projection \<Rightarrow> run_id \<Rightarrow> message_record \<Rightarrow> bool" where
  "observed_by p run m \<longleftrightarrow> is_agent (m_owner m)
     \<and> (m_consumed_run m = Some run
        \<or> is_some_and (\<lambda>(admitted_run, _). admitted_run = run) (m_admission m)
        \<or> list_ex (\<lambda>(_, claim). c_run claim = run \<and> m_id m \<in> set (c_messages claim)) (p_claims p))"

definition inherited_agent_hop :: "projection \<Rightarrow> run_id \<Rightarrow> nat" where
  "inherited_agent_hop p run =
     (case List.map_filter m_hop (filter (observed_by p run) (p_messages p)) of
        [] \<Rightarrow> 0
      | hop # hops \<Rightarrow> next_hop (fold max hops hop))"

definition pending :: "message_record \<Rightarrow> bool" where
  "pending m \<longleftrightarrow> \<not> m_consumed m \<and> \<not> m_discarded m"

subsection \<open>Changing messages\<close>

text \<open>A loop over indexes that changes each message, and one that tests each.\<close>

fun change_each :: "(message_record \<Rightarrow> message_record) \<Rightarrow> message_record list \<Rightarrow> nat list \<Rightarrow>
    message_record list option" where
  "change_each u ms [] = Some ms"
| "change_each u ms (i # is) = do { m \<leftarrow> nth_opt ms i; change_each u (ms[i := u m]) is }"

fun all_at :: "(message_record \<Rightarrow> bool) \<Rightarrow> message_record list \<Rightarrow> nat list \<Rightarrow> bool option" where
  "all_at P ms [] = Some True"
| "all_at P ms (i # is) = do { m \<leftarrow> nth_opt ms i; if P m then all_at P ms is else Some False }"

definition set_messages :: "message_record list \<Rightarrow> producer_fold \<Rightarrow> producer_fold" where
  "set_messages ms f = f\<lparr>f_projection := (f_projection f)\<lparr>p_messages := ms\<rparr>\<rparr>"

definition messages_of :: "producer_fold \<Rightarrow> message_record list" where
  "messages_of f = p_messages (f_projection f)"

definition change_at :: "producer_fold \<Rightarrow> nat \<Rightarrow> (message_record \<Rightarrow> message_record) \<Rightarrow> producer_fold option" where
  "change_at f i u = map_option (\<lambda>ms. set_messages ms f) (change_each u (messages_of f) [i])"

definition reject :: "seq \<Rightarrow> string \<Rightarrow> producer_fold \<Rightarrow> producer_fold" where
  "reject at reason f =
     f\<lparr>f_projection := (f_projection f)\<lparr>p_invalid := p_invalid (f_projection f) @ [(at, reason)]\<rparr>\<rparr>"

subsection \<open>Observing an event\<close>

definition observe_goal_event :: "producer_fold \<Rightarrow> log_event \<Rightarrow>
    (projection \<Rightarrow> projection) \<Rightarrow> producer_fold" where
  "observe_goal_event f e select =
     (case goal_observe (f_goals f) e of
        (goals, Inr _) \<Rightarrow>
          f\<lparr>f_goals := goals, f_projection := (select (f_projection f))\<lparr>p_goal := gf_goal goals\<rparr>\<rparr>
      | (goals, Inl reason) \<Rightarrow> reject (le_seq e) reason (f\<lparr>f_goals := goals\<rparr>))"

text \<open>\<open>ProducerMessageAccepted\<close>: a repeated acceptance changes nothing.\<close>

definition accepted_record :: "acceptance \<Rightarrow> seq \<Rightarrow> message_record" where
  "accepted_record a at =
     \<lparr>m_id = ac_message a, m_owner = ac_owner a, m_mode = ac_mode a, m_key = ac_key a,
      m_description = ac_description a, m_body = ac_body a, m_reminder = ac_reminder a,
      m_hop = ac_hop a, m_accepted = at, m_admission = None, m_claims = {}, m_consumed = False,
      m_discarded = False, m_discarded_seq = None, m_recorded = False, m_consumed_run = None\<rparr>"

definition same_acceptance :: "message_record \<Rightarrow> acceptance \<Rightarrow> bool" where
  "same_acceptance prior a \<longleftrightarrow> m_id prior = ac_message a \<and> m_mode prior = ac_mode a
     \<and> m_description prior = ac_description a \<and> m_body prior = ac_body a
     \<and> m_reminder prior = ac_reminder a"

definition observe_accepted :: "producer_fold \<Rightarrow> seq \<Rightarrow> acceptance \<Rightarrow> producer_fold option" where
  "observe_accepted f at a =
     (if \<not> valid_reminder_owner (ac_owner a) (ac_reminder a)
      then Some (reject at ''invalid producer reminder ownership'' f)
      else if \<not> valid_hop_owner (ac_owner a) (ac_hop a)
      then Some (reject at ''invalid producer hop ownership'' f)
      else case hm_get (f_dedup_indexes f) (ac_owner a, ac_key a) of
        Some index \<Rightarrow> do {
          prior \<leftarrow> nth_opt (messages_of f) index;
          if same_acceptance prior a then Some f
          else Some (reject at ''conflicting producer idempotency key'' f) }
      | None \<Rightarrow>
          if hm_get (f_message_indexes f) (ac_message a) \<noteq> None
          then Some (reject at ''conflicting producer message id'' f)
          else let index = length (messages_of f)
            in Some ((set_messages (messages_of f @ [accepted_record a at]) f)
              \<lparr>f_message_indexes := hm_insert (ac_message a) index (f_message_indexes f),
               f_dedup_indexes := hm_insert (ac_owner a, ac_key a) index (f_dedup_indexes f)\<rparr>))"

definition observe_admitted :: "producer_fold \<Rightarrow> seq \<Rightarrow> run_id option \<Rightarrow> message_id \<Rightarrow> producer_fold option" where
  "observe_admitted f at event_run message =
     (case event_run of
        None \<Rightarrow> Some (reject at ''producer admission is missing run id'' f)
      | Some run \<Rightarrow>
          if run \<in> f_terminal_runs f then Some (reject at ''producer admission targets a terminal run'' f)
          else case hm_get (f_message_indexes f) message of
            None \<Rightarrow> Some (reject at ''producer admission has no accepted message'' f)
          | Some index \<Rightarrow> do {
              m \<leftarrow> nth_opt (messages_of f) index;
              let replaceable = is_some_and (\<lambda>(prior_run, _). prior_run \<noteq> run
                    \<and> prior_run \<in> f_terminal_runs f) (m_admission m)
              in if m_consumed m \<or> m_discarded_seq m \<noteq> None \<or> m_admission m \<noteq> None \<and> \<not> replaceable
                 then Some (reject at ''invalid producer admission'' f)
                 else change_at f index (m_admission_update (\<lambda>_. Some (run, at))) })"

text \<open>\<open>ProducerMessagesClaimed\<close>: one invalid message makes the whole claim invalid.\<close>

definition claimable :: "seq \<Rightarrow> run_id \<Rightarrow> message_record \<Rightarrow> bool" where
  "claimable at run m \<longleftrightarrow> m_accepted m < at \<and> \<not> m_consumed m \<and> m_discarded_seq m = None
     \<and> is_some_and (\<lambda>(admission_run, admission_seq). admission_run = run \<and> admission_seq < at) (m_admission m)"

definition observe_claimed :: "producer_fold \<Rightarrow> seq \<Rightarrow> run_id option \<Rightarrow> message_id list \<Rightarrow> producer_fold option" where
  "observe_claimed f at event_run message_ids =
     (case event_run of
        None \<Rightarrow> Some (reject at ''producer claim is missing run id'' f)
      | Some run \<Rightarrow>
          let unique = set message_ids;
              indexes = List.map_filter (hm_get (f_message_indexes f)) message_ids
          in do {
            valid \<leftarrow>
              (if message_ids \<noteq> [] \<and> card unique = length message_ids
                   \<and> length indexes = length message_ids
                   \<and> hm_get (p_claims (f_projection f)) at = None
               then all_at (claimable at run) (messages_of f) indexes else Some False);
            if \<not> valid then Some (reject at ''invalid producer claim'' f)
            else do {
              ms \<leftarrow> change_each (m_claims_update (insert at)) (messages_of f) indexes;
              Some (f\<lparr>f_projection := (f_projection f)\<lparr>p_messages := ms,
                p_claims := hm_insert at \<lparr>c_run = run, c_messages = message_ids\<rparr>
                  (p_claims (f_projection f))\<rparr>\<rparr>) } })"

definition observe_released :: "producer_fold \<Rightarrow> seq \<Rightarrow> run_id option \<Rightarrow> seq \<Rightarrow> producer_fold option" where
  "observe_released f at event_run claim_seq =
     (case event_run of
        None \<Rightarrow> Some (reject at ''producer release is missing run id'' f)
      | Some run \<Rightarrow>
          (case hm_get (p_claims (f_projection f)) claim_seq of
             None \<Rightarrow> Some (reject at ''producer release has no claim'' f)
           | Some claim \<Rightarrow>
               if claim_seq = 0 \<or> c_run claim \<noteq> run
               then Some (reject at ''producer release ownership is invalid'' f)
               else do {
                 ms \<leftarrow> change_each (m_claims_update (\<lambda>s. s - {claim_seq})) (messages_of f)
                   (List.map_filter (hm_get (f_message_indexes f)) (c_messages claim));
                 Some (f\<lparr>f_projection := (f_projection f)\<lparr>p_messages := ms,
                   p_claims := hm_remove claim_seq (p_claims (f_projection f))\<rparr>\<rparr>) }))"

text \<open>\<open>ModelTurnCommitted\<close>: the input a turn covered is consumed by its run.\<close>

definition covered :: "run_id \<Rightarrow> seq \<Rightarrow> message_record \<Rightarrow> bool" where
  "covered run input_through m \<longleftrightarrow> \<not> m_consumed m
     \<and> is_some_and (\<lambda>(admission_run, admission_seq). admission_run = run \<and> admission_seq \<le> input_through) (m_admission m)
     \<and> is_none_or (\<lambda>discarded_seq. discarded_seq > input_through) (m_discarded_seq m)"

definition consume :: "run_id \<Rightarrow> message_record \<Rightarrow> message_record" where
  "consume run m = m\<lparr>m_discarded := False, m_discarded_seq := None, m_consumed := True,
     m_consumed_run := Some run\<rparr>"

definition observe_committed :: "producer_fold \<Rightarrow> run_id option \<Rightarrow> seq \<Rightarrow> producer_fold" where
  "observe_committed f event_run input_through =
     (case event_run of
        None \<Rightarrow> f
      | Some run \<Rightarrow>
          if \<not> list_ex (covered run input_through) (messages_of f) then f
          else set_messages (map (\<lambda>m. if covered run input_through m then consume run m else m)
                 (messages_of f)) f)"

definition observe_consumed :: "producer_fold \<Rightarrow> seq \<Rightarrow> run_id option \<Rightarrow> message_id \<Rightarrow> run_id \<Rightarrow>
    producer_fold option" where
  "observe_consumed f at event_run message run =
     (case hm_get (f_message_indexes f) message of
        None \<Rightarrow> Some (reject at ''producer consumption has no accepted message'' f)
      | Some index \<Rightarrow> do {
          m \<leftarrow> nth_opt (messages_of f) index;
          if event_run \<noteq> Some run \<or> map_option fst (m_admission m) \<noteq> Some run
             \<or> m_consumed_run m \<noteq> Some run \<or> m_recorded m
          then Some (reject at ''invalid producer consumption marker'' f)
          else change_at f index (m_recorded_update (\<lambda>_. True)) })"

definition observe_discarded :: "producer_fold \<Rightarrow> seq \<Rightarrow> message_id \<Rightarrow> reminder_identity option \<Rightarrow>
    producer_owner \<Rightarrow> producer_fold option" where
  "observe_discarded f at message reminder owner =
     (case hm_get (f_message_indexes f) message of
        None \<Rightarrow> Some (reject at ''producer discard has no accepted message'' f)
      | Some index \<Rightarrow> do {
          m \<leftarrow> nth_opt (messages_of f) index;
          let identity_matches = owner = m_owner m
                \<and> is_none_or (\<lambda>identity. m_reminder m = Some identity) reminder
          in if \<not> identity_matches \<or> m_consumed m \<or> m_claims m \<noteq> {}
             then Some (reject at ''invalid producer message discard'' f)
             else if m_discarded_seq m = None
             then change_at f index (\<lambda>m. m\<lparr>m_discarded := True, m_discarded_seq := Some at\<rparr>)
             else Some f })"

fun producer_observe :: "producer_fold \<Rightarrow> log_event \<Rightarrow> producer_fold option" where
  "producer_observe f e =
     (case le_payload e of
        GoalActivated _ _ _ selection \<Rightarrow> Some (observe_goal_event f e (p_selection_update (\<lambda>_. selection)))
      | GoalChecklistRevised _ _ _ \<Rightarrow> Some (observe_goal_event f e (\<lambda>p. p))
      | GoalLifecycleChanged _ _ _ selection \<Rightarrow>
          Some (observe_goal_event f e (case selection of None \<Rightarrow> (\<lambda>p. p)
            | Some s \<Rightarrow> p_selection_update (\<lambda>_. Some s)))
      | ProducerMessageAccepted a \<Rightarrow> observe_accepted f (le_seq e) a
      | ProducerMessageAdmitted message \<Rightarrow> observe_admitted f (le_seq e) (le_run e) message
      | ProducerMessagesClaimed message_ids \<Rightarrow> observe_claimed f (le_seq e) (le_run e) message_ids
      | ProducerMessagesReleased claim_seq \<Rightarrow> observe_released f (le_seq e) (le_run e) claim_seq
      | ModelTurnCommitted input_through \<Rightarrow> Some (observe_committed f (le_run e) input_through)
      | ProducerMessageConsumed message run \<Rightarrow> observe_consumed f (le_seq e) (le_run e) message run
      | ProducerMessageDiscarded message reminder owner \<Rightarrow> observe_discarded f (le_seq e) message reminder owner
      | RunFinished \<Rightarrow> Some (case le_run e of None \<Rightarrow> f
          | Some run \<Rightarrow> f\<lparr>f_terminal_runs := insert run (f_terminal_runs f)\<rparr>)
      | OtherEvent \<Rightarrow> Some f)"

declare producer_observe.simps [simp del] valid_reminder_owner.simps [simp del]

text \<open>\<open>GoalProducerProjection::from_events\<close>.\<close>

fun producer_events :: "producer_fold \<Rightarrow> log_event list \<Rightarrow> producer_fold option" where
  "producer_events f [] = Some f"
| "producer_events f (e # es) = do { f' \<leftarrow> producer_observe f e; producer_events f' es }"

definition from_events :: "log_event list \<Rightarrow> projection option" where
  "from_events es = map_option f_projection (producer_events producer_fold_new es)"

definition goal_tools_offered :: "bool \<Rightarrow> bool \<Rightarrow> log_event list \<Rightarrow> bool option" where
  "goal_tools_offered root acp es =
     (if \<not> root then Some False
      else if \<not> acp then Some True
      else map_option (\<lambda>p. is_some_and (\<lambda>goal. g_status goal = Active \<or> g_status goal = Paused) (p_goal p))
        (from_events es))"

definition producer_state_pending :: "log_event list \<Rightarrow> bool option" where
  "producer_state_pending es = map_option (\<lambda>p. p_goal p \<noteq> None
     \<or> list_ex (\<lambda>m. pending m \<or> m_consumed m \<and> \<not> m_recorded m) (p_messages p)) (from_events es)"

subsection \<open>The invariant\<close>

text \<open>The two index maps find exactly the messages; a claim and the messages it names know each other.\<close>

definition index_ok :: "('k \<times> nat) list \<Rightarrow> (message_record \<Rightarrow> 'k) \<Rightarrow> message_record list \<Rightarrow> bool" where
  "index_ok indexes key ms \<longleftrightarrow>
     (\<forall>k i. hm_get indexes k = Some i \<longleftrightarrow> i < length ms \<and> key (ms ! i) = k)"

definition dedup_key :: "message_record \<Rightarrow> producer_owner \<times> string" where
  "dedup_key m = (m_owner m, m_key m)"

definition message_ok :: "message_record \<Rightarrow> bool" where
  "message_ok m \<longleftrightarrow> valid_reminder_owner (m_owner m) (m_reminder m)
     \<and> valid_hop_owner (m_owner m) (m_hop m)
     \<and> (m_discarded m \<longleftrightarrow> m_discarded_seq m \<noteq> None)
     \<and> m_consumed_run m = (if m_consumed m then map_option fst (m_admission m) else None)
     \<and> (m_consumed m \<longrightarrow> m_admission m \<noteq> None \<and> \<not> m_discarded m)
     \<and> (m_recorded m \<longrightarrow> m_consumed m)
     \<and> (m_claims m \<noteq> {} \<longrightarrow> \<not> m_discarded m)"

definition claim_ok :: "(seq, claim_record) hash_map \<Rightarrow> run_id set \<Rightarrow> message_record \<Rightarrow> bool" where
  "claim_ok claims terminal m \<longleftrightarrow>
     (\<forall>at. at \<in> m_claims m \<longleftrightarrow> is_some_and (\<lambda>c. m_id m \<in> set (c_messages c)) (hm_get claims at))
     \<and> (\<forall>at c. hm_get claims at = Some c \<longrightarrow> m_id m \<in> set (c_messages c) \<longrightarrow> c_run c \<notin> terminal \<longrightarrow>
          map_option fst (m_admission m) = Some (c_run c))"

definition producer_ok :: "producer_fold \<Rightarrow> bool" where
  "producer_ok f \<longleftrightarrow> index_ok (f_message_indexes f) m_id (messages_of f)
     \<and> index_ok (f_dedup_indexes f) dedup_key (messages_of f)
     \<and> hm_ok (p_claims (f_projection f))
     \<and> (\<forall>m \<in> set (messages_of f). message_ok m \<and> claim_ok (p_claims (f_projection f)) (f_terminal_runs f) m)
     \<and> (\<forall>at c. hm_get (p_claims (f_projection f)) at = Some c \<longrightarrow>
          set (c_messages c) \<subseteq> m_id ` set (messages_of f))
     \<and> p_goal (f_projection f) = gf_goal (f_goals f)"

lemma index_ok_get: "index_ok indexes key ms \<Longrightarrow> hm_get indexes k = Some i \<longleftrightarrow> i < length ms \<and> key (ms ! i) = k"
  by (simp add: index_ok_def)

lemma index_ok_None:
  assumes "index_ok indexes key ms"
  shows "hm_get indexes k = None \<longleftrightarrow> k \<notin> key ` set ms"
proof -
  have "(\<exists>i. hm_get indexes k = Some i) \<longleftrightarrow> k \<in> key ` set ms"
    using assms by (force simp: index_ok_def in_set_conv_nth)
  then show ?thesis by (cases "hm_get indexes k") auto
qed

lemma index_ok_distinct:
  assumes "index_ok indexes key ms"
  shows "distinct (map key ms)"
  unfolding distinct_conv_nth
proof (intro allI impI)
  fix i j
  assume "i < length (map key ms)" "j < length (map key ms)" "i \<noteq> j"
  with assms show "map key ms ! i \<noteq> map key ms ! j"
    using index_ok_get [of indexes key ms "key (ms ! i)" i] index_ok_get [of indexes key ms "key (ms ! i)" j]
    by auto
qed

lemma index_ok_append:
  assumes "index_ok indexes key ms" and "hm_get indexes (key m) = None"
  shows "index_ok (hm_insert (key m) (length ms) indexes) key (ms @ [m])"
proof -
  have "key m \<notin> key ` set ms"
    using assms(2) by (simp add: index_ok_None [OF assms(1)])
  then have "i < length ms \<Longrightarrow> key (ms ! i) \<noteq> key m" for i
    by (metis image_eqI nth_mem)
  then show ?thesis
    using assms(1) by (auto simp: index_ok_def hm_get_insert nth_append less_Suc_eq)
qed

lemma index_ok_map:
  assumes "index_ok indexes key ms" and "\<And>m. key (u m) = key m"
  shows "index_ok indexes key (map u ms)"
  using assms by (auto simp: index_ok_def)

text \<open>Changing the message found under an ID is a map over the messages.\<close>

definition on_ids :: "message_id set \<Rightarrow> (message_record \<Rightarrow> message_record) \<Rightarrow> message_record \<Rightarrow> message_record" where
  "on_ids ids u m = (if m_id m \<in> ids then u m else m)"

lemma update_is_map:
  assumes "index_ok indexes m_id ms" and "hm_get indexes x = Some i"
  shows "ms[i := u (ms ! i)] = map (on_ids {x} u) ms"
proof (rule nth_equalityI)
  fix j assume "j < length (ms[i := u (ms ! i)])"
  then have "j < length ms" by simp
  moreover have "m_id (ms ! j) = x \<longleftrightarrow> j = i"
    using assms(2) index_ok_get [OF assms(1), of x j] \<open>j < length ms\<close> by auto
  ultimately show "ms[i := u (ms ! i)] ! j = map (on_ids {x} u) ms ! j"
    by (simp add: on_ids_def nth_list_update)
qed simp

lemma change_each_map:
  assumes "index_ok indexes m_id ms" and "\<And>m. m_id (u m) = m_id m" and "\<And>m. u (u m) = u m"
  shows "change_each u ms (List.map_filter (hm_get indexes) ids) = Some (map (on_ids (set ids) u) ms)"
  using assms(1)
proof (induction ids arbitrary: ms)
  case Nil
  then show ?case by (simp add: on_ids_def map_filter_simps map_idI)
next
  case (Cons x ids)
  show ?case
  proof (cases "hm_get indexes x")
    case None
    then have "map (on_ids (set ids) u) ms = map (on_ids (set (x # ids)) u) ms"
      using index_ok_None [OF Cons.prems] by (auto simp: on_ids_def)
    then show ?thesis
      using None Cons by (simp add: map_filter_simps)
  next
    case (Some i)
    let ?ms = "map (on_ids {x} u) ms"
    have "index_ok indexes m_id ?ms"
      using Cons.prems by (rule index_ok_map) (simp add: on_ids_def assms(2))
    then have "change_each u ?ms (List.map_filter (hm_get indexes) ids) = Some (map (on_ids (set ids) u) ?ms)"
      by (rule Cons.IH)
    moreover have "map (on_ids (set ids) u) ?ms = map (on_ids (set (x # ids)) u) ms"
      by (auto simp: on_ids_def assms(2,3))
    moreover have "nth_opt ms i = Some (ms ! i)"
      using Some index_ok_get [OF Cons.prems] by (simp add: nth_opt_def)
    ultimately show ?thesis
      using Some update_is_map [OF Cons.prems Some] by (simp add: map_filter_simps)
  qed
qed

lemma change_at_map:
  assumes "index_ok (f_message_indexes f) m_id (messages_of f)"
    and "hm_get (f_message_indexes f) x = Some i"
  shows "change_at f i u = Some (set_messages (map (on_ids {x} u) (messages_of f)) f)"
  using assms index_ok_get [OF assms(1), of x i]
  by (simp add: change_at_def nth_opt_def update_is_map [OF assms])

lemma all_at_all:
  "\<forall>i \<in> set is. i < length ms \<Longrightarrow> all_at P ms is = Some (\<forall>i \<in> set is. P (ms ! i))"
  by (induction "is") (auto simp: nth_opt_def)

subsection \<open>What a step can do\<close>

text \<open>
  The contract of the fold: each kind of step with what it finds. A message found by its ID
  stands for the one at its index.
\<close>

inductive producer_step :: "producer_fold \<Rightarrow> producer_fold \<Rightarrow> bool" where
  stays: "producer_step f f"
| rejected: "producer_step f (reject at reason f)"
| goal: "goal_observe (f_goals f) e = (g, Inr ()) \<Longrightarrow>
    producer_step f (f\<lparr>f_goals := g,
      f_projection := (f_projection f)\<lparr>p_selection := s, p_goal := gf_goal g\<rparr>\<rparr>)"
| accepted: "valid_reminder_owner (ac_owner a) (ac_reminder a) \<Longrightarrow> valid_hop_owner (ac_owner a) (ac_hop a) \<Longrightarrow>
    hm_get (f_dedup_indexes f) (ac_owner a, ac_key a) = None \<Longrightarrow>
    hm_get (f_message_indexes f) (ac_message a) = None \<Longrightarrow>
    producer_step f ((set_messages (messages_of f @ [accepted_record a at]) f)
      \<lparr>f_message_indexes := hm_insert (ac_message a) (length (messages_of f)) (f_message_indexes f),
       f_dedup_indexes := hm_insert (ac_owner a, ac_key a) (length (messages_of f)) (f_dedup_indexes f)\<rparr>)"
| admitted: "run \<notin> f_terminal_runs f \<Longrightarrow>
    (\<And>m. m \<in> set (messages_of f) \<Longrightarrow> m_id m = x \<Longrightarrow> \<not> m_consumed m \<and> m_discarded_seq m = None
      \<and> (\<forall>prior q. m_admission m = Some (prior, q) \<longrightarrow> prior \<in> f_terminal_runs f)) \<Longrightarrow>
    producer_step f (set_messages (map (on_ids {x} (m_admission_update (\<lambda>_. Some (run, at)))) (messages_of f)) f)"
| claimed: "ids \<noteq> [] \<Longrightarrow> distinct ids \<Longrightarrow> set ids \<subseteq> m_id ` set (messages_of f) \<Longrightarrow>
    hm_get (p_claims (f_projection f)) at = None \<Longrightarrow>
    (\<And>m. m \<in> set (messages_of f) \<Longrightarrow> m_id m \<in> set ids \<Longrightarrow> claimable at run m) \<Longrightarrow>
    producer_step f (f\<lparr>f_projection := (f_projection f)\<lparr>
      p_messages := map (on_ids (set ids) (m_claims_update (insert at))) (messages_of f),
      p_claims := hm_insert at \<lparr>c_run = run, c_messages = ids\<rparr> (p_claims (f_projection f))\<rparr>\<rparr>)"
| released: "hm_get (p_claims (f_projection f)) at = Some c \<Longrightarrow>
    producer_step f (f\<lparr>f_projection := (f_projection f)\<lparr>
      p_messages := map (on_ids (set (c_messages c)) (m_claims_update (\<lambda>s. s - {at}))) (messages_of f),
      p_claims := hm_remove at (p_claims (f_projection f))\<rparr>\<rparr>)"
| committed: "producer_step f (set_messages
    (map (\<lambda>m. if covered run through m then consume run m else m) (messages_of f)) f)"
| recorded: "(\<And>m. m \<in> set (messages_of f) \<Longrightarrow> m_id m = x \<Longrightarrow> m_consumed_run m \<noteq> None) \<Longrightarrow>
    producer_step f (set_messages (map (on_ids {x} (m_recorded_update (\<lambda>_. True))) (messages_of f)) f)"
| discarded: "(\<And>m. m \<in> set (messages_of f) \<Longrightarrow> m_id m = x \<Longrightarrow> \<not> m_consumed m \<and> m_claims m = {}) \<Longrightarrow>
    producer_step f (set_messages
      (map (on_ids {x} (\<lambda>m. m\<lparr>m_discarded := True, m_discarded_seq := Some at\<rparr>)) (messages_of f)) f)"
| ended: "producer_step f (f\<lparr>f_terminal_runs := insert run (f_terminal_runs f)\<rparr>)"

definition steps_to :: "producer_fold \<Rightarrow> producer_fold option \<Rightarrow> bool" where
  "steps_to f r \<longleftrightarrow> is_some_and (producer_step f) r"

lemma steps_to_Some [simp]: "steps_to f (Some f') \<longleftrightarrow> producer_step f f'"
  by (simp add: steps_to_def)

lemma producer_ok_indexes:
  assumes "producer_ok f"
  shows "index_ok (f_message_indexes f) m_id (messages_of f)"
    and "index_ok (f_dedup_indexes f) dedup_key (messages_of f)"
  using assms by (simp_all add: producer_ok_def)

text \<open>An ID that the index map knows is that of one message.\<close>

lemma found_message:
  assumes "producer_ok f" and "hm_get (f_message_indexes f) x = Some i"
  obtains m where "nth_opt (messages_of f) i = Some m" and "m \<in> set (messages_of f)" and "m_id m = x"
    and "\<And>m'. m' \<in> set (messages_of f) \<Longrightarrow> m_id m' = x \<Longrightarrow> m' = m"
proof -
  note get = index_ok_get [OF producer_ok_indexes(1) [OF assms(1)]]
  have i: "i < length (messages_of f)" "m_id (messages_of f ! i) = x"
    using assms(2) get by auto
  have "m' = messages_of f ! i" if "m' \<in> set (messages_of f)" "m_id m' = x" for m'
    using that i index_ok_distinct [OF producer_ok_indexes(1) [OF assms(1)]]
    by (metis eq_key_imp_eq_value distinct_map inj_onD nth_mem)
  then show thesis
    using i by (intro that [of "messages_of f ! i"]) (auto simp: nth_opt_def)
qed

lemmas found_change = change_at_map [OF producer_ok_indexes(1)]

lemma observe_goal_event_step:
  assumes "\<And>p. \<exists>s. select p = p\<lparr>p_selection := s\<rparr>"
  shows "producer_step f (observe_goal_event f e select)"
proof -
  obtain g r where gr: "goal_observe (f_goals f) e = (g, r)" by fastforce
  show ?thesis
  proof (cases r)
    case (Inl reason)
    then show ?thesis
      using gr goal_observe_error [of "f_goals f" e g reason]
      by (simp add: observe_goal_event_def producer_step.rejected)
  next
    case (Inr u)
    obtain s where "select (f_projection f) = (f_projection f)\<lparr>p_selection := s\<rparr>"
      using assms by blast
    then show ?thesis
      using gr Inr producer_step.goal [of f e g s] by (simp add: observe_goal_event_def)
  qed
qed

lemma observe_accepted_step:
  assumes "producer_ok f"
  shows "steps_to f (observe_accepted f at a)"
proof (cases "hm_get (f_dedup_indexes f) (ac_owner a, ac_key a)")
  case None
  then show ?thesis
    by (auto simp: observe_accepted_def Let_def intro: producer_step.rejected producer_step.accepted)
next
  case (Some i)
  then have "i < length (messages_of f)"
    using index_ok_get [OF producer_ok_indexes(2) [OF assms]] by simp
  with Some show ?thesis
    by (auto simp: observe_accepted_def nth_opt_def intro: producer_step.rejected producer_step.stays)
qed

lemma observe_admitted_step:
  assumes "producer_ok f"
  shows "steps_to f (observe_admitted f at event_run x)"
proof (cases event_run)
  case (Some run)
  show ?thesis
  proof (cases "hm_get (f_message_indexes f) x")
    case None
    with Some show ?thesis by (simp add: observe_admitted_def producer_step.rejected)
  next
    case index: (Some i)
    from found_message [OF assms this] obtain m where m: "nth_opt (messages_of f) i = Some m"
      "\<And>m'. m' \<in> set (messages_of f) \<Longrightarrow> m_id m' = x \<Longrightarrow> m' = m" by metis
    then show ?thesis
      using Some index found_change [OF assms index]
      by (auto simp: observe_admitted_def Let_def is_some_and_Some split: option.splits
          intro!: producer_step.rejected producer_step.admitted)
  qed
qed (simp add: observe_admitted_def producer_step.rejected)

lemma in_map_filter: "i \<in> set (List.map_filter g xs) \<longleftrightarrow> (\<exists>x \<in> set xs. g x = Some i)"
  by (force simp: map_filter_def)

lemma map_filter_complete:
  "length (List.map_filter g xs) = length xs \<longleftrightarrow> (\<forall>x \<in> set xs. g x \<noteq> None)"
proof (induction xs)
  case (Cons x xs)
  have "length (List.map_filter g xs) \<le> length xs"
    by (simp add: map_filter_def)
  with Cons show ?case by (cases "g x") (auto simp: map_filter_simps)
qed (simp add: map_filter_simps)

lemma observe_claimed_step:
  assumes "producer_ok f"
  shows "steps_to f (observe_claimed f at event_run ids)"
proof (cases event_run)
  case (Some run)
  let ?is = "List.map_filter (hm_get (f_message_indexes f)) ids"
  note index = producer_ok_indexes(1) [OF assms]
  have bounded: "i < length (messages_of f) \<and> m_id (messages_of f ! i) \<in> set ids" if "i \<in> set ?is" for i
    using that index_ok_get [OF index] by (auto simp: in_map_filter)
  then have all: "all_at P (messages_of f) ?is = Some (\<forall>i \<in> set ?is. P (messages_of f ! i))" for P
    by (intro all_at_all) auto
  have change: "change_each (m_claims_update (insert at)) (messages_of f) ?is
      = Some (map (on_ids (set ids) (m_claims_update (insert at))) (messages_of f))"
    by (rule change_each_map [OF index]) simp_all
  have claimable: "claimable at run m"
    if "\<forall>i \<in> set ?is. claimable at run (messages_of f ! i)" and m: "m \<in> set (messages_of f)" "m_id m \<in> set ids" for m
  proof -
    obtain i where "i < length (messages_of f)" "messages_of f ! i = m"
      using m(1) by (auto simp: in_set_conv_nth)
    then have "i \<in> set ?is"
      using m(2) index_ok_get [OF index, of "m_id m" i] by (auto simp: in_map_filter)
    with that(1) \<open>messages_of f ! i = m\<close> show ?thesis by auto
  qed
  have known: "set ids \<subseteq> m_id ` set (messages_of f)" if "length ?is = length ids"
    using that index_ok_None [OF index] by (auto simp: map_filter_complete)
  show ?thesis
    using Some change claimable known producer_step.claimed [of ids f at run]
    by (auto simp: observe_claimed_def Let_def all steps_to_def card_distinct intro: producer_step.rejected)
qed (simp add: observe_claimed_def producer_step.rejected)

lemma observe_released_step:
  assumes "producer_ok f"
  shows "steps_to f (observe_released f at event_run claim_seq)"
proof -
  have "change_each (m_claims_update (\<lambda>s. s - {claim_seq})) (messages_of f)
        (List.map_filter (hm_get (f_message_indexes f)) ids)
      = Some (map (on_ids (set ids) (m_claims_update (\<lambda>s. s - {claim_seq}))) (messages_of f))" for ids
    by (rule change_each_map [OF producer_ok_indexes(1) [OF assms]]) simp_all
  then show ?thesis
    by (auto simp: observe_released_def split: option.splits intro: producer_step.rejected producer_step.released)
qed

lemma observe_consumed_step:
  assumes "producer_ok f"
  shows "steps_to f (observe_consumed f at event_run x run)"
proof (cases "hm_get (f_message_indexes f) x")
  case index: (Some i)
  from found_message [OF assms this] obtain m where "nth_opt (messages_of f) i = Some m"
    "\<And>m'. m' \<in> set (messages_of f) \<Longrightarrow> m_id m' = x \<Longrightarrow> m' = m" by metis
  then show ?thesis
    using index found_change [OF assms index]
    by (auto simp: observe_consumed_def intro!: producer_step.rejected producer_step.recorded)
qed (simp add: observe_consumed_def producer_step.rejected)

lemma observe_discarded_step:
  assumes "producer_ok f"
  shows "steps_to f (observe_discarded f at x reminder owner)"
proof (cases "hm_get (f_message_indexes f) x")
  case index: (Some i)
  from found_message [OF assms this] obtain m where "nth_opt (messages_of f) i = Some m"
    "\<And>m'. m' \<in> set (messages_of f) \<Longrightarrow> m_id m' = x \<Longrightarrow> m' = m" by metis
  then show ?thesis
    using index found_change [OF assms index]
    by (auto simp: observe_discarded_def Let_def
        intro!: producer_step.rejected producer_step.discarded producer_step.stays)
qed (simp add: observe_discarded_def producer_step.rejected)

lemma producer_observe_step:
  assumes "producer_ok f"
  shows "steps_to f (producer_observe f e)"
proof -
  have "\<exists>s. p = p\<lparr>p_selection := s\<rparr>" "\<exists>s'. p_selection_update (\<lambda>_. s) p = p\<lparr>p_selection := s'\<rparr>" for p :: projection and s
    by (cases p; auto)+
  then have "producer_step f (observe_goal_event f e (\<lambda>p. p))"
    "producer_step f (observe_goal_event f e (p_selection_update (\<lambda>_. s)))" for s
    by (auto intro!: observe_goal_event_step)
  then show ?thesis
    using observe_accepted_step [OF assms] observe_admitted_step [OF assms] observe_claimed_step [OF assms]
      observe_released_step [OF assms] observe_consumed_step [OF assms] observe_discarded_step [OF assms]
    by (auto simp: producer_observe.simps observe_committed_def split: log_payload.split option.split
        intro: producer_step.stays producer_step.committed producer_step.ended)
qed

subsection \<open>Every step keeps the invariant\<close>

lemma claim_ok_ids:
  assumes "claim_ok claims terminal m" and "m_id m' = m_id m" and "m_claims m' = m_claims m"
    and "\<And>r q. m_admission m = Some (r, q) \<Longrightarrow> r \<notin> terminal \<Longrightarrow> map_option fst (m_admission m') = Some r"
  shows "claim_ok claims terminal m'"
  unfolding claim_ok_def
proof (intro conjI allI impI)
  fix at c
  assume "hm_get claims at = Some c" "m_id m' \<in> set (c_messages c)" "c_run c \<notin> terminal"
  moreover from this have "map_option fst (m_admission m) = Some (c_run c)"
    using assms(1,2) by (auto simp: claim_ok_def)
  then obtain q where "m_admission m = Some (c_run c, q)" by auto
  ultimately show "map_option fst (m_admission m') = Some (c_run c)"
    using assms(4) by blast
qed (use assms(1-3) in \<open>auto simp: claim_ok_def\<close>)

lemma producer_ok_map:
  assumes "producer_ok f" and "\<And>m. m_id (u m) = m_id m" and "\<And>m. dedup_key (u m) = dedup_key m"
    and "\<And>m. m \<in> set (messages_of f) \<Longrightarrow> message_ok m \<Longrightarrow> claim_ok (p_claims (f_projection f)) (f_terminal_runs f) m \<Longrightarrow>
      message_ok (u m) \<and> claim_ok claims (f_terminal_runs f) (u m)"
    and "hm_ok claims"
    and "\<And>at c. hm_get claims at = Some c \<Longrightarrow> set (c_messages c) \<subseteq> m_id ` set (messages_of f)"
  shows "producer_ok (f\<lparr>f_projection := (f_projection f)\<lparr>p_messages := map u (messages_of f), p_claims := claims\<rparr>\<rparr>)"
proof -
  have "m_id ` u ` set (messages_of f) = m_id ` set (messages_of f)"
    by (auto simp: image_iff assms(2))
  then show ?thesis
    using assms by (auto simp: producer_ok_def messages_of_def intro: index_ok_map)
qed

lemma producer_ok_messages:
  assumes "producer_ok f" and "\<And>m. m_id (u m) = m_id m" and "\<And>m. dedup_key (u m) = dedup_key m"
    and "\<And>m. m \<in> set (messages_of f) \<Longrightarrow> message_ok m \<Longrightarrow> claim_ok (p_claims (f_projection f)) (f_terminal_runs f) m \<Longrightarrow>
      message_ok (u m) \<and> claim_ok (p_claims (f_projection f)) (f_terminal_runs f) (u m)"
  shows "producer_ok (set_messages (map u (messages_of f)) f)"
proof -
  have "set_messages (map u (messages_of f)) f = f\<lparr>f_projection := (f_projection f)
      \<lparr>p_messages := map u (messages_of f), p_claims := p_claims (f_projection f)\<rparr>\<rparr>"
    by (cases f; cases "f_projection f") (simp add: set_messages_def)
  moreover have "producer_ok \<dots>"
    using assms(1) by (intro producer_ok_map assms) (auto simp: producer_ok_def)
  ultimately show ?thesis by simp
qed

lemma dedup_key_updates [simp]:
  "dedup_key (m_admission_update a m) = dedup_key m"
  "dedup_key (m_claims_update b m) = dedup_key m"
  "dedup_key (m_recorded_update c m) = dedup_key m"
  "dedup_key (m_discarded_update d m) = dedup_key m"
  "dedup_key (m_discarded_seq_update g m) = dedup_key m"
  "dedup_key (m_consumed_update h m) = dedup_key m"
  "dedup_key (m_consumed_run_update j m) = dedup_key m"
  by (simp_all add: dedup_key_def)

lemma on_ids_keys [simp]:
  assumes "\<And>m. m_id (u m) = m_id m" and "\<And>m. dedup_key (u m) = dedup_key m"
  shows "m_id (on_ids ids u m) = m_id m" and "dedup_key (on_ids ids u m) = dedup_key m"
  using assms by (simp_all add: on_ids_def)

lemma ok_accepted:
  assumes "producer_ok f" and "valid_reminder_owner (ac_owner a) (ac_reminder a)"
    and "valid_hop_owner (ac_owner a) (ac_hop a)"
    and "hm_get (f_dedup_indexes f) (ac_owner a, ac_key a) = None"
    and "hm_get (f_message_indexes f) (ac_message a) = None"
  shows "producer_ok ((set_messages (messages_of f @ [accepted_record a at]) f)
      \<lparr>f_message_indexes := hm_insert (ac_message a) (length (messages_of f)) (f_message_indexes f),
       f_dedup_indexes := hm_insert (ac_owner a, ac_key a) (length (messages_of f)) (f_dedup_indexes f)\<rparr>)"
proof -
  let ?m = "accepted_record a at"
  have new: "m_id ?m = ac_message a" "dedup_key ?m = (ac_owner a, ac_key a)"
    by (simp_all add: accepted_record_def dedup_key_def)
  have "index_ok (hm_insert (ac_message a) (length (messages_of f)) (f_message_indexes f)) m_id (messages_of f @ [?m])"
    using index_ok_append [OF producer_ok_indexes(1) [OF assms(1)], of ?m] assms(5) by (simp add: new)
  moreover have "index_ok (hm_insert (ac_owner a, ac_key a) (length (messages_of f)) (f_dedup_indexes f)) dedup_key (messages_of f @ [?m])"
    using index_ok_append [OF producer_ok_indexes(2) [OF assms(1)], of ?m] assms(4) by (simp add: new)
  moreover have "message_ok ?m"
    using assms(2,3) by (simp add: message_ok_def accepted_record_def)
  moreover have "ac_message a \<notin> m_id ` set (messages_of f)"
    using assms(5) by (simp add: index_ok_None [OF producer_ok_indexes(1) [OF assms(1)]])
  then have "ac_message a \<notin> set (c_messages c)" if "hm_get (p_claims (f_projection f)) s = Some c" for s c
    using that assms(1) unfolding producer_ok_def by blast
  then have "claim_ok (p_claims (f_projection f)) (f_terminal_runs f) ?m"
    by (auto simp: claim_ok_def accepted_record_def is_some_and_Some)
  ultimately show ?thesis
    using assms(1) by (fastforce simp: producer_ok_def messages_of_def set_messages_def)
qed

lemma ok_admitted:
  assumes "producer_ok f" and "run \<notin> f_terminal_runs f"
    and free: "\<And>m. m \<in> set (messages_of f) \<Longrightarrow> m_id m = x \<Longrightarrow> \<not> m_consumed m \<and> m_discarded_seq m = None
      \<and> (\<forall>prior q. m_admission m = Some (prior, q) \<longrightarrow> prior \<in> f_terminal_runs f)"
  shows "producer_ok (set_messages (map (on_ids {x} (m_admission_update (\<lambda>_. Some (run, at)))) (messages_of f)) f)"
proof (rule producer_ok_messages [OF assms(1)])
  fix m
  assume m: "m \<in> set (messages_of f)" "message_ok m" "claim_ok (p_claims (f_projection f)) (f_terminal_runs f) m"
  let ?m = "on_ids {x} (m_admission_update (\<lambda>_. Some (run, at))) m"
  have "message_ok ?m"
    using m(2) free [OF m(1)] by (auto simp: message_ok_def on_ids_def)
  moreover have "claim_ok (p_claims (f_projection f)) (f_terminal_runs f) ?m"
    by (rule claim_ok_ids [OF m(3)]) (use free [OF m(1)] in \<open>auto simp: on_ids_def\<close>)
  ultimately show "message_ok ?m \<and> claim_ok (p_claims (f_projection f)) (f_terminal_runs f) ?m" ..
qed simp_all

lemma ok_claimed:
  assumes "producer_ok f" and "ids \<noteq> []" and "set ids \<subseteq> m_id ` set (messages_of f)"
    and free: "hm_get (p_claims (f_projection f)) at = None"
    and can: "\<And>m. m \<in> set (messages_of f) \<Longrightarrow> m_id m \<in> set ids \<Longrightarrow> claimable at run m"
  shows "producer_ok (f\<lparr>f_projection := (f_projection f)\<lparr>
      p_messages := map (on_ids (set ids) (m_claims_update (insert at))) (messages_of f),
      p_claims := hm_insert at \<lparr>c_run = run, c_messages = ids\<rparr> (p_claims (f_projection f))\<rparr>\<rparr>)"
proof (rule producer_ok_map [OF assms(1)])
  fix m
  assume m: "m \<in> set (messages_of f)" "message_ok m" "claim_ok (p_claims (f_projection f)) (f_terminal_runs f) m"
  let ?m = "on_ids (set ids) (m_claims_update (insert at)) m"
  let ?claims = "hm_insert at \<lparr>c_run = run, c_messages = ids\<rparr> (p_claims (f_projection f))"
  have "message_ok ?m"
    using m(2) can [OF m(1)] by (auto simp: message_ok_def on_ids_def claimable_def)
  moreover have "at \<notin> m_claims m"
    using m(3) free by (auto simp: claim_ok_def)
  then have "claim_ok ?claims (f_terminal_runs f) ?m"
    using m(3) can [OF m(1)] by (auto simp: claim_ok_def on_ids_def hm_get_insert claimable_def is_some_and_Some)
  ultimately show "message_ok ?m \<and> claim_ok ?claims (f_terminal_runs f) ?m" ..
qed (use assms in \<open>auto simp: hm_ok_insert hm_get_insert producer_ok_def split: if_splits\<close>)

lemma ok_released:
  assumes "producer_ok f" and "hm_get (p_claims (f_projection f)) at = Some c"
  shows "producer_ok (f\<lparr>f_projection := (f_projection f)\<lparr>
      p_messages := map (on_ids (set (c_messages c)) (m_claims_update (\<lambda>s. s - {at}))) (messages_of f),
      p_claims := hm_remove at (p_claims (f_projection f))\<rparr>\<rparr>)"
proof (rule producer_ok_map [OF assms(1)])
  have ok: "hm_ok (p_claims (f_projection f))"
    using assms(1) by (simp add: producer_ok_def)
  fix m
  assume m: "m \<in> set (messages_of f)" "message_ok m" "claim_ok (p_claims (f_projection f)) (f_terminal_runs f) m"
  let ?m = "on_ids (set (c_messages c)) (m_claims_update (\<lambda>s. s - {at})) m"
  have "message_ok ?m"
    using m(2) by (auto simp: message_ok_def on_ids_def)
  moreover have "claim_ok (hm_remove at (p_claims (f_projection f))) (f_terminal_runs f) ?m"
    using m(3) assms(2) by (auto simp: claim_ok_def on_ids_def hm_get_remove [OF ok])
  ultimately show "message_ok ?m \<and> claim_ok (hm_remove at (p_claims (f_projection f))) (f_terminal_runs f) ?m" ..
qed (use assms in \<open>auto simp: hm_ok_remove hm_get_remove producer_ok_def split: if_splits\<close>)

lemma ok_committed:
  assumes "producer_ok f"
  shows "producer_ok (set_messages (map (\<lambda>m. if covered run through m then consume run m else m) (messages_of f)) f)"
proof (rule producer_ok_messages [OF assms])
  fix m
  assume m: "m \<in> set (messages_of f)" "message_ok m" "claim_ok (p_claims (f_projection f)) (f_terminal_runs f) m"
  let ?m = "if covered run through m then consume run m else m"
  have "message_ok ?m"
    using m(2) by (auto simp: message_ok_def covered_def consume_def is_some_and_Some)
  moreover have "claim_ok (p_claims (f_projection f)) (f_terminal_runs f) ?m"
    by (rule claim_ok_ids [OF m(3)]) (auto simp: consume_def)
  ultimately show "message_ok ?m \<and> claim_ok (p_claims (f_projection f)) (f_terminal_runs f) ?m" ..
qed (simp_all add: consume_def)

text \<open>The steps that only mark a message.\<close>

lemma ok_marked:
  assumes "producer_ok f" and "\<And>m. m_id (u m) = m_id m" and "\<And>m. dedup_key (u m) = dedup_key m"
    and "\<And>m. m_claims (u m) = m_claims m \<and> m_admission (u m) = m_admission m"
    and "\<And>m. m \<in> set (messages_of f) \<Longrightarrow> m_id m = x \<Longrightarrow> message_ok m \<Longrightarrow> message_ok (u m)"
  shows "producer_ok (set_messages (map (on_ids {x} u) (messages_of f)) f)"
proof (rule producer_ok_messages [OF assms(1)])
  fix m
  assume m: "m \<in> set (messages_of f)" "message_ok m" "claim_ok (p_claims (f_projection f)) (f_terminal_runs f) m"
  show "message_ok (on_ids {x} u m) \<and> claim_ok (p_claims (f_projection f)) (f_terminal_runs f) (on_ids {x} u m)"
    using assms(5) [OF m(1)] m(2) claim_ok_ids [OF m(3), of "on_ids {x} u m"] assms(2,4)
    by (auto simp: on_ids_def)
qed (simp_all add: assms)

lemma producer_step_ok:
  assumes "producer_step f f'" and "producer_ok f"
  shows "producer_ok f'"
  using assms(1)
proof (cases rule: producer_step.cases)
  case (rejected at reason)
  with assms(2) show ?thesis by (simp add: producer_ok_def messages_of_def reject_def)
next
  case (goal e g s)
  with assms(2) show ?thesis by (simp add: producer_ok_def messages_of_def)
next
  case (recorded x)
  show ?thesis
    unfolding recorded(1)
    by (rule ok_marked [OF assms(2)])
      (use recorded(2) in \<open>fastforce simp: message_ok_def split: if_splits\<close>)+
next
  case (discarded x at)
  show ?thesis
    unfolding discarded(1)
    by (rule ok_marked [OF assms(2)])
      (use discarded(2) in \<open>auto simp: message_ok_def split: if_splits\<close>)
next
  case (ended run)
  with assms(2) show ?thesis by (auto simp: producer_ok_def messages_of_def claim_ok_def)
qed (use assms(2) in \<open>simp_all add: ok_accepted ok_admitted ok_claimed ok_released ok_committed\<close>)

text \<open>The fold as a total function: \<open>None\<close> is a panic, which the invariant excludes.\<close>

definition fold_next :: "producer_fold option \<Rightarrow> log_event \<Rightarrow> producer_fold option" where
  "fold_next r e = do { f \<leftarrow> r; producer_observe f e }"

lemma fold_next_simps [simp]: "fold_next None e = None" "fold_next (Some f) e = producer_observe f e"
  by (simp_all add: fold_next_def)

lemma producer_ok_new: "producer_ok producer_fold_new"
  by (simp add: producer_ok_def producer_fold_new_def messages_of_def index_ok_def hm_get_empty
      hm_ok_empty goal_fold_new_def)

interpretation producers: event_fold "Some producer_fold_new" fold_next "is_some_and producer_ok"
proof unfold_locales
  show "is_some_and producer_ok (Some producer_fold_new)"
    by (simp add: producer_ok_new)
  fix r e
  assume "is_some_and producer_ok r"
  then obtain f where "r = Some f" "producer_ok f" by (auto simp: is_some_and_Some)
  then show "is_some_and producer_ok (fold_next r e)"
    using producer_observe_step [of f e] producer_step_ok [of f]
    by (auto simp: fold_next_def steps_to_def is_some_and_Some)
qed

lemma fold_next_None: "foldl fold_next None es = None"
  by (induction es) simp_all

lemma producer_events_foldl: "producer_events f es = foldl fold_next (Some f) es"
proof (induction es arbitrary: f)
  case (Cons e es)
  then show ?case
    by (cases "producer_observe f e") (simp_all add: fold_next_None)
qed simp

lemma producer_events_total:
  assumes "producer_ok f"
  shows "\<exists>f'. producer_events f es = Some f' \<and> producer_ok f'"
  using producers.inv_foldl [of "Some f" es] assms by (simp add: producer_events_foldl is_some_and_Some)

lemma producer_events_append:
  "producer_events f (es @ es') = do { f' \<leftarrow> producer_events f es; producer_events f' es' }"
  by (induction es arbitrary: f) (auto split: Option.bind_split)

text \<open>A property that every step keeps holds between two points of a log.\<close>

lemma producer_events_steps:
  assumes "producer_ok f" and "producer_events f es = Some f'" and "R f f"
    and "\<And>g g'. producer_ok g \<Longrightarrow> R f g \<Longrightarrow> producer_step g g' \<Longrightarrow> R f g'"
  shows "R f f'"
proof -
  have "\<exists>g. producer_events f es = Some g \<and> producer_ok g \<and> R f g"
  proof (induction es rule: rev_induct)
    case (snoc e es)
    then obtain g where g: "producer_events f es = Some g" "producer_ok g" "R f g" by blast
    then obtain g' where "producer_observe g e = Some g'" "producer_step g g'"
      using producer_observe_step [of g e] by (auto simp: steps_to_def is_some_and_Some)
    with g assms(4) [OF g(2,3)] show ?case
      by (auto simp: producer_events_append intro: producer_step_ok)
  qed (use assms(1,3) in simp)
  with assms(2) show ?thesis by simp
qed

subsection \<open>What stays true of a message\<close>

definition same_message :: "message_record \<Rightarrow> message_record \<Rightarrow> bool" where
  "same_message m m' \<longleftrightarrow> m_id m' = m_id m \<and> m_owner m' = m_owner m \<and> m_mode m' = m_mode m
     \<and> m_key m' = m_key m \<and> m_description m' = m_description m \<and> m_body m' = m_body m
     \<and> m_reminder m' = m_reminder m \<and> m_hop m' = m_hop m \<and> m_accepted m' = m_accepted m"

definition message_follows :: "run_id set \<Rightarrow> message_record \<Rightarrow> message_record \<Rightarrow> bool" where
  "message_follows terminal m m' \<longleftrightarrow> same_message m m'
     \<and> (m_consumed m \<longrightarrow> m_consumed m' \<and> m_consumed_run m' = m_consumed_run m \<and> \<not> m_discarded m')
     \<and> (m_recorded m \<longrightarrow> m_recorded m')
     \<and> (\<forall>r q. m_admission m = Some (r, q) \<longrightarrow> r \<notin> terminal \<or> m_consumed m \<longrightarrow> m_admission m' = m_admission m)"

definition messages_follow :: "producer_fold \<Rightarrow> producer_fold \<Rightarrow> bool" where
  "messages_follow f f' \<longleftrightarrow> f_terminal_runs f \<subseteq> f_terminal_runs f'
     \<and> length (messages_of f) \<le> length (messages_of f')
     \<and> (\<forall>i < length (messages_of f).
          message_follows (f_terminal_runs f') (messages_of f ! i) (messages_of f' ! i))"

lemma messages_follow_map:
  assumes "messages_of f' = map u (messages_of f)" and "f_terminal_runs f' = f_terminal_runs f"
    and "\<And>m. m \<in> set (messages_of f) \<Longrightarrow> message_ok m \<Longrightarrow> message_follows (f_terminal_runs f) m (u m)"
    and "producer_ok f"
  shows "messages_follow f f'"
  using assms by (auto simp: messages_follow_def producer_ok_def)

lemma message_follows_refl: "message_ok m \<Longrightarrow> message_follows terminal m m"
  by (auto simp: message_follows_def same_message_def message_ok_def)

lemma messages_follow_refl: "producer_ok f \<Longrightarrow> messages_follow f f"
  by (auto simp: messages_follow_def producer_ok_def intro!: message_follows_refl)

lemma messages_set [simp]: "messages_of (set_messages ms f) = ms" "f_terminal_runs (set_messages ms f) = f_terminal_runs f"
  by (simp_all add: messages_of_def set_messages_def)

lemma producer_step_follow:
  assumes "producer_step f f'" and "producer_ok f"
  shows "messages_follow f f'"
  using assms(1)
proof (cases rule: producer_step.cases)
  case (rejected at reason)
  then show ?thesis
    using messages_follow_refl [OF assms(2)] by (simp add: messages_follow_def messages_of_def reject_def)
next
  case (goal e g s)
  then show ?thesis
    using messages_follow_refl [OF assms(2)] by (simp add: messages_follow_def messages_of_def)
next
  case (accepted a at)
  then show ?thesis
    using messages_follow_refl [OF assms(2)] by (auto simp: messages_follow_def messages_of_def set_messages_def nth_append)
next
  case (admitted run x at)
  show ?thesis
    by (rule messages_follow_map [of _ "on_ids {x} (m_admission_update (\<lambda>_. Some (run, at)))"])
      (use admitted assms(2) in \<open>fastforce simp: message_follows_def same_message_def message_ok_def on_ids_def\<close>)+
next
  case (claimed ids at run)
  show ?thesis
    by (rule messages_follow_map [of _ "on_ids (set ids) (m_claims_update (insert at))"])
      (use claimed assms(2) in \<open>auto simp: messages_of_def message_follows_def same_message_def message_ok_def on_ids_def\<close>)
next
  case (released at c)
  show ?thesis
    by (rule messages_follow_map [of _ "on_ids (set (c_messages c)) (m_claims_update (\<lambda>s. s - {at}))"])
      (use released assms(2) in \<open>auto simp: messages_of_def message_follows_def same_message_def message_ok_def on_ids_def\<close>)
next
  case (committed run through)
  show ?thesis
    by (rule messages_follow_map [of _ "\<lambda>m. if covered run through m then consume run m else m"])
      (use committed assms(2) in \<open>auto simp: covered_def consume_def message_follows_def same_message_def message_ok_def\<close>)
next
  case (recorded x)
  show ?thesis
    by (rule messages_follow_map [of _ "on_ids {x} (m_recorded_update (\<lambda>_. True))"])
      (use recorded assms(2) in \<open>auto simp: message_follows_def same_message_def message_ok_def on_ids_def\<close>)
next
  case (discarded x at)
  show ?thesis
    by (rule messages_follow_map [of _ "on_ids {x} (\<lambda>m. m\<lparr>m_discarded := True, m_discarded_seq := Some at\<rparr>)"])
      (use discarded assms(2) in \<open>auto simp: message_follows_def same_message_def message_ok_def on_ids_def\<close>)
next
  case (ended run)
  then show ?thesis
    using messages_follow_refl [OF assms(2)] by (fastforce simp: messages_follow_def messages_of_def message_follows_def)
qed (use messages_follow_refl [OF assms(2)] in simp)

lemma message_follows_trans:
  assumes "message_follows terminal m m'" and "message_follows terminal' m' m''" and "terminal \<subseteq> terminal'"
  shows "message_follows terminal' m m''"
proof -
  have "m_admission m'' = m_admission m"
    if "m_admission m = Some (r, q)" "r \<notin> terminal' \<or> m_consumed m" for r q
    using that assms by (auto simp: message_follows_def)
  then show ?thesis
    using assms(1,2) by (auto simp: message_follows_def same_message_def)
qed

lemma messages_follow_trans:
  assumes "messages_follow f f'" and "messages_follow f' f''"
  shows "messages_follow f f''"
  unfolding messages_follow_def
proof (intro conjI allI impI)
  fix i assume i: "i < length (messages_of f)"
  then have "message_follows (f_terminal_runs f') (messages_of f ! i) (messages_of f' ! i)"
    and "message_follows (f_terminal_runs f'') (messages_of f' ! i) (messages_of f'' ! i)"
    using assms by (auto simp: messages_follow_def)
  then show "message_follows (f_terminal_runs f'') (messages_of f ! i) (messages_of f'' ! i)"
    using assms(2) by (auto simp: messages_follow_def intro: message_follows_trans)
qed (use assms in \<open>auto simp: messages_follow_def\<close>)

lemma producer_events_follow:
  assumes "producer_ok f" and "producer_events f es = Some f'"
  shows "messages_follow f f'"
  using producer_events_steps [of f es f' messages_follow] assms messages_follow_refl
    messages_follow_trans producer_step_follow by blast

subsection \<open>Properties\<close>

lemma from_events_Some:
  assumes "from_events es = Some p"
  obtains f where "producer_events producer_fold_new es = Some f" and "producer_ok f" and "p = f_projection f"
  using assms producer_events_total [OF producer_ok_new, of es] by (auto simp: from_events_def)

lemma producer_goals:
  assumes "producer_observe f e = Some f'"
  shows "f_goals f' = goal_next (f_goals f) e"
proof -
  have unread: "goal_next g e = g" if "le_payload e = p"
    "\<And>i t r s. p \<noteq> GoalActivated i t r s" "\<And>i t r. p \<noteq> GoalChecklistRevised i t r"
    "\<And>i t r s. p \<noteq> GoalLifecycleChanged i t r s" for g p
    using that by (cases p) (auto simp: goal_next_def goal_observe.simps)
  have keep: "f_goals (reject at reason f) = f_goals f" "f_goals (set_messages ms f) = f_goals f" for at reason ms f
    by (simp_all add: reject_def set_messages_def)
  have goal: "f_goals (observe_goal_event f e s) = goal_next (f_goals f) e" for s
    by (auto simp: observe_goal_event_def goal_next_def reject_def split: prod.split sum.split)
  show ?thesis
    using assms
    by (cases "le_payload e")
      (auto simp: producer_observe.simps unread goal keep observe_accepted_def observe_admitted_def
        observe_claimed_def observe_released_def observe_committed_def observe_consumed_def
        observe_discarded_def change_at_def Let_def split: if_splits option.splits Option.bind_splits)
qed

lemma producer_goals_run:
  assumes "producer_events producer_fold_new es = Some f"
  shows "f_goals f = goals.run es"
  using assms
proof (induction es arbitrary: f rule: rev_induct)
  case Nil
  then show ?case by (auto simp: goals.run_def producer_fold_new_def)
next
  case (snoc e es)
  then obtain g where "producer_events producer_fold_new es = Some g" "producer_observe g e = Some f"
    by (auto simp: producer_events_append split: Option.bind_splits)
  with snoc.IH producer_goals show ?case by (simp add: goals.run_def)
qed

lemma next_reminder_stays:
  assumes "messages_follow f f'" and "next_reminder_kind (f_projection f) goal = Continuation"
  shows "next_reminder_kind (f_projection f') goal = Continuation"
proof -
  obtain i where i: "i < length (messages_of f)" "m_consumed (messages_of f ! i)"
    "is_some_and (\<lambda>r. rm_goal r = goal) (m_reminder (messages_of f ! i))"
    using assms(2) by (auto simp: next_reminder_kind_def list_ex_iff in_set_conv_nth messages_of_def split: if_splits)
  then have "m_consumed (messages_of f' ! i)" "m_reminder (messages_of f' ! i) = m_reminder (messages_of f ! i)"
    and "i < length (messages_of f')"
    using assms(1) by (auto simp: messages_follow_def message_follows_def same_message_def)
  moreover from this have "messages_of f' ! i \<in> set (messages_of f')" by simp
  ultimately show ?thesis
    using i(3) by (auto simp: next_reminder_kind_def list_ex_iff messages_of_def)
qed

definition sample_mail :: acceptance where
  "sample_mail = \<lparr>ac_message = 5, ac_owner = OwnerAgent 9, ac_mode = Steer, ac_key = ''k'',
     ac_description = ''d'', ac_body = ''b'', ac_reminder = None, ac_hop = Some 3\<rparr>"

definition sample_producer_log :: "log_event list" where
  "sample_producer_log =
     [\<lparr>le_run = None, le_seq = 1, le_payload = ProducerMessageAccepted sample_mail\<rparr>,
      \<lparr>le_run = Some 2, le_seq = 2, le_payload = ProducerMessageAdmitted 5\<rparr>,
      \<lparr>le_run = Some 2, le_seq = 3, le_payload = ProducerMessagesClaimed [5]\<rparr>]"

definition sample_commit :: "log_event list" where
  "sample_commit =
     [\<lparr>le_run = Some 2, le_seq = 4, le_payload = ProducerMessagesReleased 3\<rparr>,
      \<lparr>le_run = Some 2, le_seq = 5, le_payload = ModelTurnCommitted 2\<rparr>]"

definition sample_discard :: log_event where
  "sample_discard = \<lparr>le_run = None, le_seq = 6, le_payload = ProducerMessageDiscarded 5 None (OwnerAgent 9)\<rparr>"

definition sample_message :: message_record where
  "sample_message = (accepted_record sample_mail 1)\<lparr>m_admission := Some (2, 2), m_claims := {3}\<rparr>"

definition sample_projection :: projection where
  "sample_projection = \<lparr>p_goal = None, p_selection = None, p_messages = [sample_message],
     p_claims = [(3, \<lparr>c_run = 2, c_messages = [5]\<rparr>)], p_invalid = []\<rparr>"

definition sample_later :: projection where
  "sample_later = \<lparr>p_goal = None, p_selection = None,
     p_messages = [sample_message\<lparr>m_claims := {}, m_consumed := True, m_consumed_run := Some 2\<rparr>],
     p_claims = [], p_invalid = []\<rparr>"

lemmas producer_evaluation = producer_observe.simps producer_fold_new_def observe_accepted_def
  observe_admitted_def observe_claimed_def observe_released_def observe_committed_def
  observe_discarded_def change_at_def
  messages_of_def set_messages_def accepted_record_def claimable_def covered_def consume_def
  valid_reminder_owner.simps valid_hop_owner_def is_agent_def nth_opt_def hm_get_def hm_empty_def
  hm_remove_def hm_retain_def Let_def map_filter_simps reject_def

lemma sample_producer_run:
  "from_events sample_producer_log = Some sample_projection"
  "from_events (sample_producer_log @ sample_commit) = Some sample_later"
  "from_events ((sample_producer_log @ sample_commit) @ [sample_discard]) =
     Some (sample_later\<lparr>p_invalid := [(6, ''invalid producer message discard'')]\<rparr>)"
  by (simp_all add: from_events_def sample_producer_log_def sample_commit_def sample_discard_def sample_projection_def
      sample_later_def sample_message_def sample_mail_def producer_evaluation)

definition ended_runs :: "log_event list \<Rightarrow> run_id set" where
  "ended_runs es = {run. \<exists>e \<in> set es. le_payload e = RunFinished \<and> le_run e = Some run}"

lemma producer_terminal:
  assumes "producer_observe f e = Some f'"
  shows "f_terminal_runs f' = f_terminal_runs f \<union> ended_runs [e]"
proof -
  have keep: "f_terminal_runs (reject at reason f) = f_terminal_runs f" for at reason f
    by (simp add: reject_def)
  have goal: "f_terminal_runs (observe_goal_event f e s) = f_terminal_runs f" for s
    by (auto simp: observe_goal_event_def reject_def split: prod.split sum.split)
  show ?thesis
    using assms
    by (cases "le_payload e")
      (auto simp: producer_observe.simps goal keep ended_runs_def observe_accepted_def observe_admitted_def
        observe_claimed_def observe_released_def observe_committed_def observe_consumed_def
        observe_discarded_def change_at_def Let_def split: if_splits option.splits Option.bind_splits)
qed

lemma producer_terminal_run:
  assumes "producer_events producer_fold_new es = Some f"
  shows "f_terminal_runs f = ended_runs es"
  using assms
proof (induction es arbitrary: f rule: rev_induct)
  case Nil
  then show ?case by (auto simp: ended_runs_def producer_fold_new_def)
next
  case (snoc e es)
  then obtain g where "producer_events producer_fold_new es = Some g" "producer_observe g e = Some f"
    by (auto simp: producer_events_append split: Option.bind_splits)
  with snoc.IH producer_terminal [of g e f] show ?case by (auto simp: ended_runs_def)
qed

text \<open>What the properties below know of a log and of what follows it.\<close>

lemma two_points:
  assumes "from_events es = Some p" and "from_events (es @ later) = Some p'"
  obtains f f' where "producer_ok f" and "producer_ok f'" and "p = f_projection f" and "p' = f_projection f'"
    and "messages_follow f f'" and "f_terminal_runs f' = ended_runs (es @ later)"
    and "f_terminal_runs f = ended_runs es"
proof -
  from from_events_Some [OF assms(1)] obtain f where
    f: "producer_events producer_fold_new es = Some f" "producer_ok f" "p = f_projection f" by metis
  from from_events_Some [OF assms(2)] obtain f' where
    f': "producer_events producer_fold_new (es @ later) = Some f'" "producer_ok f'" "p' = f_projection f'" by metis
  have "producer_events f later = Some f'"
    using f(1) f'(1) by (simp add: producer_events_append)
  then show thesis
    using that f f' producer_events_follow [OF f(2)] producer_terminal_run by metis
qed

lemma follows_at:
  assumes "messages_follow f f'" and "m \<in> set (messages_of f)"
  obtains m' where "m' \<in> set (messages_of f')" and "message_follows (f_terminal_runs f') m m'"
proof -
  obtain i where "i < length (messages_of f)" "messages_of f ! i = m"
    using assms(2) by (auto simp: in_set_conv_nth)
  then show thesis
    using assms(1) that [of "messages_of f' ! i"] by (auto simp: messages_follow_def)
qed

text \<open>To a run that has not ended, exactly the agent mail admitted to it is observed.\<close>

lemma observed_admitted:
  assumes "producer_ok f" and "run \<notin> f_terminal_runs f" and "m \<in> set (messages_of f)"
  shows "observed_by (f_projection f) run m \<longleftrightarrow> is_agent (m_owner m) \<and> map_option fst (m_admission m) = Some run"
proof -
  have m: "message_ok m" "claim_ok (p_claims (f_projection f)) (f_terminal_runs f) m"
    and ok: "hm_ok (p_claims (f_projection f))"
    using assms(1,3) by (auto simp: producer_ok_def)
  have "map_option fst (m_admission m) = Some run"
    if "(at, claim) \<in> set (p_claims (f_projection f))" "c_run claim = run" "m_id m \<in> set (c_messages claim)" for at claim
    using that m(2) assms(2) hm_get_in [OF ok] by (auto simp: claim_ok_def)
  moreover have "map_option fst (m_admission m) = Some run" if "m_consumed_run m = Some run"
    using that m(1) by (auto simp: message_ok_def split: if_splits)
  ultimately show ?thesis
    by (auto simp: observed_by_def list_ex_iff is_some_and_Some)
qed

lemma inherited_ge:
  assumes "m \<in> set (p_messages p)" and "observed_by p run m" and "m_hop m = Some h"
  shows "next_hop h \<le> inherited_agent_hop p run"
proof -
  have "h \<in> set (List.map_filter m_hop (filter (observed_by p run) (p_messages p)))"
    using assms by (auto simp: in_map_filter)
  then obtain x xs where hops: "List.map_filter m_hop (filter (observed_by p run) (p_messages p)) = x # xs"
    and "h \<in> set (x # xs)"
    by (cases "List.map_filter m_hop (filter (observed_by p run) (p_messages p))") auto
  then have "h \<le> fold max xs x"
    by (metis List.finite_set Max.set_eq_fold Max_ge)
  then show ?thesis
    using hops by (simp add: inherited_agent_hop_def next_hop_def)
qed

lemma inherited_hop_attained:
  assumes "inherited_agent_hop p run \<noteq> 0"
  obtains m h where "m \<in> set (p_messages p)" and "observed_by p run m" and "m_hop m = Some h"
    and "inherited_agent_hop p run = next_hop h"
proof -
  obtain x xs where hops: "List.map_filter m_hop (filter (observed_by p run) (p_messages p)) = x # xs"
    using assms by (cases "List.map_filter m_hop (filter (observed_by p run) (p_messages p))")
      (simp_all add: inherited_agent_hop_def)
  have "fold max xs x \<in> set (x # xs)"
    by (metis List.finite_set Max.set_eq_fold Max_in empty_iff list.set_intros(1))
  then have "fold max xs x \<in> set (List.map_filter m_hop (filter (observed_by p run) (p_messages p)))"
    by (simp only: hops)
  then obtain m where "m \<in> set (p_messages p)" "observed_by p run m" "m_hop m = Some (fold max xs x)"
    by (auto simp only: in_map_filter set_filter)
  then show thesis
    using that hops by (auto simp: inherited_agent_hop_def)
qed

lemma inherited_hop_grows:
  assumes "producer_ok f" and "producer_ok f'" and "messages_follow f f'" and "run \<notin> f_terminal_runs f'"
  shows "inherited_agent_hop (f_projection f) run \<le> inherited_agent_hop (f_projection f') run"
proof (cases "inherited_agent_hop (f_projection f) run = 0")
  case False
  then obtain m h where m: "m \<in> set (messages_of f)" "observed_by (f_projection f) run m" "m_hop m = Some h"
    and hop: "inherited_agent_hop (f_projection f) run = next_hop h"
    using inherited_hop_attained [OF False] unfolding messages_of_def by blast
  have "run \<notin> f_terminal_runs f"
    using assms(3,4) by (auto simp: messages_follow_def)
  then have admitted: "is_agent (m_owner m)" "map_option fst (m_admission m) = Some run"
    using m observed_admitted [OF assms(1)] by auto
  from follows_at [OF assms(3) m(1)] obtain m' where m': "m' \<in> set (messages_of f')"
    "message_follows (f_terminal_runs f') m m'" .
  with admitted assms(4) have "m_admission m' = m_admission m" "m_owner m' = m_owner m" "m_hop m' = Some h"
    using m(3) by (auto simp: message_follows_def same_message_def)
  then have "observed_by (f_projection f') run m'"
    using admitted observed_admitted [OF assms(2,4) m'(1)] by simp
  then show ?thesis
    using hop m'(1) \<open>m_hop m' = Some h\<close> by (simp add: inherited_ge messages_of_def)
qed simp

lemma producer_projection_total: "\<exists>p. from_events es = Some p \<and> p_goal p = gf_goal (goals.run es)"
proof -
  obtain f where f: "producer_events producer_fold_new es = Some f" "producer_ok f"
    using producer_events_total [OF producer_ok_new] by blast
  then show ?thesis
    using producer_goals_run [OF f(1)] by (simp add: from_events_def producer_ok_def)
qed

text \<open>
  C24. The projection of any log exists (no index of a message is out of range), and its goal is the
  one that the goal fold of the same log has; message IDs and dedup keys are unique; a message is
  consumed by the run it was admitted to, then neither discarded nor discardable; and a message
  counts as claimed by an event exactly when that event's claim is live and names it.
\<close>

theorem producer_projection_sound:
  "\<exists>p. from_events es = Some p
    \<and> p_goal p = gf_goal (goals.run es)
    \<and> distinct (map m_id (p_messages p)) \<and> distinct (map dedup_key (p_messages p))
    \<and> list_all (\<lambda>m. m_consumed_run m = (if m_consumed m then map_option fst (m_admission m) else None)
        \<and> \<not> (m_consumed m \<and> (m_discarded m \<or> m_admission m = None))
        \<and> \<not> (m_claims m \<noteq> {} \<and> m_discarded m)
        \<and> m_claims m = {at. is_some_and (\<lambda>c. m_id m \<in> set (c_messages c)) (hm_get (p_claims p) at)})
      (p_messages p)"
proof -
  obtain f where f: "producer_events producer_fold_new es = Some f" "producer_ok f"
    using producer_events_total [OF producer_ok_new] by blast
  then have "from_events es = Some (f_projection f)"
    by (simp add: from_events_def)
  moreover have "p_goal (f_projection f) = gf_goal (goals.run es)"
    using f(2) producer_goals_run [OF f(1)] by (simp add: producer_ok_def)
  ultimately show ?thesis
    using f(2) index_ok_distinct [OF producer_ok_indexes(1) [OF f(2)]]
      index_ok_distinct [OF producer_ok_indexes(2) [OF f(2)]]
    by (fastforce simp: producer_ok_def messages_of_def list_all_iff message_ok_def claim_ok_def)
qed

text \<open>
  C26. Consumption is final: a message of a log is in the projection of every longer log at the same
  place, with the same payload; once consumed it stays consumed by the same run and is never
  discarded, whatever events follow.
\<close>

theorem consumption_is_final:
  assumes "from_events es = Some p" and "from_events (es @ later) = Some p'" and "i < length (p_messages p)"
  shows "i < length (p_messages p') \<and> same_message (p_messages p ! i) (p_messages p' ! i)
    \<and> (m_consumed (p_messages p ! i) \<longrightarrow> m_consumed (p_messages p' ! i)
        \<and> m_consumed_run (p_messages p' ! i) = m_consumed_run (p_messages p ! i)
        \<and> \<not> m_discarded (p_messages p' ! i))"
proof -
  from two_points [OF assms(1,2)] obtain f f' where f: "p = f_projection f" "p' = f_projection f'"
    "messages_follow f f'" by metis
  with assms(3) have "i < length (p_messages p')"
    and "message_follows (f_terminal_runs f') (p_messages p ! i) (p_messages p' ! i)"
    by (auto simp: messages_follow_def messages_of_def)
  then show ?thesis by (simp add: message_follows_def)
qed

theorem consumption_is_final_witness:
  "\<exists>p. from_events ((sample_producer_log @ sample_commit) @ [sample_discard]) = Some p
    \<and> m_consumed (p_messages p ! 0) \<and> m_consumed_run (p_messages p ! 0) = Some 2
    \<and> \<not> m_discarded (p_messages p ! 0)"
  using consumption_is_final [OF sample_producer_run(2) sample_producer_run(3), of 0] sample_producer_run(3)
  by (simp add: sample_later_def)

text \<open>
  C8. The guard against chains of agent mail cannot be reset: as a log grows, the hop depth that a
  run's next message must carry never falls while the run has not ended, whatever is released,
  discarded or consumed; and it is above the depth of every agent message admitted to the run, up
  to the largest \<open>u32\<close>.
\<close>

theorem hop_depth_never_resets:
  assumes "from_events es = Some p" and "from_events (es @ later) = Some p'"
    and "run \<notin> ended_runs (es @ later)"
  shows "inherited_agent_hop p run \<le> inherited_agent_hop p' run
    \<and> (\<forall>m \<in> set (p_messages p). \<forall>h q. is_agent (m_owner m) \<longrightarrow> m_admission m = Some (run, q) \<longrightarrow>
        m_hop m = Some h \<longrightarrow> min (h + 1) U32_MAX \<le> inherited_agent_hop p' run)"
proof -
  from two_points [OF assms(1,2)] obtain f f' where f: "producer_ok f" "producer_ok f'"
    "p = f_projection f" "p' = f_projection f'" "messages_follow f f'"
    "f_terminal_runs f' = ended_runs (es @ later)" by metis
  have grows: "inherited_agent_hop p run \<le> inherited_agent_hop p' run"
    using inherited_hop_grows [OF f(1,2,5)] assms(3) f(3,4,6) by simp
  have "min (h + 1) U32_MAX \<le> inherited_agent_hop p run"
    if "m \<in> set (p_messages p)" "is_agent (m_owner m)" "m_admission m = Some (run, q)" "m_hop m = Some h" for m h q
    using inherited_ge [OF that(1) _ that(4)] that(2,3) by (simp add: observed_by_def next_hop_def)
  with grows show ?thesis by (blast intro: order_trans)
qed

theorem hop_depth_never_resets_witness:
  "inherited_agent_hop sample_projection 2 \<le> inherited_agent_hop sample_later 2
    \<and> inherited_agent_hop sample_projection 2 = 4"
proof -
  have "inherited_agent_hop sample_projection 2 = 4"
    by (simp add: inherited_agent_hop_def sample_projection_def sample_message_def sample_mail_def
        accepted_record_def observed_by_def is_agent_def map_filter_simps next_hop_def U32_MAX_def)
  moreover have "(2 :: run_id) \<notin> ended_runs (sample_producer_log @ sample_commit)"
    by (auto simp: ended_runs_def sample_producer_log_def sample_commit_def)
  ultimately show ?thesis
    using hop_depth_never_resets [OF sample_producer_run(1,2)] by blast
qed

text \<open>
  Sends are idempotent: once a log holds a message of an owner under a key, a later acceptance
  of the same owner and key changes nothing when it repeats the message, even with another hop
  depth, and is put aside as a conflict when it does not, whatever happened to the message since.
\<close>

theorem repeated_acceptance:
  assumes "producer_events producer_fold_new es = Some f" and "producer_events f later = Some f'"
    and "m \<in> set (messages_of f)" and "m_owner m = ac_owner a" and "m_key m = ac_key a"
    and "valid_reminder_owner (ac_owner a) (ac_reminder a)" and "valid_hop_owner (ac_owner a) (ac_hop a)"
  shows "producer_observe f' \<lparr>le_run = run, le_seq = at, le_payload = ProducerMessageAccepted a\<rparr>
    = Some (if same_acceptance m a then f' else reject at ''conflicting producer idempotency key'' f')"
proof -
  have ok: "producer_ok f" "producer_ok f'"
    using producer_events_total [OF producer_ok_new, of es] producer_events_total [of f later] assms(1,2) by auto
  obtain m' where m': "m' \<in> set (messages_of f')" "same_message m m'"
    using follows_at [OF producer_events_follow [OF ok(1) assms(2)] assms(3)]
    by (metis message_follows_def)
  then obtain i where i: "i < length (messages_of f')" "messages_of f' ! i = m'"
    by (auto simp: in_set_conv_nth)
  then have "hm_get (f_dedup_indexes f') (ac_owner a, ac_key a) = Some i"
    using m'(2) assms(4,5) index_ok_get [OF producer_ok_indexes(2) [OF ok(2)]]
    by (simp add: dedup_key_def same_message_def)
  moreover have "same_acceptance m' a = same_acceptance m a"
    using m'(2) by (simp add: same_message_def same_acceptance_def)
  ultimately show ?thesis
    using i assms(6,7) by (simp add: producer_observe.simps observe_accepted_def nth_opt_def)
qed

theorem repeated_acceptance_witness:
  "\<exists>f. producer_events producer_fold_new sample_producer_log = Some f
    \<and> producer_observe f \<lparr>le_run = None, le_seq = 9,
        le_payload = ProducerMessageAccepted (sample_mail\<lparr>ac_hop := Some 0\<rparr>)\<rparr> = Some f"
proof -
  obtain f where f: "producer_events producer_fold_new sample_producer_log = Some f"
    "f_projection f = sample_projection"
    using sample_producer_run(1) by (auto simp: from_events_def)
  have "producer_events f [] = Some f" by simp
  from repeated_acceptance [OF f(1) this, of sample_message "sample_mail\<lparr>ac_hop := Some 0\<rparr>" None 9]
  have "producer_observe f \<lparr>le_run = None, le_seq = 9,
        le_payload = ProducerMessageAccepted (sample_mail\<lparr>ac_hop := Some 0\<rparr>)\<rparr> = Some f"
    using f(2) by (simp add: messages_of_def sample_projection_def sample_message_def sample_mail_def
        accepted_record_def same_acceptance_def valid_reminder_owner.simps valid_hop_owner_def is_agent_def)
  with f(1) show ?thesis by blast
qed

text \<open>
  An invalid event is quarantined: when observing an event adds to the invalid ones, it adds
  that event's sequence number with one reason and changes nothing else, in the goal, the messages,
  the claims, the indexes and the ended runs.
\<close>

theorem rejection_quarantines:
  assumes "producer_observe f e = Some f'" and "p_invalid (f_projection f') \<noteq> p_invalid (f_projection f)"
  shows "\<exists>reason. f' = reject (le_seq e) reason f"
proof -
  have goal: "\<exists>reason. observe_goal_event f e s = reject (le_seq e) reason f"
    if "p_invalid (f_projection (observe_goal_event f e s)) \<noteq> p_invalid (f_projection f)"
      "\<And>p. p_invalid (s p) = p_invalid p" for s
    using that goal_observe_error [of "f_goals f" e]
    by (auto simp: observe_goal_event_def split: prod.splits sum.splits)
  have keep: "p_invalid (f_projection (set_messages ms f)) = p_invalid (f_projection f)" for ms
    by (simp add: set_messages_def)
  show ?thesis
    using assms
    by (cases "le_payload e")
      (auto simp: producer_observe.simps keep observe_accepted_def observe_admitted_def
        observe_claimed_def observe_released_def observe_committed_def observe_consumed_def
        observe_discarded_def change_at_def Let_def
        intro!: goal split: if_splits option.splits Option.bind_splits)
qed

theorem rejection_quarantines_witness:
  "\<exists>reason. reject 4 ''producer claim is missing run id'' producer_fold_new = reject 4 reason producer_fold_new
    \<and> producer_observe producer_fold_new \<lparr>le_run = None, le_seq = 4, le_payload = ProducerMessagesClaimed [1]\<rparr>
        = Some (reject 4 reason producer_fold_new)"
proof -
  let ?e = "\<lparr>le_run = None, le_seq = 4, le_payload = ProducerMessagesClaimed [1]\<rparr>"
  have e: "producer_observe producer_fold_new ?e
      = Some (reject 4 ''producer claim is missing run id'' producer_fold_new)"
    by (simp add: producer_observe.simps observe_claimed_def)
  have "p_invalid (f_projection (reject 4 ''producer claim is missing run id'' producer_fold_new))
      \<noteq> p_invalid (f_projection producer_fold_new)"
    by (simp add: reject_def)
  from rejection_quarantines [OF e this] show ?thesis using e by force
qed

text \<open>A finished goal still counts as state to reconcile after a restart.\<close>

lemma finished_goal_pending:
  "producer_state_pending (sample_goal_log @ [sample_completion]) = Some True"
  using sample_goal_run(2) producer_projection_total [of "sample_goal_log @ [sample_completion]"]
  by (auto simp: producer_state_pending_def)

end
