(* ===== verification/Sem_Ver.thy ===== *)
theory Sem_Ver imports Prelude begin

text \<open>
  Protocol versions and their negotiation (\<open>crates/protocol/src/semver.rs\<close>). The parts of a
  version are \<open>u32\<close>: natural numbers up to \<^const>\<open>U32_MAX\<close>, which \<open>semver_ok\<close> states. A
  handshake is a JSON document of \<open>serde_json\<close>: \<open>Value::get\<close> on it and \<open>Number::as_u64\<close> are
  parameters.
\<close>

datatype semver = SemVer (major: nat) (minor: nat) (patch: nat)

definition semver_ok :: "semver \<Rightarrow> bool" where
  "semver_ok v \<longleftrightarrow> major v \<le> U32_MAX \<and> minor v \<le> U32_MAX \<and> patch v \<le> U32_MAX"

text \<open>The derived order compares the parts from the left.\<close>

instantiation semver :: linorder
begin

definition less_eq_semver :: "semver \<Rightarrow> semver \<Rightarrow> bool" where
  "less_eq_semver v w \<longleftrightarrow> (major v, minor v, patch v) \<le> (major w, minor w, patch w)"

definition less_semver :: "semver \<Rightarrow> semver \<Rightarrow> bool" where
  "less_semver v w \<longleftrightarrow> (major v, minor v, patch v) < (major w, minor w, patch w)"

instance
proof
  fix x y z :: semver
  show "x \<le> y \<Longrightarrow> y \<le> x \<Longrightarrow> x = y"
    by (cases x; cases y) (auto simp: less_eq_semver_def)
qed (auto simp: less_eq_semver_def less_semver_def)

end

datatype semver_error = Malformed

subsection \<open>Parsing and printing\<close>

definition part :: "string \<Rightarrow> semver_error + nat" where
  "part s =
     (let digits = s \<noteq> [] \<and> list_all is_ascii_digit s
      in if \<not> digits \<or> (length s > 1 \<and> starts_with s ''0'') then Inl Malformed
         else (case parse_u32 s of None \<Rightarrow> Inl Malformed | Some n \<Rightarrow> Inr n))"

text \<open>\<open>SemVer::parse\<close>: three parts off the iterator, then none.\<close>

fun next_part :: "string list \<Rightarrow> semver_error + nat \<times> string list" where
  "next_part [] = Inl Malformed"
| "next_part (s # parts) = map_sum id (\<lambda>n. (n, parts)) (part s)"

definition semver_parse :: "string \<Rightarrow> semver_error + semver" where
  "semver_parse s =
     (case next_part (split_on CHR ''.'' s) of
        Inl e \<Rightarrow> Inl e
      | Inr (a, parts) \<Rightarrow> (case next_part parts of
          Inl e \<Rightarrow> Inl e
        | Inr (b, parts) \<Rightarrow> (case next_part parts of
            Inl e \<Rightarrow> Inl e
          | Inr (c, parts) \<Rightarrow> if parts \<noteq> [] then Inl Malformed else Inr (SemVer a b c))))"

definition semver_show :: "semver \<Rightarrow> string" where
  "semver_show v = join ''.'' [show_nat (major v), show_nat (minor v), show_nat (patch v)]"

subsection \<open>Negotiation\<close>

definition CLIENT_PROTOCOL_VERSION :: semver where "CLIENT_PROTOCOL_VERSION = SemVer 1 89 0"
definition PLUGIN_PROTOCOL_VERSION :: semver where "PLUGIN_PROTOCOL_VERSION = SemVer 1 43 0"
definition RUNTIME_PROTOCOL_VERSION :: semver where "RUNTIME_PROTOCOL_VERSION = SemVer 1 17 0"

definition PROTOCOL_VERSION_MEMBER :: string where
  "PROTOCOL_VERSION_MEMBER = ''protocol_version''"

definition is_compatible_with :: "semver \<Rightarrow> semver \<Rightarrow> bool" where
  "is_compatible_with v other \<longleftrightarrow> major v = major other"

definition shared_minor :: "semver \<Rightarrow> semver \<Rightarrow> nat option" where
  "shared_minor v other = (if is_compatible_with v other then Some (min (minor v) (minor other)) else None)"

datatype 'n json_value = JsonString string | JsonNumber 'n | JsonOther

datatype peer_version_error = MissingVersion | Legacy nat | MalformedVersion

definition peer_protocol_version :: "('n \<Rightarrow> nat option) \<Rightarrow> ('h \<Rightarrow> string \<Rightarrow> 'n json_value option) \<Rightarrow> 'h \<Rightarrow>
    peer_version_error + semver" where
  "peer_protocol_version as_u64 get params =
     (case get params PROTOCOL_VERSION_MEMBER of
        None \<Rightarrow> Inl MissingVersion
      | Some (JsonString s) \<Rightarrow> map_sum (\<lambda>_. MalformedVersion) id (semver_parse s)
      | Some (JsonNumber number) \<Rightarrow> (case as_u64 number of
            None \<Rightarrow> Inl MalformedVersion
          | Some legacy \<Rightarrow> Inl (Legacy legacy))
      | Some JsonOther \<Rightarrow> Inl MalformedVersion)"

datatype version_refusal = Unsupported semver string | MalformedHandshake peer_version_error

definition negotiate_version :: "('n \<Rightarrow> nat option) \<Rightarrow> ('h \<Rightarrow> string \<Rightarrow> 'n json_value option) \<Rightarrow> semver \<Rightarrow> 'h \<Rightarrow>
    version_refusal + semver" where
  "negotiate_version as_u64 get supported handshake =
     (case peer_protocol_version as_u64 get handshake of
        Inr peer \<Rightarrow> if is_compatible_with supported peer then Inr peer
                   else Inl (Unsupported supported (semver_show peer))
      | Inl (Legacy peer) \<Rightarrow> Inl (Unsupported supported (show_nat peer))
      | Inl e \<Rightarrow> Inl (MalformedHandshake e))"

subsection \<open>Decimal numbers\<close>

text \<open>The texts that numbers are written as: digits, without a leading zero before others.\<close>

definition decimal :: "string \<Rightarrow> bool" where
  "decimal s \<longleftrightarrow> s \<noteq> [] \<and> list_all is_ascii_digit s \<and> (length s > 1 \<longrightarrow> hd s \<noteq> CHR ''0'')"

lemma digits_value_pos:
  "list_all is_ascii_digit s \<Longrightarrow> s \<noteq> [] \<Longrightarrow> hd s \<noteq> CHR ''0'' \<Longrightarrow> 0 < digits_value s"
proof (induction s rule: rev_induct)
  case (snoc c s)
  show ?case
  proof (cases "s = []")
    case True
    have zero: "char_of (48 :: nat) = CHR ''0''" by code_simp
    have "of_char c \<noteq> (48 :: nat)"
    proof
      assume "of_char c = (48 :: nat)"
      then have "char_of (of_char c :: nat) = (char_of (48 :: nat) :: char)" by simp
      with snoc.prems True zero show False by simp
    qed
    with snoc.prems True show ?thesis
      by (simp add: digits_value_def is_ascii_digit_def)
  next
    case False
    with snoc show ?thesis by (simp add: digits_value_snoc)
  qed
qed simp

lemma show_digits_value: "decimal s \<Longrightarrow> show_nat (digits_value s) = s"
proof (induction s rule: rev_induct)
  case (snoc c s)
  let ?d = "of_char c - (48 :: nat)"
  have c: "?d < 10" "char_of (48 + ?d) = c"
    using snoc.prems by (auto simp: decimal_def is_ascii_digit_def)
  show ?case
  proof (cases "s = []")
    case True
    then show ?thesis using c by (simp add: digits_value_def show_nat.simps)
  next
    case False
    with snoc.prems have "hd s \<noteq> CHR ''0''" "list_all is_ascii_digit s" and "decimal s"
      by (auto simp: decimal_def)
    then have "0 < digits_value s" and "show_nat (digits_value s) = s"
      using digits_value_pos [of s] False snoc.IH by simp_all
    then show ?thesis
      using c by (simp add: digits_value_snoc show_nat.simps [of "digits_value s * 10 + ?d"])
  qed
qed (simp add: decimal_def)

lemma show_nat_not_Nil: "show_nat n \<noteq> []"
  by (simp add: show_nat.simps [of n])

lemma show_nat_hd: "10 \<le> n \<Longrightarrow> hd (show_nat n) \<noteq> CHR ''0''"
proof (induction n rule: show_nat.induct)
  case (1 n)
  show ?case
  proof (cases "n div 10 < 10")
    case True
    have "(of_char (hd (show_nat n)) :: nat) = 48 + n div 10"
      using 1(2) True by (simp add: show_nat.simps [of n] show_nat.simps [of "n div 10"])
    then show ?thesis using 1(2) by auto
  next
    case False
    with 1 show ?thesis by (simp add: show_nat.simps [of n] show_nat_not_Nil)
  qed
qed

lemma decimal_show_nat: "decimal (show_nat n)"
proof (cases "n < 10")
  case False
  then show ?thesis
    using show_nat_hd [of n] show_nat_digits by (auto simp: decimal_def show_nat_not_Nil list_all_iff)
qed (use show_nat_digits [of _ n] in \<open>auto simp: decimal_def list_all_iff show_nat.simps [of n]\<close>)

lemma part_Inr: "part s = Inr n \<longleftrightarrow> s = show_nat n \<and> n \<le> U32_MAX"
proof -
  have plus: "\<not> is_ascii_digit (CHR ''+'')" by code_simp
  have guard: "\<not> (length s > 1 \<and> starts_with s ''0'') \<longleftrightarrow> (length s > 1 \<longrightarrow> hd s \<noteq> CHR ''0'')"
    by (cases s) auto
  have "part s = Inr n \<longleftrightarrow> decimal s \<and> digits_value s = n \<and> n \<le> U32_MAX"
    using plus guard
    by (cases s) (auto simp: part_def decimal_def parse_u32_def parse_unsigned_def Let_def split: if_splits)
  also have "\<dots> \<longleftrightarrow> s = show_nat n \<and> n \<le> U32_MAX"
    using show_digits_value digits_value_show decimal_show_nat by auto
  finally show ?thesis .
qed

subsection \<open>Properties\<close>

lemma map_sum_id_Inr: "map_sum id g r = Inr x \<longleftrightarrow> (\<exists>y. r = Inr y \<and> x = g y)"
  by (cases r) auto

lemma next_part_Inr:
  "next_part parts = Inr (n, rest) \<longleftrightarrow> parts = show_nat n # rest \<and> n \<le> U32_MAX"
  by (cases parts) (auto simp: map_sum_id_Inr part_Inr)

lemma show_nat_inject [simp]: "show_nat m = show_nat n \<longleftrightarrow> m = n"
  by (metis digits_value_show)

lemma part_show [simp]: "n \<le> U32_MAX \<Longrightarrow> part (show_nat n) = Inr n"
  by (simp add: part_Inr)

lemma dot_not_digit: "CHR ''.'' \<notin> set (show_nat n)"
proof
  assume "CHR ''.'' \<in> set (show_nat n)"
  from show_nat_digits [OF this] show False by (simp add: is_ascii_digit_def)
qed

lemma split_show: "split_on CHR ''.'' (semver_show v) = [show_nat (major v), show_nat (minor v), show_nat (patch v)]"
  unfolding semver_show_def by (rule split_on_join) (auto simp: dot_not_digit)

lemma semver_parse_parts:
  "semver_parse s = Inr v \<longleftrightarrow> semver_ok v
     \<and> split_on CHR ''.'' s = [show_nat (major v), show_nat (minor v), show_nat (patch v)]"
  by (cases v) (auto simp: semver_parse_def next_part_Inr semver_ok_def split: sum.splits prod.splits if_splits)

text \<open>
  A version has one text: a text parses as a version exactly when it is what that version
  prints as, and exactly the versions whose parts fit in a \<open>u32\<close> are read. So leading zeros, signs,
  suffixes, missing or further parts and overflowing parts are all refused.
\<close>

theorem semver_parse_iff_show: "semver_parse s = Inr v \<longleftrightarrow> semver_ok v \<and> s = semver_show v"
proof -
  have "split_on CHR ''.'' s = [show_nat (major v), show_nat (minor v), show_nat (patch v)] \<longleftrightarrow> s = semver_show v"
    using join_split_on [of "CHR ''.''" s] split_show [of v] by (metis semver_show_def)
  then show ?thesis by (simp add: semver_parse_parts)
qed

text \<open>
  A handshake is accepted exactly when it carries a version of the same major as its text, and
  then that version is returned; two peers that read each other's version agree on whether they
  connect and on the minor that they share, which neither exceeds.
\<close>

theorem negotiation_agrees:
  assumes "semver_ok ours" and "semver_ok theirs"
    and "get_theirs hello PROTOCOL_VERSION_MEMBER = Some (JsonString (semver_show theirs))"
    and "get_ours reply PROTOCOL_VERSION_MEMBER = Some (JsonString (semver_show ours))"
  shows "(negotiate_version u get_theirs ours hello = Inr theirs) = (major ours = major theirs)
    \<and> (negotiate_version u' get_ours theirs reply = Inr ours) = (major ours = major theirs)
    \<and> (negotiate_version u get_theirs ours hello \<noteq> Inr theirs \<longrightarrow>
        negotiate_version u get_theirs ours hello = Inl (Unsupported ours (semver_show theirs)))
    \<and> shared_minor ours theirs = shared_minor theirs ours
    \<and> (\<forall>m. shared_minor ours theirs = Some m \<longrightarrow> m \<le> minor ours \<and> m \<le> minor theirs
        \<and> (m = minor ours \<or> m = minor theirs))"
proof -
  have "semver_parse (semver_show ours) = Inr ours" "semver_parse (semver_show theirs) = Inr theirs"
    using assms(1,2) by (simp_all add: semver_parse_parts split_show)
  then show ?thesis
    using assms(3,4)
    by (auto simp: negotiate_version_def peer_protocol_version_def is_compatible_with_def shared_minor_def min_def)
qed

definition sample_get :: "string \<Rightarrow> string \<Rightarrow> nat json_value option" where
  "sample_get value member = (if member = PROTOCOL_VERSION_MEMBER then Some (JsonString value) else None)"

theorem negotiation_agrees_witness:
  "negotiate_version Some sample_get CLIENT_PROTOCOL_VERSION (semver_show (SemVer 1 20 7)) = Inr (SemVer 1 20 7)
    \<and> shared_minor CLIENT_PROTOCOL_VERSION (SemVer 1 20 7) = Some 20"
proof -
  have ok: "semver_ok CLIENT_PROTOCOL_VERSION" "semver_ok (SemVer 1 20 7)"
    by (simp_all add: semver_ok_def CLIENT_PROTOCOL_VERSION_def U32_MAX_def)
  have get: "sample_get (semver_show v) PROTOCOL_VERSION_MEMBER = Some (JsonString (semver_show v))" for v
    by (simp add: sample_get_def)
  from negotiation_agrees [where u = Some and u' = Some and get_theirs = sample_get and get_ours = sample_get
      and hello = "semver_show (SemVer 1 20 7)" and reply = "semver_show CLIENT_PROTOCOL_VERSION", OF ok get get]
  show ?thesis
    by (simp add: CLIENT_PROTOCOL_VERSION_def shared_minor_def is_compatible_with_def)
qed

end
