(* ===== verification/Agent_Snapshot.thy ===== *)
theory Agent_Snapshot
  imports Permission_Decide
begin

text \<open>
  What a run is frozen against: model bindings and cache strategies as history stores them
  (\<open>crates/protocol/src/model.rs\<close>), the adapter families that speak a protocol
  (\<open>crates/models/src/adapters/mod.rs\<close>), and the agent snapshot with its checks
  (\<open>crates/protocol/src/agent.rs\<close>). A fingerprint is an opaque text and so is the JSON of a
  frozen binding, which no reader of these looks into.
\<close>

text \<open>\<open>char::is_control\<close> on the code points up to 255.\<close>

definition is_control :: "char \<Rightarrow> bool" where
  "is_control c \<longleftrightarrow> (of_char c :: nat) < 32 \<or> 127 \<le> (of_char c :: nat) \<and> of_char c < (160 :: nat)"

subsection \<open>Cache strategies\<close>

datatype cache_ttl = OneHour | FiveMinutes | CacheOff

datatype google_cache_mode = GoogleImplicit | GoogleExplicit | GoogleOff

datatype openai_cache_retention = InMemory | TwentyFourHours

datatype openai_cache_mode = OpenAiImplicit | OpenAiExplicit

datatype openai_prompt_cache_ttl = TwelveHours | ThirtyMinutes

record bedrock_point =
  bp_history_index :: nat
  bp_ttl :: cache_ttl

datatype cache_strategy =
    AnthropicCache cache_ttl cache_ttl cache_ttl
  | BedrockCache cache_ttl cache_ttl "bedrock_point list"
  | GoogleCache google_cache_mode "string option"
  | OpenAiCache "string option" "openai_cache_retention option" "openai_cache_mode option"
      "openai_prompt_cache_ttl option" "bool option" "bool option"

text \<open>\<open>valid_cache_ttl_order\<close>: the loop with its flag.\<close>

fun ttl_order_from :: "bool \<Rightarrow> cache_ttl list \<Rightarrow> bool" where
  "ttl_order_from saw_short [] = True"
| "ttl_order_from saw_short (v # vs) =
     (case v of
        FiveMinutes \<Rightarrow> ttl_order_from True vs
      | OneHour \<Rightarrow> if saw_short then False else ttl_order_from saw_short vs
      | CacheOff \<Rightarrow> ttl_order_from saw_short vs)"

definition valid_cache_ttl_order :: "cache_ttl list \<Rightarrow> bool" where
  "valid_cache_ttl_order values = ttl_order_from False values"

text \<open>The search for a Bedrock point that is off or whose index was seen.\<close>

fun bad_point :: "nat set \<Rightarrow> bedrock_point list \<Rightarrow> bool" where
  "bad_point indices [] = False"
| "bad_point indices (p # ps) =
     (bp_ttl p = CacheOff \<or> bp_history_index p \<in> indices
      \<or> bad_point (insert (bp_history_index p) indices) ps)"

fun strategy_validate :: "cache_strategy \<Rightarrow> string + unit" where
  "strategy_validate (AnthropicCache system tools rolling) =
     (if \<not> valid_cache_ttl_order [tools, system, rolling]
      then Inl ''invalid Anthropic frozen cache strategy'' else Inr ())"
| "strategy_validate (BedrockCache system tools messages) =
     (let count = (if system \<noteq> CacheOff then 1 else 0) + (if tools \<noteq> CacheOff then 1 else 0) + length messages
      in if count > 4 \<or> bad_point {} messages
            \<or> \<not> valid_cache_ttl_order ([tools, system] @ map bp_ttl messages)
         then Inl ''invalid Bedrock frozen cache strategy'' else Inr ())"
| "strategy_validate (GoogleCache mode cached_content) =
     (if (mode = GoogleExplicit) \<noteq> (cached_content \<noteq> None)
         \<or> (case cached_content of None \<Rightarrow> False
            | Some value \<Rightarrow> \<not> starts_with value ''cachedContents/'' \<or> length value > 512)
      then Inl ''invalid Google frozen cache strategy'' else Inr ())"
| "strategy_validate (OpenAiCache prompt_cache_key _ mode ttl system rolling) =
     (if (case prompt_cache_key of None \<Rightarrow> False
          | Some key \<Rightarrow> length key > 64 \<or> list_ex is_control key)
         \<or> (mode \<noteq> None) \<noteq> (ttl \<noteq> None)
         \<or> (mode = None \<and> (system = Some True \<or> rolling = Some True))
      then Inl ''invalid OpenAI frozen cache strategy'' else Inr ())"

subsection \<open>Adapter families\<close>

datatype adapter_family =
    Anthropic | AnthropicCompatible | OpenaiChat | OpenaiResponses | OpenaiCompatible
  | GoogleGemini | GoogleVertexGemini | AwsBedrockConverse | AzureOpenaiChat
  | AzureOpenaiResponses | CohereV2Chat

fun protocol_recipe :: "adapter_family \<Rightarrow> string" where
  "protocol_recipe Anthropic = ''oven.anthropic.messages''"
| "protocol_recipe AnthropicCompatible = ''oven.anthropic-compatible.messages''"
| "protocol_recipe OpenaiChat = ''oven.openai.chat''"
| "protocol_recipe OpenaiResponses = ''oven.openai.responses''"
| "protocol_recipe OpenaiCompatible = ''oven.openai-compatible.chat''"
| "protocol_recipe GoogleGemini = ''oven.google.gemini.generate-content''"
| "protocol_recipe GoogleVertexGemini = ''oven.google.vertex.generate-content''"
| "protocol_recipe AwsBedrockConverse = ''oven.bedrock.converse''"
| "protocol_recipe AzureOpenaiChat = ''oven.azure.openai.chat''"
| "protocol_recipe AzureOpenaiResponses = ''oven.azure.openai.responses''"
| "protocol_recipe CohereV2Chat = ''oven.cohere.chat-v2''"

definition families :: "adapter_family list" where
  "families = [Anthropic, AnthropicCompatible, OpenaiChat, OpenaiResponses, OpenaiCompatible,
     GoogleGemini, GoogleVertexGemini, AwsBedrockConverse, AzureOpenaiChat, AzureOpenaiResponses,
     CohereV2Chat]"

definition wire_adapter_for_protocol :: "string \<Rightarrow> adapter_family option" where
  "wire_adapter_for_protocol adapter_id =
     (case find (\<lambda>family. protocol_recipe family = adapter_id) families of
        Some family \<Rightarrow> Some family
      | None \<Rightarrow>
          if starts_with adapter_id ''oven.openai-compatible.responses.'' then Some OpenaiResponses
          else if starts_with adapter_id ''oven.openai-compatible.chat.'' then Some OpenaiCompatible
          else if starts_with adapter_id ''oven.anthropic-compatible.messages.'' then Some AnthropicCompatible
          else None)"

text \<open>Which strategies a family takes: \<open>cache_strategies_match_bindings\<close>, one binding.\<close>

fun strategy_fits :: "adapter_family \<Rightarrow> cache_strategy \<Rightarrow> bool" where
  "strategy_fits family (AnthropicCache _ _ _) \<longleftrightarrow> family \<in> {Anthropic, AnthropicCompatible}"
| "strategy_fits family (BedrockCache _ _ _) \<longleftrightarrow> family = AwsBedrockConverse"
| "strategy_fits family (GoogleCache _ _) \<longleftrightarrow> family \<in> {GoogleGemini, GoogleVertexGemini}"
| "strategy_fits family (OpenAiCache _ _ _ _ _ _) \<longleftrightarrow>
     family \<in> {OpenaiChat, OpenaiResponses, OpenaiCompatible, AzureOpenaiChat, AzureOpenaiResponses}"

subsection \<open>Bindings\<close>

record model_selection =
  sel_model :: string
  sel_variant :: "string option"

text \<open>\<open>ModelKey\<close> is validated to hold a slash, so that both parts exist.\<close>

definition key_provider :: "string \<Rightarrow> string option" where
  "key_provider key = map_option fst (split_once key ''/'')"

definition key_model :: "string \<Rightarrow> string option" where
  "key_model key = map_option snd (split_once key ''/'')"

record resolved_model =
  rs_selection :: model_selection
  rs_provider :: string
  rs_model :: string
  rs_adapter :: string
  rs_fingerprint :: string

record persisted_binding =
  pb_selection :: model_selection
  pb_provider :: string
  pb_model :: string
  pb_adapter :: string
  pb_resolved :: resolved_model
  pb_selection_fingerprint :: string
  pb_blueprint_fingerprint :: string
  pb_frozen :: string

datatype model_schema_error = ResolvedIdentityMismatch | InvalidAdapter

definition resolved_validate :: "resolved_model \<Rightarrow> model_schema_error + unit" where
  "resolved_validate r =
     (if key_provider (sel_model (rs_selection r)) \<noteq> Some (rs_provider r)
         \<or> key_model (sel_model (rs_selection r)) \<noteq> Some (rs_model r)
      then Inl ResolvedIdentityMismatch else Inr ())"

definition binding_validate :: "persisted_binding \<Rightarrow> model_schema_error + unit" where
  "binding_validate b =
     (if key_provider (sel_model (pb_selection b)) \<noteq> Some (pb_provider b)
         \<or> key_model (sel_model (pb_selection b)) \<noteq> Some (pb_model b)
         \<or> rs_selection (pb_resolved b) \<noteq> pb_selection b
         \<or> rs_fingerprint (pb_resolved b) \<noteq> pb_selection_fingerprint b
      then Inl ResolvedIdentityMismatch
      else if pb_adapter b = [] \<or> length (pb_adapter b) > 256 \<or> list_ex is_control (pb_adapter b)
      then Inl InvalidAdapter
      else resolved_validate (pb_resolved b))"

subsection \<open>Agents\<close>

datatype agent_schema_error =
    InvalidDelegationTargets | InvalidDescription | InvalidPrompt | InvalidListBounds
  | DuplicateFallbackModel | InvalidModelBinding | InvalidSuffixStart | SelectionMismatch

record delegation_policy =
  dp_targets :: "string list"
  dp_ceiling :: nat

definition policy_validate :: "delegation_policy \<Rightarrow> agent_schema_error + unit" where
  "policy_validate p =
     (if dp_targets p = [] \<or> length (dp_targets p) > 256 then Inl InvalidDelegationTargets
      else if list_ex (\<lambda>(a, b). a \<ge> b) (zip (dp_targets p) (tl (dp_targets p)))
      then Inl InvalidDelegationTargets
      else Inr ())"

text \<open>The fields of \<open>AgentSnapshot\<close> beyond those that permissions read.\<close>

record frozen_agent = agent_snapshot +
  fa_description :: string
  fa_document_source :: string
  fa_document_fingerprint :: string
  fa_prompt :: string
  fa_prompt_fingerprint :: string
  fa_max_output_tokens :: nat
  fa_delegation :: "delegation_policy option"
  fa_chain :: "persisted_binding list"
  fa_suffix_start :: nat
  fa_exposure :: string

definition MAX_PROMPT_BYTES :: nat where
  "MAX_PROMPT_BYTES = 128 * 1024"

text \<open>Inserting every model into a set, stopping at one it holds.\<close>

fun all_new :: "'a set \<Rightarrow> 'a list \<Rightarrow> bool" where
  "all_new seen [] = True"
| "all_new seen (x # xs) = (x \<notin> seen \<and> all_new (insert x seen) xs)"

fun first_error :: "('a \<Rightarrow> 'e + unit) \<Rightarrow> 'a list \<Rightarrow> 'e option" where
  "first_error f [] = None"
| "first_error f (x # xs) = (case f x of Inl e \<Rightarrow> Some e | Inr _ \<Rightarrow> first_error f xs)"

definition agent_validate :: "frozen_agent \<Rightarrow> agent_schema_error + unit" where
  "agent_validate a =
     (if trim (fa_description a) = [] \<or> length (fa_description a) > 512
         \<or> list_ex is_control (fa_description a)
      then Inl InvalidDescription
      else if trim (fa_prompt a) = [] \<or> length (fa_prompt a) > MAX_PROMPT_BYTES
      then Inl InvalidPrompt
      else if length (ag_permissions a) > 256 \<or> fa_chain a = [] \<or> length (fa_chain a) > 256
      then Inl InvalidListBounds
      else if \<not> all_new {} (map (\<lambda>b. sel_model (pb_selection b)) (fa_chain a))
      then Inl DuplicateFallbackModel
      else if first_error binding_validate (fa_chain a) \<noteq> None
      then Inl InvalidModelBinding
      else if fa_suffix_start a \<ge> length (fa_chain a)
      then Inl InvalidSuffixStart
      else case fa_delegation a of None \<Rightarrow> Inr () | Some d \<Rightarrow> policy_validate d)"

definition selected_suffix :: "frozen_agent \<Rightarrow> persisted_binding list" where
  "selected_suffix a =
     (if fa_suffix_start a \<le> length (fa_chain a) then drop (fa_suffix_start a) (fa_chain a) else [])"

text \<open>\<open>validate_selection\<close> takes the first of the suffix, which a valid agent has.\<close>

definition validate_selection :: "frozen_agent \<Rightarrow> string \<Rightarrow> model_selection \<Rightarrow> agent_schema_error + unit" where
  "validate_selection a agent_id model =
     (case agent_validate a of
        Inl e \<Rightarrow> Inl e
      | Inr _ \<Rightarrow>
          if agent_id \<noteq> ag_agent a \<or> map_option pb_selection (nth_opt (selected_suffix a) 0) \<noteq> Some model
          then Inl SelectionMismatch else Inr ())"

subsection \<open>What the checks mean\<close>

lemma ttl_order_iff:
  "ttl_order_from saw vs \<longleftrightarrow> \<not> (saw \<and> OneHour \<in> set vs)
     \<and> (\<forall>i j. i < j \<longrightarrow> j < length vs \<longrightarrow> vs ! i = FiveMinutes \<longrightarrow> vs ! j \<noteq> OneHour)"
proof (induction vs arbitrary: saw)
  case (Cons v vs)
  have shift: "(\<forall>i j. i < j \<longrightarrow> j < length (v # vs) \<longrightarrow> (v # vs) ! i = FiveMinutes \<longrightarrow> (v # vs) ! j \<noteq> OneHour)
    \<longleftrightarrow> (v = FiveMinutes \<longrightarrow> OneHour \<notin> set vs)
      \<and> (\<forall>i j. i < j \<longrightarrow> j < length vs \<longrightarrow> vs ! i = FiveMinutes \<longrightarrow> vs ! j \<noteq> OneHour)"
    (is "?l \<longleftrightarrow> ?h \<and> ?t")
  proof
    assume l: ?l
    have ?h
      using l [rule_format, of 0 "Suc _"] by (auto simp: in_set_conv_nth)
    moreover have ?t
      using l [rule_format, of "Suc _" "Suc _"] by auto
    ultimately show "?h \<and> ?t" ..
  next
    assume r: "?h \<and> ?t"
    show ?l
    proof (intro allI impI)
      fix i j
      assume ij: "i < j" "j < length (v # vs)" "(v # vs) ! i = FiveMinutes"
      then obtain k where k: "j = Suc k" "k < length vs" by (cases j) auto
      show "(v # vs) ! j \<noteq> OneHour"
        using ij k r by (cases i) (auto simp: in_set_conv_nth)
    qed
  qed
  show ?case
    unfolding shift using Cons.IH by (cases v) auto
qed simp

text \<open>A long lifetime never follows a short one.\<close>

lemma valid_cache_ttl_order_iff:
  "valid_cache_ttl_order vs \<longleftrightarrow>
     (\<forall>i j. i < j \<longrightarrow> j < length vs \<longrightarrow> vs ! i = FiveMinutes \<longrightarrow> vs ! j \<noteq> OneHour)"
  by (simp add: valid_cache_ttl_order_def ttl_order_iff)

lemma bad_point_iff:
  "\<not> bad_point seen ps \<longleftrightarrow> (\<forall>p \<in> set ps. bp_ttl p \<noteq> CacheOff \<and> bp_history_index p \<notin> seen)
     \<and> distinct (map bp_history_index ps)"
proof (induction ps arbitrary: seen)
  case (Cons p ps)
  show ?case
    unfolding bad_point.simps de_Morgan_disj Cons.IH by (auto simp: image_iff)
qed simp

lemma all_new_iff: "all_new seen xs \<longleftrightarrow> distinct xs \<and> seen \<inter> set xs = {}"
  by (induction xs arbitrary: seen) auto

lemma first_error_None: "first_error f xs = None \<longleftrightarrow> (\<forall>x \<in> set xs. f x = Inr ())"
  by (induction xs) (auto split: sum.splits)

lemma find_family: "find (\<lambda>g. protocol_recipe g = protocol_recipe f) families = Some f"
  by (cases f) (simp_all add: families_def)

text \<open>Every family is found again by the recipe it is written as.\<close>

lemma wire_adapter_protocol_recipe: "wire_adapter_for_protocol (protocol_recipe f) = Some f"
  by (simp add: wire_adapter_for_protocol_def find_family)

lemma agent_validate_Inr:
  assumes "agent_validate a = Inr ()"
  shows "selected_suffix a \<noteq> []" and "length (selected_suffix a) \<le> 256"
    and "distinct (map (\<lambda>b. sel_model (pb_selection b)) (selected_suffix a))"
    and "\<forall>b \<in> set (selected_suffix a). binding_validate b = Inr ()"
proof -
  have a: "fa_suffix_start a < length (fa_chain a)" "length (fa_chain a) \<le> 256"
    "distinct (map (\<lambda>b. sel_model (pb_selection b)) (fa_chain a))"
    "\<forall>b \<in> set (fa_chain a). binding_validate b = Inr ()"
    using assms by (auto simp: agent_validate_def all_new_iff first_error_None not_le split: if_splits)
  show "selected_suffix a \<noteq> []" and "length (selected_suffix a) \<le> 256"
    using a(1,2) by (simp_all add: selected_suffix_def)
  show "distinct (map (\<lambda>b. sel_model (pb_selection b)) (selected_suffix a))"
    using a(3) by (simp add: selected_suffix_def drop_map [symmetric])
  show "\<forall>b \<in> set (selected_suffix a). binding_validate b = Inr ()"
    using a(4) by (auto simp: selected_suffix_def dest: in_set_dropD)
qed

end
