(* ===== verification/Delegations.thy ===== *)
theory Delegations
  imports Agent_Snapshot "HOL-Library.Monad_Syntax"
begin

text \<open>
  Delegations: \<open>DelegationEventStore\<close> (\<open>crates/engine_store/src/delegation_events.rs\<close>) with
  the records it appends to the parent's log (\<open>crates/protocol/src/event.rs\<close>: their payloads,
  their \<open>validate\<close>, and \<open>RevisionFold\<close>, which leaves out revisions that did not change).
  A log is a list of records; the rest of the log's own checks and the file system decide whether
  it takes one: the parameter \<open>accepts\<close>. The lock of the state is dropped.
\<close>

subsection \<open>Requests and records\<close>

type_synonym invocation_id = string
type_synonym run_id = nat
type_synonym tool_call_id = nat

record revisions =
  rev_runtime :: nat
  rev_catalog :: nat
  rev_provider_state :: nat
  rev_model :: nat
  rev_agent :: nat
  rev_recipe_registry :: nat
  rev_manifest :: nat

datatype session_status = Idle | Running | Completed | Failed | Cancelled | Interrupted

record reservation =
  rv_invocation :: invocation_id
  rv_parent_session :: session_id
  rv_parent_run :: run_id
  rv_tool_call :: tool_call_id
  rv_child_session :: session_id

datatype context_role = UserTurn | AssistantTurn

record context_turn =
  ct_role :: context_role
  ct_text :: string

datatype skill_provenance = SkillFork

record staged_skill =
  sk_provenance :: skill_provenance
  sk_name :: string
  sk_args :: string
  sk_body :: string
  sk_source_path :: string
  sk_base_dir :: string
  sk_files :: "string list"
  sk_grants :: "permission_rule list"
  sk_model :: "string option"
  sk_attachment :: "string option"

record delegate_request =
  dr_description :: string
  dr_prompt :: string
  dr_title :: string
  dr_resume :: "session_id option"
  dr_inherit_context :: bool
  dr_seeded :: "context_turn list"
  dr_background :: bool
  dr_skill :: "staged_skill option"

datatype stage =
    Started session_id
  | RunStarted run_id
  | RunAttached run_id
  | Queued "nat option"
  | UnknownStage

datatype record_payload =
    DelegationReserved reservation frozen_agent "revisions option" "cache_strategy option list" string
      delegate_request
  | DelegationProgressed invocation_id stage
  | DelegationFinished invocation_id session_id "run_id option" session_status "string option"
      "string option" string nat
  | SessionCreated revisions
  | RunStartedRecord "revisions option"
  | OtherRecord


definition invalid_skill :: "delegate_request \<Rightarrow> staged_skill \<Rightarrow> bool" where
  "invalid_skill request skill \<longleftrightarrow> sk_provenance skill \<noteq> SkillFork \<or> sk_name skill = [] \<or> sk_body skill = []
     \<or> sk_source_path skill = [] \<or> sk_base_dir skill = [] \<or> length (sk_files skill) > 10
     \<or> length (sk_grants skill) > 256 \<or> dr_resume request \<noteq> None"

definition valid_request :: "delegate_request \<Rightarrow> bool" where
  "valid_request request \<longleftrightarrow>
     (if dr_description request = [] \<or> dr_prompt request = [] then False
      else if dr_resume request \<noteq> None \<and> dr_inherit_context request then False
      else if \<not> dr_inherit_context request \<and> dr_seeded request \<noteq> [] then False
      else if length (dr_seeded request) > 65536 then False
      else if (case dr_skill request of None \<Rightarrow> False | Some skill \<Rightarrow> invalid_skill request skill) then False
      else \<not> list_ex (\<lambda>turn. ct_text turn = []) (dr_seeded request))"


text \<open>\<open>DelegateRequestPayload::validate\<close>, as a writer runs it.\<close>

definition request_validate :: "delegate_request \<Rightarrow> bool" where
  "request_validate request \<longleftrightarrow>
     \<not> (dr_description request = [] \<or> dr_prompt request = []
        \<or> (dr_resume request \<noteq> None \<and> dr_inherit_context request)
        \<or> (\<not> dr_inherit_context request \<and> dr_seeded request \<noteq> [])
        \<or> length (dr_seeded request) > 65536
        \<or> list_ex (\<lambda>turn. ct_text turn = []) (dr_seeded request)
        \<or> sum_list (map (\<lambda>turn. length (ct_text turn)) (dr_seeded request)) > 65536)
     \<and> \<not> (case dr_skill request of None \<Rightarrow> False | Some skill \<Rightarrow> invalid_skill request skill)"

definition is_terminal_status :: "session_status \<Rightarrow> bool" where
  "is_terminal_status status \<longleftrightarrow> status \<in> {Completed, Failed, Cancelled, Interrupted}"



subsection \<open>Revisions\<close>


fun elide_unchanged :: "revisions option \<Rightarrow> record_payload \<Rightarrow> record_payload" where
  "elide_unchanged latest (RunStartedRecord r) =
     RunStartedRecord (if r \<noteq> None \<and> r = latest then None else r)"
| "elide_unchanged latest (DelegationReserved res agent r strategies fp request) =
     DelegationReserved res agent (if r \<noteq> None \<and> r = latest then None else r) strategies fp request"
| "elide_unchanged latest p = p"





subsection \<open>The state\<close>

record entry =
  de_reservation :: reservation
  de_agent :: frozen_agent
  de_revisions :: revisions
  de_strategies :: "cache_strategy option list"
  de_fingerprint :: string
  de_request :: delegate_request
  de_started :: bool
  de_child_run :: "run_id option"
  de_attached :: bool
  de_status :: "session_status option"
  de_reason :: "string option"

datatype delegation_error = SessionFailed | Corrupt invocation_id

record delegation_state =
  ds_entries :: "(invocation_id, entry) hash_map"
  ds_order :: "invocation_id list"
  ds_unrecoverable :: "invocation_id set"

definition delegation_empty :: delegation_state where
  "delegation_empty = \<lparr>ds_entries = hm_empty, ds_order = [], ds_unrecoverable = {}\<rparr>"

fun invocation_of :: "record_payload \<Rightarrow> invocation_id option" where
  "invocation_of (DelegationReserved res _ _ _ _ _) = Some (rv_invocation res)"
| "invocation_of (DelegationProgressed i _) = Some i"
| "invocation_of (DelegationFinished i _ _ _ _ _ _ _) = Some i"
| "invocation_of _ = None"

definition is_delegation_payload :: "record_payload \<Rightarrow> bool" where
  "is_delegation_payload p \<longleftrightarrow>
     (case p of DelegationReserved _ _ _ _ _ _ \<Rightarrow> True | DelegationProgressed _ _ \<Rightarrow> True
      | DelegationFinished _ _ _ _ _ _ _ _ \<Rightarrow> True | _ \<Rightarrow> False)"

definition new_entry :: "reservation \<Rightarrow> frozen_agent \<Rightarrow> revisions \<Rightarrow> cache_strategy option list \<Rightarrow> string \<Rightarrow>
    delegate_request \<Rightarrow> entry" where
  "new_entry res agent revs strategies fp request =
     \<lparr>de_reservation = res, de_agent = agent, de_revisions = revs, de_strategies = strategies,
      de_fingerprint = fp, de_request = request, de_started = False, de_child_run = None,
      de_attached = False, de_status = None, de_reason = None\<rparr>"

definition put_entry :: "invocation_id \<Rightarrow> entry \<Rightarrow> delegation_state \<Rightarrow> delegation_state" where
  "put_entry i e s = s\<lparr>ds_entries := hm_insert i e (ds_entries s)\<rparr>"

definition of_parent :: "session_id \<Rightarrow> run_id option \<Rightarrow> entry \<Rightarrow> bool" where
  "of_parent parent run e \<longleftrightarrow>
     parent = rv_parent_session (de_reservation e) \<and> run = Some (rv_parent_run (de_reservation e))"

subsection \<open>Reading records\<close>

definition apply_run :: "delegation_state \<Rightarrow> session_id \<Rightarrow> run_id option \<Rightarrow> invocation_id \<Rightarrow> run_id \<Rightarrow> bool \<Rightarrow>
    delegation_error + delegation_state" where
  "apply_run s parent run i child_run attached =
     (case hm_get (ds_entries s) i of
        None \<Rightarrow> Inr s
      | Some e \<Rightarrow>
          if \<not> of_parent parent run e \<or> de_child_run e \<noteq> None \<or> de_status e \<noteq> None
             \<or> attached \<and> dr_resume (de_request e) = None
          then Inl (Corrupt i)
          else Inr (put_entry i (e\<lparr>de_child_run := Some child_run, de_attached := attached\<rparr>) s))"

definition apply_reserved :: "delegation_state \<Rightarrow> session_id \<Rightarrow> run_id option \<Rightarrow> reservation \<Rightarrow> frozen_agent \<Rightarrow>
    revisions option \<Rightarrow> cache_strategy option list \<Rightarrow> string \<Rightarrow> delegate_request \<Rightarrow>
    delegation_error + delegation_state" where
  "apply_reserved s parent run res agent revs strategies fp request =
     (let i = rv_invocation res in
      case revs of
        None \<Rightarrow> Inl (Corrupt i)
      | Some revs' \<Rightarrow>
          if parent \<noteq> rv_parent_session res \<or> run \<noteq> Some (rv_parent_run res)
             \<or> hm_get (ds_entries s) i \<noteq> None
             \<or> (case dr_resume request of None \<Rightarrow> False | Some sid \<Rightarrow> sid \<noteq> rv_child_session res)
             \<or> \<not> valid_request request \<or> agent_validate agent \<noteq> Inr ()
             \<or> length strategies \<noteq> length (selected_suffix agent)
          then Inl (Corrupt i)
          else Inr ((put_entry i (new_entry res agent revs' strategies fp request) s)
                      \<lparr>ds_order := ds_order s @ [i]\<rparr>))"

definition apply_started :: "delegation_state \<Rightarrow> session_id \<Rightarrow> run_id option \<Rightarrow> invocation_id \<Rightarrow> session_id \<Rightarrow>
    delegation_error + delegation_state" where
  "apply_started s parent run i child =
     (case hm_get (ds_entries s) i of
        None \<Rightarrow> Inr s
      | Some e \<Rightarrow>
          if \<not> of_parent parent run e \<or> child \<noteq> rv_child_session (de_reservation e) \<or> de_started e
          then Inl (Corrupt i)
          else Inr (put_entry i (e\<lparr>de_started := True\<rparr>) s))"

definition apply_finished :: "delegation_state \<Rightarrow> session_id \<Rightarrow> run_id option \<Rightarrow> invocation_id \<Rightarrow> session_id \<Rightarrow>
    run_id option \<Rightarrow> session_status \<Rightarrow> string option \<Rightarrow> delegation_error + delegation_state" where
  "apply_finished s parent run i child child_run status reason =
     (case hm_get (ds_entries s) i of
        None \<Rightarrow> Inr s
      | Some e \<Rightarrow>
          if \<not> of_parent parent run e \<or> child \<noteq> rv_child_session (de_reservation e)
             \<or> child_run \<noteq> de_child_run e \<or> de_status e \<noteq> None \<or> \<not> is_terminal_status status
          then Inl (Corrupt i)
          else Inr (put_entry i (e\<lparr>de_status := Some status, de_reason := reason\<rparr>) s))"

definition apply_event :: "delegation_state \<Rightarrow> session_id \<Rightarrow> run_id option \<Rightarrow> record_payload \<Rightarrow>
    delegation_error + delegation_state" where
  "apply_event s parent run payload =
     (case payload of
        DelegationReserved res agent revs strategies fp request \<Rightarrow>
          apply_reserved s parent run res agent revs strategies fp request
      | DelegationProgressed i stage \<Rightarrow>
          (case stage of
             Started child \<Rightarrow> apply_started s parent run i child
           | RunStarted child_run \<Rightarrow> apply_run s parent run i child_run False
           | RunAttached child_run \<Rightarrow> apply_run s parent run i child_run True
           | _ \<Rightarrow> Inr s)
      | DelegationFinished i child child_run status reason _ _ _ \<Rightarrow>
          apply_finished s parent run i child child_run status reason
      | _ \<Rightarrow> Inr s)"

definition apply_stored :: "delegation_state \<Rightarrow> session_id \<Rightarrow> run_id option \<Rightarrow> record_payload \<Rightarrow> delegation_state" where
  "apply_stored s parent run payload =
     (case invocation_of payload of
        None \<Rightarrow> s
      | Some i \<Rightarrow>
          if i \<in> ds_unrecoverable s then s
          else (case apply_event s parent run payload of
              Inl (Corrupt j) \<Rightarrow>
                s\<lparr>ds_entries := hm_remove j (ds_entries s), ds_order := filter (\<lambda>id. id \<noteq> j) (ds_order s),
                  ds_unrecoverable := insert j (ds_unrecoverable s)\<rparr>
            | Inl SessionFailed \<Rightarrow> s
            | Inr s' \<Rightarrow> s'))"

text \<open>\<open>extend_from_payloads\<close>: the entries that changed, in order.\<close>

fun extend_from_payloads :: "delegation_state \<Rightarrow> (session_id \<times> run_id option \<times> record_payload) list \<Rightarrow>
    delegation_state \<times> entry list" where
  "extend_from_payloads s [] = (s, [])"
| "extend_from_payloads s ((parent, run, payload) # ps) =
     (case invocation_of payload of
        None \<Rightarrow> extend_from_payloads s ps
      | Some i \<Rightarrow>
          let before = hm_get (ds_entries s) i;
              s' = apply_stored s parent run payload;
              (s'', touched) = extend_from_payloads s' ps
          in (s'', (case hm_get (ds_entries s') i of
                None \<Rightarrow> []
              | Some updated \<Rightarrow> if before \<noteq> Some updated then [updated] else []) @ touched))"



definition retain_entries :: "(entry \<Rightarrow> bool) \<Rightarrow> delegation_state \<Rightarrow> delegation_state" where
  "retain_entries P s =
     (let entries = hm_retain (\<lambda>_ e. P e) (ds_entries s)
      in s\<lparr>ds_entries := entries, ds_order := filter (\<lambda>i. hm_get entries i \<noteq> None) (ds_order s)\<rparr>)"

fun move_entries :: "invocation_id list \<Rightarrow> (invocation_id, entry) hash_map \<Rightarrow> delegation_state \<Rightarrow> delegation_state" where
  "move_entries [] rebuilt s = s"
| "move_entries (i # is) rebuilt s =
     (case hm_get rebuilt i of
        Some e \<Rightarrow> move_entries is (hm_remove i rebuilt) ((put_entry i e s)\<lparr>ds_order := ds_order s @ [i]\<rparr>)
      | None \<Rightarrow> move_entries is rebuilt s)"


subsection \<open>Live operations\<close>

record frozen_binding =
  fb_manifest :: nat
  fb_blueprint_fingerprint :: string
  fb_selection :: model_selection
  fb_selection_fingerprint :: string
  fb_adapter :: string




record reserve_args =
  ra_invocation :: invocation_id
  ra_parent_session :: session_id
  ra_parent_run :: run_id
  ra_tool_call :: tool_call_id
  ra_agent :: frozen_agent
  ra_revisions :: revisions
  ra_suffix :: "frozen_binding list"
  ra_strategies :: "cache_strategy option list"
  ra_fingerprint :: string
  ra_request :: delegate_request











definition find_child_run :: "delegation_state \<Rightarrow> session_id \<Rightarrow> run_id \<Rightarrow> entry option" where
  "find_child_run s child child_run =
     find (\<lambda>e. rv_child_session (de_reservation e) = child \<and> de_child_run e = Some child_run)
       (map snd (ds_entries s))"

definition forget_sessions :: "session_id set \<Rightarrow> delegation_state \<Rightarrow> delegation_state" where
  "forget_sessions deleted = retain_entries (\<lambda>e. rv_parent_session (de_reservation e) \<notin> deleted
     \<and> rv_child_session (de_reservation e) \<notin> deleted)"

subsection \<open>The log gives back what the writer left out\<close>


lemma elide_invocation [simp]: "invocation_of (elide_unchanged latest p) = invocation_of p"
  by (cases p) auto




subsection \<open>The store and its log agree\<close>





lemma put_get [simp]:
  "hm_get (ds_entries (put_entry i e s)) j = (if j = i then Some e else hm_get (ds_entries s) j)"
  "ds_order (put_entry i e s) = ds_order s" "ds_unrecoverable (put_entry i e s) = ds_unrecoverable s"
  "hm_ok (ds_entries s) \<Longrightarrow> hm_ok (ds_entries (put_entry i e s))"
  by (simp_all add: put_entry_def hm_get_insert hm_ok_insert)

lemma put_order [simp]:
  "hm_get (ds_entries (s\<lparr>ds_order := is\<rparr>)) j = hm_get (ds_entries s) j"
  by simp










subsection \<open>Any use of the store\<close>






subsection \<open>Reconciling\<close>


lemma move_entries_rest [simp]:
  "ds_unrecoverable (move_entries is rebuilt s) = ds_unrecoverable s"
  by (induction "is" rebuilt s rule: move_entries.induct) (auto split: option.split)




subsection \<open>What stored records can do\<close>

text \<open>How an entry may change, whatever records are read: progress is set once, an outcome is final.\<close>

definition entry_follows :: "entry \<Rightarrow> entry \<Rightarrow> bool" where
  "entry_follows e e' \<longleftrightarrow> de_reservation e' = de_reservation e \<and> de_agent e' = de_agent e
     \<and> de_revisions e' = de_revisions e \<and> de_strategies e' = de_strategies e
     \<and> de_fingerprint e' = de_fingerprint e \<and> de_request e' = de_request e
     \<and> (de_started e \<longrightarrow> de_started e')
     \<and> (de_child_run e \<noteq> None \<longrightarrow> de_child_run e' = de_child_run e \<and> de_attached e' = de_attached e)
     \<and> (de_status e \<noteq> None \<longrightarrow> de_status e' = de_status e \<and> de_reason e' = de_reason e
          \<and> de_child_run e' = de_child_run e \<and> de_attached e' = de_attached e)"

definition delegation_follows :: "invocation_id \<Rightarrow> entry \<Rightarrow> delegation_state \<Rightarrow> bool" where
  "delegation_follows i e s \<longleftrightarrow> hm_ok (ds_entries s) \<and>
     (if i \<in> ds_unrecoverable s then hm_get (ds_entries s) i = None
      else \<exists>e'. hm_get (ds_entries s) i = Some e' \<and> entry_follows e e')"

lemma entry_follows_refl: "entry_follows e e"
  by (simp add: entry_follows_def)

lemma entry_follows_trans: "entry_follows e e' \<Longrightarrow> entry_follows e' e'' \<Longrightarrow> entry_follows e e''"
  by (auto simp: entry_follows_def)

lemma apply_event_Inl:
  "apply_event s parent run payload = Inl err \<Longrightarrow> invocation_of payload = Some i \<Longrightarrow> err = Corrupt i"
  by (auto simp: apply_event_def apply_reserved_def apply_started_def apply_run_def apply_finished_def Let_def
      split: record_payload.splits stage.splits option.splits if_splits)

text \<open>A record that verifies leaves the state, enters a new delegation or advances one.\<close>

definition advances :: "invocation_id \<Rightarrow> delegation_state \<Rightarrow> delegation_state \<Rightarrow> bool" where
  "advances i s s' \<longleftrightarrow> s' = s
     \<or> (\<exists>e. hm_get (ds_entries s) i = None \<and> s' = (put_entry i e s)\<lparr>ds_order := ds_order s @ [i]\<rparr>)
     \<or> (\<exists>e e'. hm_get (ds_entries s) i = Some e \<and> s' = put_entry i e' s \<and> entry_follows e e')"

lemma advances_reserved:
  "apply_reserved s parent run res agent revs strategies fp request = Inr s' \<Longrightarrow> advances (rv_invocation res) s s'"
  unfolding apply_reserved_def advances_def Let_def by (auto split: option.splits if_splits)

lemma advances_put: "hm_get (ds_entries s) i = Some e \<Longrightarrow> entry_follows e e' \<Longrightarrow> advances i s (put_entry i e' s)"
  unfolding advances_def by blast

lemma advances_same: "advances i s s"
  by (simp add: advances_def)

lemma advances_started: "apply_started s parent run i child = Inr s' \<Longrightarrow> advances i s s'"
  by (auto simp: apply_started_def entry_follows_def split: option.splits if_splits
      intro: advances_same intro!: advances_put)

lemma advances_run: "apply_run s parent run i child_run attached = Inr s' \<Longrightarrow> advances i s s'"
  by (auto simp: apply_run_def entry_follows_def split: option.splits if_splits
      intro: advances_same intro!: advances_put)

lemma advances_finished: "apply_finished s parent run i child child_run status reason = Inr s' \<Longrightarrow> advances i s s'"
  by (auto simp: apply_finished_def entry_follows_def split: option.splits if_splits
      intro: advances_same intro!: advances_put)

lemma apply_event_advances:
  assumes "apply_event s parent run payload = Inr s'" and "invocation_of payload = Some i"
  shows "advances i s s'"
  using assms
  by (auto simp: apply_event_def advances_same split: record_payload.splits stage.splits
      dest: advances_reserved advances_started advances_run advances_finished)

lemma apply_stored_follows:
  assumes "delegation_follows i e s"
  shows "delegation_follows i e (apply_stored s parent run payload)"
proof (cases "invocation_of payload")
  case None
  with assms show ?thesis by (simp add: apply_stored_def)
next
  case (Some j)
  have ok: "hm_ok (ds_entries s)" using assms by (simp add: delegation_follows_def)
  show ?thesis
  proof (cases "apply_event s parent run payload")
    case (Inl err)
    then have "err = Corrupt j" using apply_event_Inl Some by blast
    then show ?thesis
      using assms Inl Some ok
      by (auto simp: apply_stored_def delegation_follows_def hm_get_remove hm_ok_remove)
  next
    case (Inr s')
    then consider "s' = s"
      | e' where "hm_get (ds_entries s) j = None" and "s' = (put_entry j e' s)\<lparr>ds_order := ds_order s @ [j]\<rparr>"
      | e1 e2 where "hm_get (ds_entries s) j = Some e1" and "s' = put_entry j e2 s" and "entry_follows e1 e2"
      using apply_event_advances [OF _ Some] unfolding advances_def by blast
    then have "delegation_follows i e s' \<or> j \<in> ds_unrecoverable s"
      using assms ok by cases (auto simp: delegation_follows_def intro: entry_follows_trans split: if_splits)
    then show ?thesis using Inr Some assms by (auto simp: apply_stored_def)
  qed
qed

lemma extend_follows:
  "delegation_follows i e s \<Longrightarrow> delegation_follows i e (fst (extend_from_payloads s ps))"
  by (induction s ps rule: extend_from_payloads.induct)
    (auto simp: Let_def apply_stored_follows split: option.split prod.split)

definition stored_ok :: "delegation_state \<Rightarrow> bool" where
  "stored_ok s \<longleftrightarrow> hm_ok (ds_entries s) \<and> (\<forall>i \<in> ds_unrecoverable s. hm_get (ds_entries s) i = None)"

lemma apply_stored_ok:
  assumes "stored_ok s"
  shows "stored_ok (apply_stored s parent run payload)"
proof (cases "invocation_of payload")
  case (Some j)
  show ?thesis
  proof (cases "j \<in> ds_unrecoverable s")
    case False
    show ?thesis
    proof (cases "apply_event s parent run payload")
      case (Inl err)
      then have "err = Corrupt j" using apply_event_Inl Some by blast
      then show ?thesis
        using assms Inl Some by (auto simp: apply_stored_def stored_ok_def hm_get_remove hm_ok_remove)
    next
      case (Inr s')
      from apply_event_advances [OF this Some] have "stored_ok s'"
        using assms False by (auto simp: advances_def stored_ok_def)
      with Inr Some assms show ?thesis by (simp add: apply_stored_def)
    qed
  qed (simp add: apply_stored_def Some assms)
qed (simp add: apply_stored_def assms)

lemma extend_ok: "stored_ok s \<Longrightarrow> stored_ok (fst (extend_from_payloads s ps))"
  by (induction s ps rule: extend_from_payloads.induct)
    (auto simp: Let_def apply_stored_ok split: option.split prod.split)

lemma extend_append:
  "fst (extend_from_payloads s (ps @ qs)) = fst (extend_from_payloads (fst (extend_from_payloads s ps)) qs)"
  by (induction s ps rule: extend_from_payloads.induct)
    (auto simp: Let_def case_prod_beta' split: option.split)

subsection \<open>Properties\<close>

definition sample_binding :: persisted_binding where
  "sample_binding =
     \<lparr>pb_selection = \<lparr>sel_model = ''p/m'', sel_variant = None\<rparr>, pb_provider = ''p'', pb_model = ''m'',
      pb_adapter = ''acp'',
      pb_resolved = \<lparr>rs_selection = \<lparr>sel_model = ''p/m'', sel_variant = None\<rparr>, rs_provider = ''p'',
        rs_model = ''m'', rs_adapter = ''a'', rs_fingerprint = ''f''\<rparr>,
      pb_selection_fingerprint = ''f'', pb_blueprint_fingerprint = ''b'', pb_frozen = ''x''\<rparr>"

definition sample_agent :: frozen_agent where
  "sample_agent =
     \<lparr>ag_agent = ''a'', ag_mode = Subagent, ag_permissions = [], fa_description = ''d'',
      fa_document_source = ''user'', fa_document_fingerprint = ''f'', fa_prompt = ''p'',
      fa_prompt_fingerprint = ''f'', fa_max_output_tokens = 1, fa_delegation = None,
      fa_chain = [sample_binding], fa_suffix_start = 0, fa_exposure = []\<rparr>"

definition sample_request :: delegate_request where
  "sample_request =
     \<lparr>dr_description = ''d'', dr_prompt = ''p'', dr_title = ''t'', dr_resume = None,
      dr_inherit_context = False, dr_seeded = [], dr_background = False, dr_skill = None\<rparr>"

definition sample_revisions :: revisions where
  "sample_revisions = \<lparr>rev_runtime = 1, rev_catalog = 1, rev_provider_state = 1, rev_model = 1,
     rev_agent = 1, rev_recipe_registry = 1, rev_manifest = 1\<rparr>"

definition sample_args :: reserve_args where
  "sample_args =
     \<lparr>ra_invocation = ''i'', ra_parent_session = 1, ra_parent_run = 2, ra_tool_call = 3,
      ra_agent = sample_agent, ra_revisions = sample_revisions, ra_suffix = [], ra_strategies = [None],
      ra_fingerprint = ''f'', ra_request = sample_request\<rparr>"


definition sample_entry :: entry where
  "sample_entry =
     (new_entry \<lparr>rv_invocation = ''i'', rv_parent_session = 1, rv_parent_run = 2, rv_tool_call = 3, rv_child_session = 7\<rparr>
        sample_agent sample_revisions [None] ''f'' sample_request)
       \<lparr>de_started := True, de_child_run := Some 9, de_status := Some Completed\<rparr>"

lemmas sample_definitions = sample_agent_def sample_binding_def sample_request_def sample_revisions_def
  sample_args_def

lemma sample_suffix: "selected_suffix sample_agent = [sample_binding]"
  by (simp add: selected_suffix_def sample_agent_def)

lemma sample_agent_valid: "agent_validate sample_agent = Inr ()"
proof -
  have "trim ''d'' = ''d''" "trim ''p'' = ''p''" "\<not> list_ex is_control ''d''" "\<not> list_ex is_control ''acp''"
    "key_provider ''p/m'' = Some ''p''" "key_model ''p/m'' = Some ''m''"
    by code_simp+
  then show ?thesis
    by (simp add: agent_validate_def sample_agent_def sample_binding_def MAX_PROMPT_BYTES_def
        binding_validate_def resolved_validate_def)
qed

lemma sample_request_valid: "request_validate sample_request" "valid_request sample_request"
  by (simp_all add: request_validate_def valid_request_def sample_request_def)





text \<open>
  Records never rewrite a delegation: whatever records follow, in any order and of any parent,
  a delegation that was read stays with its reservation and request, its child run is set once, its
  outcome is final, or it is dropped as unrecoverable for good.
\<close>

theorem delegation_never_rewritten:
  assumes "hm_get (ds_entries (fst (extend_from_payloads delegation_empty ps))) i = Some e"
    and "s' = fst (extend_from_payloads delegation_empty (ps @ qs))"
  shows "if i \<in> ds_unrecoverable s' then hm_get (ds_entries s') i = None
    else \<exists>e'. hm_get (ds_entries s') i = Some e' \<and> entry_follows e e'"
proof -
  let ?s = "fst (extend_from_payloads delegation_empty ps)"
  have "stored_ok delegation_empty"
    by (simp add: stored_ok_def delegation_empty_def hm_ok_empty)
  then have "stored_ok ?s" by (rule extend_ok)
  then have "delegation_follows i e ?s"
    using assms(1) entry_follows_refl by (auto simp: delegation_follows_def stored_ok_def)
  from extend_follows [OF this, of qs] show ?thesis
    unfolding assms(2) extend_append delegation_follows_def by blast
qed

definition sample_records :: "(session_id \<times> run_id option \<times> record_payload) list" where
  "sample_records =
     [(1, Some 2, DelegationReserved (de_reservation sample_entry) sample_agent (Some sample_revisions) [None] ''f''
        sample_request),
      (1, Some 2, DelegationFinished ''i'' 7 None Failed None None [] 0)]"

theorem delegation_never_rewritten_witness:
  "\<exists>e. hm_get (ds_entries (fst (extend_from_payloads delegation_empty sample_records))) ''i'' = Some e
    \<and> de_status e = Some Failed
    \<and> (\<exists>s'. s' = fst (extend_from_payloads delegation_empty (sample_records
          @ [(1, Some 2, DelegationProgressed ''i'' (RunStarted 4))]))
        \<and> (if ''i'' \<in> ds_unrecoverable s' then hm_get (ds_entries s') ''i'' = None
           else \<exists>e'. hm_get (ds_entries s') ''i'' = Some e' \<and> entry_follows e e'))"
proof -
  have "dr_resume sample_request = None" by (simp add: sample_request_def)
  then obtain e where e: "hm_get (ds_entries (fst (extend_from_payloads delegation_empty sample_records))) ''i'' = Some e"
    and "de_status e = Some Failed"
    by (simp add: sample_records_def sample_entry_def new_entry_def apply_stored_def apply_event_def
        apply_reserved_def apply_finished_def of_parent_def delegation_empty_def hm_get_def hm_empty_def
        sample_agent_valid sample_request_valid sample_suffix put_entry_def is_terminal_status_def Let_def)
  with delegation_never_rewritten [OF e refl] show ?thesis by blast
qed

end
