(* ===== verification/Cron_Schedule.thy ===== *)
theory Cron_Schedule imports Prelude "HOL-Library.Word" begin

text \<open>
  Cron schedules (\<open>crates/engine/src/crons/schedule.rs\<close>): five-field expressions, their next
  match in a time zone, and one-shot delays.

  A \<open>u32\<close> of a field is a natural number; its addition wraps at \<open>2 ^ 32\<close>, as a release build's
  does. A bit set is a word of the width of the code. A loop that need not end is a
  \<open>partial_function\<close>, so that \<^const>\<open>None\<close> stands for not returning, or for a panic of
  \<open>expect\<close>. The crate \<open>jiff\<close> is not part of the repository: its calendar and its time zones are
  the records \<open>calendar\<close> and \<open>time_zone\<close> of functions, which the definitions take as
  arguments. An instant is a number of nanoseconds, a local time a date with an hour and a
  minute, the times an expression can name.
\<close>

unbundle bit_operations_syntax

definition MAX_DELAY_DAYS :: nat where "MAX_DELAY_DAYS = 365"
definition SEARCH_DAYS :: nat where "SEARCH_DAYS = 366 * 9"

record cron_expr =
  minutes :: "64 word"
  hours :: "32 word"
  days_of_month :: "32 word"
  months :: "16 word"
  days_of_week :: "8 word"
  either_day :: bool

definition MONTH_NAMES :: "string list" where
  "MONTH_NAMES = [''jan'', ''feb'', ''mar'', ''apr'', ''may'', ''jun'', ''jul'', ''aug'', ''sep'',
     ''oct'', ''nov'', ''dec'']"

definition DAY_NAMES :: "string list" where
  "DAY_NAMES = [''sun'', ''mon'', ''tue'', ''wed'', ''thu'', ''fri'', ''sat'']"

record field =
  field_name :: string
  field_min :: nat
  field_max :: nat
  field_names :: "string list"
  names_from :: nat

definition MINUTE :: field where
  "MINUTE = \<lparr>field_name = ''minute'', field_min = 0, field_max = 59, field_names = [], names_from = 0\<rparr>"

definition HOUR :: field where
  "HOUR = \<lparr>field_name = ''hour'', field_min = 0, field_max = 23, field_names = [], names_from = 0\<rparr>"

definition DAY_OF_MONTH :: field where
  "DAY_OF_MONTH = \<lparr>field_name = ''day of month'', field_min = 1, field_max = 31, field_names = [],
     names_from = 0\<rparr>"

definition MONTH :: field where
  "MONTH = \<lparr>field_name = ''month'', field_min = 1, field_max = 12, field_names = MONTH_NAMES,
     names_from = 1\<rparr>"

definition DAY_OF_WEEK :: field where
  "DAY_OF_WEEK = \<lparr>field_name = ''day of week'', field_min = 0, field_max = 7, field_names = DAY_NAMES,
     names_from = 0\<rparr>"

definition FIELDS :: "field list" where
  "FIELDS = [MINUTE, HOUR, DAY_OF_MONTH, MONTH, DAY_OF_WEEK]"

text \<open>The reasons of a refusal, with what their messages show.\<close>

datatype schedule_error =
    NotValid string string
  | Outside string nat nat nat
  | BadStep string
  | Backwards string
  | FieldCount string nat
  | NoNextMatch string
  | NotADelay string

subsection \<open>Reading a field\<close>

definition all_digits :: "string \<Rightarrow> bool" where
  "all_digits s \<longleftrightarrow> s \<noteq> [] \<and> list_all is_ascii_digit s"

text \<open>\<open>Field::value\<close>.\<close>

definition field_value :: "field \<Rightarrow> string \<Rightarrow> schedule_error + nat" where
  "field_value f s =
     (case position (\<lambda>name. eq_ignore_ascii_case name s) (field_names f) of
        Some index \<Rightarrow> Inr (names_from f + index)
      | None \<Rightarrow>
          (case (if all_digits s then parse_u32 s else None) of
             None \<Rightarrow> Inl (NotValid s (field_name f))
           | Some n \<Rightarrow>
               if n < field_min f \<or> n > field_max f
               then Inl (Outside (field_name f) n (field_min f) (field_max f))
               else Inr n))"

text \<open>The values that an item names, before they are written as bits: from, to and the step.\<close>

definition item_step :: "string \<Rightarrow> schedule_error + string \<times> nat option" where
  "item_step item =
     (case split_once item ''/'' of
        Some (rng, step) \<Rightarrow>
          (case (if all_digits step then parse_u32 step else None) of
             Some n \<Rightarrow> if n \<ge> 1 then Inr (rng, Some n) else Inl (BadStep item)
           | None \<Rightarrow> Inl (BadStep item))
      | None \<Rightarrow> Inr (item, None))"

definition item_range :: "field \<Rightarrow> string \<Rightarrow> schedule_error + nat \<times> nat \<times> nat" where
  "item_range f item =
     (case item_step item of
        Inl e \<Rightarrow> Inl e
      | Inr (rng, step) \<Rightarrow>
          (let with_step = (\<lambda>(from, to). (from, to, case step of Some n \<Rightarrow> n | None \<Rightarrow> 1))
           in if rng = ''*'' then Inr (with_step (field_min f, field_max f))
              else (case split_once rng ''-'' of
                  Some (from, to) \<Rightarrow>
                    (case field_value f from of
                       Inl e \<Rightarrow> Inl e
                     | Inr a \<Rightarrow> (case field_value f to of
                           Inl e \<Rightarrow> Inl e
                         | Inr b \<Rightarrow> if a > b then Inl (Backwards item) else Inr (with_step (a, b))))
                | None \<Rightarrow>
                    map_sum (\<lambda>e. e) (\<lambda>a. with_step (a, if step \<noteq> None then field_max f else a))
                      (field_value f rng))))"

text \<open>The loop that sets the bits: \<open>value += step\<close> on \<open>u32\<close>.\<close>

partial_function (option) step_bits :: "nat \<Rightarrow> nat \<Rightarrow> nat \<Rightarrow> 64 word \<Rightarrow> 64 word option" where
  "step_bits v to step bits =
     (if v \<le> to then step_bits ((v + step) mod 2 ^ 32) to step (bits OR push_bit v 1) else Some bits)"

fun parse_items :: "field \<Rightarrow> string list \<Rightarrow> 64 word \<Rightarrow> (schedule_error + 64 word) option" where
  "parse_items f [] bits = Some (Inr bits)"
| "parse_items f (item # items) bits =
     (case item_range f item of
        Inl e \<Rightarrow> Some (Inl e)
      | Inr (from, to, step) \<Rightarrow>
          (case step_bits from to step bits of None \<Rightarrow> None | Some bits \<Rightarrow> parse_items f items bits))"

text \<open>\<open>Field::parse\<close>.\<close>

definition field_parse :: "field \<Rightarrow> string \<Rightarrow> (schedule_error + 64 word) option" where
  "field_parse f s = parse_items f (split_on CHR '','' s) 0"

subsection \<open>Reading an expression\<close>

text \<open>\<open>str::split_whitespace\<close>: the pieces that are not empty.\<close>

definition split_whitespace :: "string \<Rightarrow> string list" where
  "split_whitespace s =
     filter (\<lambda>piece. piece \<noteq> [])
       (split_on CHR '' '' (map (\<lambda>c. if is_whitespace c then CHR '' '' else c) s))"

text \<open>The operator \<open>?\<close> on a result that may not come.\<close>

definition andthen :: "('e + 'a) option \<Rightarrow> ('a \<Rightarrow> ('e + 'b) option) \<Rightarrow> ('e + 'b) option" where
  "andthen r k = (case r of None \<Rightarrow> None | Some (Inl e) \<Rightarrow> Some (Inl e) | Some (Inr x) \<Rightarrow> k x)"

text \<open>\<open>u32::try_from(bits).expect(..)\<close> and the like: a panic where the bits do not fit.\<close>

definition narrow :: "64 word \<Rightarrow> (schedule_error + 'b::len word) option" where
  "narrow w = (if unat w < 2 ^ LENGTH('b) then Some (Inr (ucast w)) else None)"

text \<open>A bit of a set is read as \<open>set & (1 << i) != 0\<close>.\<close>

definition has :: "'a::len word \<Rightarrow> nat \<Rightarrow> bool" where
  "has w i \<longleftrightarrow> w AND push_bit i 1 \<noteq> 0"

definition LONGEST :: "nat list" where
  "LONGEST = [31, 29, 31, 30, 31, 30, 31, 31, 30, 31, 30, 31]"

definition can_match :: "cron_expr \<Rightarrow> bool" where
  "can_match e \<longleftrightarrow>
     (if either_day e \<or> days_of_month e = push_bit 31 1 - 1 then True
      else list_ex (\<lambda>month. has (months e) month
          \<and> days_of_month e AND (push_bit (LONGEST ! month) 1 - 1) \<noteq> 0) [0..<12])"

text \<open>\<open>CronExpr::parse\<close>: the day of the week is read first.\<close>

definition cron_parse :: "string \<Rightarrow> (schedule_error + cron_expr) option" where
  "cron_parse s =
     (case split_whitespace s of
        [minute, hour, day_of_month, month, day_of_week] \<Rightarrow>
          andthen (field_parse DAY_OF_WEEK day_of_week) (\<lambda>dow.
          let dow = (if has dow 7 then (dow OR 1) AND NOT (push_bit 7 1) else dow) in
          andthen (field_parse MINUTE minute) (\<lambda>min_bits.
          andthen (andthen (field_parse HOUR hour) narrow) (\<lambda>hour_bits.
          andthen (andthen (field_parse DAY_OF_MONTH day_of_month) (\<lambda>b. narrow (drop_bit 1 b))) (\<lambda>day_bits.
          andthen (andthen (field_parse MONTH month) (\<lambda>b. narrow (drop_bit 1 b))) (\<lambda>month_bits.
          andthen (narrow dow) (\<lambda>dow_bits.
          let e = \<lparr>minutes = min_bits, hours = hour_bits, days_of_month = day_bits, months = month_bits,
                days_of_week = dow_bits,
                either_day = \<not> starts_with day_of_month ''*'' \<and> \<not> starts_with day_of_week ''*''\<rparr>
          in if \<not> can_match e then Some (Inl (NoNextMatch s)) else Some (Inr e)))))))
      | parts \<Rightarrow> Some (Inl (FieldCount s (length parts))))"

subsection \<open>The calendar and the time zone\<close>

type_synonym instant = int

definition SECOND :: int where "SECOND = 1000000000"

type_synonym 'd local_time = "'d \<times> nat \<times> nat"

text \<open>
  What the code uses of \<open>jiff::civil\<close> and of \<open>jiff::Timestamp\<close>: the parts of a date, the next
  date and the next minute, where there is one, the instant of a local time at an offset, an
  instant moved by nanoseconds, and the first instant.
\<close>

record 'd calendar =
  month_of :: "'d \<Rightarrow> nat"
  day_of :: "'d \<Rightarrow> nat"
  weekday_of :: "'d \<Rightarrow> nat"
  tomorrow :: "'d \<Rightarrow> 'd option"
  plus_minute :: "'d local_time \<Rightarrow> 'd local_time option"
  at_offset :: "int \<Rightarrow> 'd local_time \<Rightarrow> instant option"
  plus_nanos :: "instant \<Rightarrow> int \<Rightarrow> instant option"
  instant_min :: instant

datatype ambiguous_offset = Unambiguous int | Gap int int | Fold int int

record ambiguous_timestamp =
  amb_offset :: ambiguous_offset
  earlier :: "instant option"
  later :: "instant option"
  compatible :: "instant option"

text \<open>
  \<open>jiff::tz::TimeZone\<close>: the local time of an instant and the nanoseconds past its minute, the
  readings of a local time, and the next change of the offset after an instant.
\<close>

record 'd time_zone =
  to_datetime :: "instant \<Rightarrow> 'd local_time \<times> nat"
  ambiguous_timestamp :: "'d local_time \<Rightarrow> ambiguous_timestamp"
  following :: "instant \<Rightarrow> instant option"

subsection \<open>The next match\<close>

definition day_matches :: "'d calendar \<Rightarrow> cron_expr \<Rightarrow> 'd \<Rightarrow> bool" where
  "day_matches cal e date =
     (let month = month_of cal date - 1
      in if \<not> has (months e) month then False
         else (let by_month = has (days_of_month e) (day_of cal date - 1);
                   by_week = has (days_of_week e) (weekday_of cal date)
               in if either_day e then by_month \<or> by_week else by_month \<and> by_week))"

definition every_hour :: "cron_expr \<Rightarrow> bool" where
  "every_hour e \<longleftrightarrow> hours e = push_bit 24 1 - 1"

definition instants :: "'d calendar \<Rightarrow> 'd time_zone \<Rightarrow> cron_expr \<Rightarrow> 'd local_time \<Rightarrow> instant option list" where
  "instants cal zone e local =
     (let ambiguous = ambiguous_timestamp zone local
      in case amb_offset ambiguous of
           Fold _ after \<Rightarrow> [earlier ambiguous, if every_hour e then at_offset cal after local else None]
         | _ \<Rightarrow> [compatible ambiguous, None])"

definition clock_changes_on :: "'d calendar \<Rightarrow> 'd time_zone \<Rightarrow> 'd \<Rightarrow> bool option" where
  "clock_changes_on cal zone date =
     Option.bind (tomorrow cal date) (\<lambda>next_date.
     Option.bind (earlier (ambiguous_timestamp zone (date, 0, 0))) (\<lambda>first.
     Option.bind (plus_nanos cal first (- 60 * SECOND)) (\<lambda>start.
     Option.bind (later (ambiguous_timestamp zone (next_date, 0, 0))) (\<lambda>bound.
     Option.bind (plus_nanos cal bound (60 * SECOND)) (\<lambda>until.
     Some (case following zone start of None \<Rightarrow> False | Some transition \<Rightarrow> transition < until))))))"

text \<open>Looking at one instant: it is kept when it is after \<open>after\<close> and the earliest so far.\<close>

definition keep_earliest :: "instant \<Rightarrow> instant option \<Rightarrow> instant option \<Rightarrow> instant option" where
  "keep_earliest after candidate earliest =
     (case candidate of
        None \<Rightarrow> earliest
      | Some instant \<Rightarrow>
          if instant > after \<and> (case earliest of None \<Rightarrow> True | Some known \<Rightarrow> instant < known)
          then Some instant else earliest)"

text \<open>
  The loops over the hours and the minutes of a day. A result with \<^const>\<open>True\<close> is the return
  inside them, which a steady day makes at its first instant.
\<close>

fun scan_minutes :: "'d calendar \<Rightarrow> 'd time_zone \<Rightarrow> cron_expr \<Rightarrow> instant \<Rightarrow> 'd::linorder local_time \<Rightarrow> bool \<Rightarrow>
    'd \<Rightarrow> nat \<Rightarrow> nat list \<Rightarrow> instant option \<Rightarrow> bool \<times> instant option" where
  "scan_minutes cal zone e after start steady date hour [] earliest = (False, earliest)"
| "scan_minutes cal zone e after start steady date hour (minute # rest) earliest =
     (if \<not> has (minutes e) minute
      then scan_minutes cal zone e after start steady date hour rest earliest
      else if steady \<and> (date, hour, minute) < start
      then scan_minutes cal zone e after start steady date hour rest earliest
      else (let earliest = fold (keep_earliest after) (instants cal zone e (date, hour, minute)) earliest
            in if steady \<and> earliest \<noteq> None then (True, earliest)
               else scan_minutes cal zone e after start steady date hour rest earliest))"

fun scan_hours :: "'d calendar \<Rightarrow> 'd time_zone \<Rightarrow> cron_expr \<Rightarrow> instant \<Rightarrow> 'd::linorder local_time \<Rightarrow> bool \<Rightarrow>
    'd \<Rightarrow> nat list \<Rightarrow> instant option \<Rightarrow> bool \<times> instant option" where
  "scan_hours cal zone e after start steady date [] earliest = (False, earliest)"
| "scan_hours cal zone e after start steady date (hour # rest) earliest =
     (if \<not> has (hours e) hour then scan_hours cal zone e after start steady date rest earliest
      else (case scan_minutes cal zone e after start steady date hour [0..<60] earliest of
              (True, found) \<Rightarrow> (True, found)
            | (False, earliest) \<Rightarrow> scan_hours cal zone e after start steady date rest earliest))"

fun search_days :: "'d calendar \<Rightarrow> 'd time_zone \<Rightarrow> cron_expr \<Rightarrow> instant \<Rightarrow> 'd::linorder local_time \<Rightarrow> nat \<Rightarrow>
    'd \<Rightarrow> instant option" where
  "search_days cal zone e after start n date =
     (if n = 0 then None
      else (let next_day = (case tomorrow cal date of
                    None \<Rightarrow> None
                  | Some next_date \<Rightarrow> search_days cal zone e after start (n - 1) next_date)
            in if day_matches cal e date
               then (case clock_changes_on cal zone date of
                   None \<Rightarrow> None
                 | Some changes \<Rightarrow>
                     (case snd (scan_hours cal zone e after start (\<not> changes) date [0..<24] None) of
                        Some earliest \<Rightarrow> Some earliest
                      | None \<Rightarrow> next_day))
               else next_day))"

declare search_days.simps [simp del]

definition next_after :: "'d::linorder calendar \<Rightarrow> 'd time_zone \<Rightarrow> cron_expr \<Rightarrow> instant \<Rightarrow> instant option" where
  "next_after cal zone e after =
     (let local = fst (to_datetime zone after)
      in case plus_minute cal local of
           None \<Rightarrow> None
         | Some start \<Rightarrow> search_days cal zone e after start SEARCH_DAYS (fst local))"

subsection \<open>Counting matches\<close>

text \<open>The loops of \<open>count_between\<close> and \<open>latest_between\<close>, for any function to the next fire.\<close>

function count_loop :: "(instant \<Rightarrow> instant option) \<Rightarrow> instant \<Rightarrow> nat \<Rightarrow> nat \<Rightarrow> instant \<Rightarrow> nat" where
  "count_loop next_fire until limit count cursor =
     (if count < limit
      then (case next_fire cursor of
              Some t \<Rightarrow> if t \<le> until then count_loop next_fire until limit (count + 1) t else count
            | None \<Rightarrow> count)
      else count)"
  by pat_completeness auto
termination
  by (relation "measure (\<lambda>(next_fire, until, limit, count, cursor). limit - count)") auto

fun latest_loop :: "(instant \<Rightarrow> instant option) \<Rightarrow> instant \<Rightarrow> nat \<Rightarrow> instant option \<Rightarrow> instant \<Rightarrow>
    instant option" where
  "latest_loop next_fire until left latest cursor =
     (if left = 0 then latest
      else (case next_fire cursor of
              Some t \<Rightarrow> if t \<le> until then latest_loop next_fire until (left - 1) (Some t) t else latest
            | None \<Rightarrow> latest))"

declare count_loop.simps [simp del] latest_loop.simps [simp del]

definition count_between :: "'d::linorder calendar \<Rightarrow> 'd time_zone \<Rightarrow> cron_expr \<Rightarrow> instant \<Rightarrow> instant \<Rightarrow> nat \<Rightarrow> nat" where
  "count_between cal zone e after until limit = count_loop (next_after cal zone e) until limit 0 after"

definition latest_between :: "'d::linorder calendar \<Rightarrow> 'd time_zone \<Rightarrow> cron_expr \<Rightarrow> instant \<Rightarrow> instant \<Rightarrow> nat \<Rightarrow>
    instant option" where
  "latest_between cal zone e after until limit =
     latest_loop (next_after cal zone e) until limit None after"

subsection \<open>Delays\<close>

definition I64_MAX :: nat where "I64_MAX = 2 ^ 63 - 1"

definition checked_mul_i64 :: "nat \<Rightarrow> nat \<Rightarrow> nat option" where
  "checked_mul_i64 a b = (if a * b \<le> I64_MAX then Some (a * b) else None)"

text \<open>\<open>parse_delay\<close>, in seconds. The digits are not negative, so the product is not either.\<close>

definition parse_delay :: "string \<Rightarrow> schedule_error + nat" where
  "parse_delay s =
     (if s = [] then Inl (NotADelay s)
      else (let unit = last s; number = butlast s
            in if \<not> all_digits number then Inl (NotADelay s)
               else (case parse_unsigned I64_MAX number of
                   None \<Rightarrow> Inl (NotADelay s)
                 | Some n \<Rightarrow>
                     (case (if unit = CHR ''s'' then Some n
                            else if unit = CHR ''m'' then checked_mul_i64 n 60
                            else if unit = CHR ''h'' then checked_mul_i64 n 3600
                            else if unit = CHR ''d'' then checked_mul_i64 n 86400
                            else None) of
                        None \<Rightarrow> Inl (NotADelay s)
                      | Some seconds \<Rightarrow>
                          if 1 \<le> seconds \<and> seconds \<le> MAX_DELAY_DAYS * 86400 then Inr seconds
                          else Inl (NotADelay s)))))"

text \<open>\<open>delay_after\<close>; the error is \<open>jiff\<close>'s.\<close>

definition delay_after :: "'d calendar \<Rightarrow> instant \<Rightarrow> nat \<Rightarrow> unit + instant" where
  "delay_after cal now delay =
     (case plus_nanos cal now (int delay * SECOND) of Some t \<Rightarrow> Inr t | None \<Rightarrow> Inl ())"

subsection \<open>Bit sets\<close>

lemma bit_pow [simp]: "bit (2 ^ i :: 'a::len word) j \<longleftrightarrow> i = j \<and> j < LENGTH('a)"
  by (auto simp: bit_exp_iff)

lemma has_iff_bit [simp]: "has (w :: 'a::len word) i \<longleftrightarrow> bit w i"
proof
  assume "has w i"
  then obtain n where "bit (w AND 2 ^ i) n"
    by (auto simp: has_def bit_eq_iff)
  then show "bit w i" by (auto simp: bit_and_iff)
next
  assume "bit w i"
  moreover from this have "i < LENGTH('a)" by (simp add: bit_imp_le_length)
  ultimately have "bit (w AND 2 ^ i) i" by (simp add: bit_and_iff)
  then show "has w i" by (auto simp: has_def)
qed

lemma narrow_Some: "unat w < 2 ^ LENGTH('b::len) \<Longrightarrow> narrow w = Some (Inr (ucast w :: 'b word))"
  by (simp add: narrow_def)

text \<open>A word with no bit from \<open>n\<close> on is below \<open>2 ^ n\<close>.\<close>

lemma unat_less_of_bits:
  assumes "\<And>i. n \<le> i \<Longrightarrow> \<not> bit (w :: 64 word) i"
  shows "unat w < 2 ^ n"
proof -
  have "take_bit n w = w"
    using assms by (auto simp: bit_eq_iff bit_take_bit_iff simp flip: not_le)
  then have "unat w = take_bit n (unat w)"
    by (metis unsigned_take_bit_eq)
  then show ?thesis
    by (metis take_bit_nat_less_exp)
qed

subsection \<open>The loop over a range\<close>

lemma step_bits_small:
  assumes "1 \<le> step" and "to + step < 2 ^ 32" and "to < 64"
  shows "\<exists>r. step_bits v to step bits = Some r
    \<and> (\<forall>i. bit r i \<longleftrightarrow> bit bits i \<or> v \<le> i \<and> i \<le> to \<and> step dvd i - v)"
proof (induction "to + 1 - v" arbitrary: v bits rule: less_induct)
  case less
  show ?case
  proof (cases "v \<le> to")
    case True
    then have wrap: "(v + step) mod 2 ^ 32 = v + step" using assms by simp
    have "to + 1 - (v + step) < to + 1 - v" using True assms by auto
    from less [OF this, of "bits OR push_bit v 1"] obtain r where
      r: "step_bits (v + step) to step (bits OR push_bit v 1) = Some r"
        "\<And>i. bit r i \<longleftrightarrow> bit (bits OR push_bit v 1) i \<or> v + step \<le> i \<and> i \<le> to \<and> step dvd i - (v + step)"
      by blast
    have run: "step_bits v to step bits = Some r"
      using True r(1) wrap by (simp add: step_bits.simps [of v])
    have "v = i \<or> v + step \<le> i \<and> step dvd i - (v + step) \<longleftrightarrow> v \<le> i \<and> step dvd i - v" for i
    proof (cases "v + step \<le> i")
      case True
      then have "i - v = (i - (v + step)) + step" by simp
      then have "step dvd i - v \<longleftrightarrow> step dvd i - (v + step)" by simp
      with True assms(1) show ?thesis by auto
    next
      case False
      with assms(1) show ?thesis by (auto dest: dvd_imp_le)
    qed
    with r(2) True assms(3) have "bit r i \<longleftrightarrow> bit bits i \<or> v \<le> i \<and> i \<le> to \<and> step dvd i - v" for i
      by (auto simp: bit_or_iff)
    with run show ?thesis by blast
  next
    case False
    then show ?thesis by (auto simp: step_bits.simps [of v])
  qed
qed

text \<open>
  A step so large that the addition wraps counts down instead, and leaves the range below zero,
  where the wrapped value is large again.
\<close>

lemma step_bits_large:
  assumes "to < 64" and "2 ^ 32 \<le> to + step" and "step < 2 ^ 32"
  shows "\<exists>r. step_bits v to step bits = Some r
    \<and> (\<forall>i. bit r i \<longrightarrow> bit bits i \<or> i \<le> to)"
proof (induction v arbitrary: bits rule: less_induct)
  case (less v)
  show ?case
  proof (cases "v \<le> to")
    case True
    have "\<exists>r. step_bits ((v + step) mod 2 ^ 32) to step (bits OR push_bit v 1) = Some r
        \<and> (\<forall>i. bit r i \<longrightarrow> bit (bits OR push_bit v 1) i \<or> i \<le> to)"
    proof (cases "2 ^ 32 \<le> v + step")
      case True
      have "(v + step) mod 2 ^ 32 < v"
        using True assms \<open>v \<le> to\<close> by (simp add: le_mod_geq)
      then show ?thesis using less by blast
    next
      case False
      then show ?thesis
        using assms by (auto simp: step_bits.simps [of "v + step"])
    qed
    then show ?thesis
      using True by (fastforce simp: step_bits.simps [of v] bit_or_iff)
  next
    case False
    then show ?thesis by (auto simp: step_bits.simps [of v])
  qed
qed

lemma step_bits_returns:
  assumes "1 \<le> step" and "step < 2 ^ 32" and "to < 64"
  obtains r where "step_bits v to step bits = Some r" and "\<And>i. bit r i \<Longrightarrow> bit bits i \<or> i \<le> to"
proof (cases "to + step < 2 ^ 32")
  case True
  from step_bits_small [OF assms(1) this assms(3), of v bits] that show ?thesis by blast
next
  case False
  with step_bits_large [OF assms(3) _ assms(2), of v bits] that show ?thesis by auto
qed

subsection \<open>The values of a field\<close>

definition field_ok :: "field \<Rightarrow> bool" where
  "field_ok f \<longleftrightarrow> field_min f \<le> field_max f \<and> field_max f < 64 \<and> (field_names f \<noteq> [] \<longrightarrow> field_min f \<le> names_from f)
     \<and> names_from f + length (field_names f) \<le> field_max f + 1"

lemmas field_defs = MINUTE_def HOUR_def DAY_OF_MONTH_def MONTH_def DAY_OF_WEEK_def
  MONTH_NAMES_def DAY_NAMES_def

lemma fields_ok [simp]:
  "field_ok MINUTE" "field_ok HOUR" "field_ok DAY_OF_MONTH" "field_ok MONTH" "field_ok DAY_OF_WEEK"
  by (simp_all add: field_ok_def field_defs)

lemma field_maxs [simp]:
  "field_max MINUTE = 59" "field_max HOUR = 23" "field_max DAY_OF_MONTH = 31"
  "field_max MONTH = 12" "field_max DAY_OF_WEEK = 7"
  by (simp_all add: field_defs)

lemma field_value_bounds:
  assumes "field_ok f" and "field_value f s = Inr n"
  shows "field_min f \<le> n" and "n \<le> field_max f"
  using assms position_Some [of "\<lambda>name. eq_ignore_ascii_case name s" "field_names f"]
  by (fastforce simp: field_value_def field_ok_def split: option.splits if_splits)+

lemma parse_u32_le: "parse_u32 s = Some n \<Longrightarrow> n < 2 ^ 32"
  by (auto simp: parse_u32_def parse_unsigned_def U32_MAX_def Let_def split: if_splits)

lemma item_step_bounds:
  "item_step item = Inr (rng, Some n) \<Longrightarrow> 1 \<le> n \<and> n < 2 ^ 32"
  by (auto simp: item_step_def split: option.splits prod.splits if_splits dest: parse_u32_le)

lemma item_range_bounds:
  assumes "field_ok f" and "item_range f item = Inr (a, b, n)"
  shows "field_min f \<le> a \<and> a \<le> b \<and> b \<le> field_max f \<and> 1 \<le> n \<and> n < 2 ^ 32"
proof -
  obtain rng step where st: "item_step item = Inr (rng, step)"
    using assms(2) by (auto simp: item_range_def split: sum.splits)
  have n: "n = (case step of Some n \<Rightarrow> n | None \<Rightarrow> 1)"
    using assms(2) st
    by (cases "field_value f rng")
      (auto simp: item_range_def Let_def split: if_splits option.splits sum.splits)
  have "field_min f \<le> a \<and> a \<le> b \<and> b \<le> field_max f"
    using assms field_value_bounds [OF assms(1)]
    by (cases "field_value f rng")
      (auto simp: item_range_def st Let_def field_ok_def split: if_splits option.splits sum.splits;
       blast intro: order_trans)+
  moreover have "1 \<le> n \<and> n < 2 ^ 32"
    using n st item_step_bounds [of item rng] by (auto split: option.splits)
  ultimately show ?thesis by blast
qed

lemma parse_items_returns:
  assumes "field_ok f"
  shows "\<exists>r. parse_items f items bits = Some r
    \<and> (\<forall>w i. r = Inr w \<longrightarrow> bit w i \<longrightarrow> bit bits i \<or> i \<le> field_max f)"
proof (induction items arbitrary: bits)
  case (Cons item items)
  show ?case
  proof (cases "item_range f item")
    case (Inr r)
    then obtain a b n where r: "item_range f item = Inr (a, b, n)" by (cases r) auto
    note bounds = item_range_bounds [OF assms r]
    then obtain w where "step_bits a b n bits = Some w" and w: "\<And>i. bit w i \<Longrightarrow> bit bits i \<or> i \<le> b"
      using step_bits_returns [of n b a bits] assms unfolding field_ok_def by (metis order_le_less_trans)
    with Cons.IH [of w] bounds show ?thesis
      by (fastforce simp: r dest: w)
  qed simp
qed auto

lemma field_parse_returns:
  assumes "field_ok f"
  obtains e where "field_parse f s = Some (Inl e)"
  | w where "field_parse f s = Some (Inr w)" and "\<And>i. bit w i \<Longrightarrow> i \<le> field_max f"
proof -
  obtain r where r: "parse_items f (split_on CHR '','' s) 0 = Some r"
      "\<And>w i. r = Inr w \<Longrightarrow> bit w i \<Longrightarrow> i \<le> field_max f"
    using parse_items_returns [OF assms, of "split_on CHR '','' s" 0] by auto
  with that show ?thesis by (cases r) (auto simp: field_parse_def)
qed

subsection \<open>What an item means\<close>

text \<open>A number in decimal.\<close>

inductive decimal_of :: "string \<Rightarrow> nat \<Rightarrow> bool" where
  one_digit: "d < 10 \<Longrightarrow> decimal_of [char_of (48 + d)] d"
| more_digits: "decimal_of s n \<Longrightarrow> d < 10 \<Longrightarrow> decimal_of (s @ [char_of (48 + d)]) (10 * n + d)"

text \<open>A value of a field from \<open>lo\<close> to \<open>hi\<close>, by its number or, where the field has names, by its name.\<close>

definition names_value :: "nat \<Rightarrow> nat \<Rightarrow> (string \<times> nat) list \<Rightarrow> string \<Rightarrow> nat \<Rightarrow> bool" where
  "names_value lo hi names s v \<longleftrightarrow>
     (\<exists>name. (name, v) \<in> set names \<and> eq_ignore_ascii_case name s) \<or> decimal_of s v \<and> lo \<le> v \<and> v \<le> hi"

text \<open>The first and the last value of an item, and the step from one value to the next.\<close>

inductive item_denotes :: "nat \<Rightarrow> nat \<Rightarrow> (string \<times> nat) list \<Rightarrow> string \<Rightarrow> nat \<Rightarrow> nat \<Rightarrow> nat \<Rightarrow> bool"
  for lo hi names where
  every: "item_denotes lo hi names ''*'' lo hi 1"
| single: "names_value lo hi names s v \<Longrightarrow> item_denotes lo hi names s v v 1"
| span: "names_value lo hi names s v \<Longrightarrow> names_value lo hi names t w \<Longrightarrow> v \<le> w \<Longrightarrow>
    item_denotes lo hi names (s @ ''-'' @ t) v w 1"
| every_by: "decimal_of n k \<Longrightarrow> 1 \<le> k \<Longrightarrow> item_denotes lo hi names (''*'' @ ''/'' @ n) lo hi k"
| upward_by: "names_value lo hi names s v \<Longrightarrow> decimal_of n k \<Longrightarrow> 1 \<le> k \<Longrightarrow>
    item_denotes lo hi names (s @ ''/'' @ n) v hi k"
| span_by: "names_value lo hi names s v \<Longrightarrow> names_value lo hi names t w \<Longrightarrow> v \<le> w \<Longrightarrow> decimal_of n k \<Longrightarrow> 1 \<le> k \<Longrightarrow>
    item_denotes lo hi names ((s @ ''-'' @ t) @ ''/'' @ n) v w k"

text \<open>A field is items between commas, each of which means something, and holds what they run through.\<close>

definition field_holds :: "nat \<Rightarrow> nat \<Rightarrow> (string \<times> nat) list \<Rightarrow> string \<Rightarrow> (nat \<Rightarrow> bool) \<Rightarrow> bool" where
  "field_holds lo hi names text held \<longleftrightarrow>
     (\<forall>item\<in>set (split_on CHR '','' text). \<exists>first last step. item_denotes lo hi names item first last step)
     \<and> (\<forall>i. held i \<longleftrightarrow> (\<exists>item\<in>set (split_on CHR '','' text). \<exists>first last step.
          item_denotes lo hi names item first last step \<and> first \<le> i \<and> i \<le> last \<and> step dvd i - first))"

text \<open>Steps that cannot wrap a value, which is below 60.\<close>

definition small_steps :: "string \<Rightarrow> bool" where
  "small_steps text \<longleftrightarrow>
     (\<forall>item\<in>set (split_on CHR '','' text). \<forall>before n step. item = before @ ''/'' @ n \<longrightarrow> decimal_of n step \<longrightarrow> step + 59 < 2 ^ 32)"

definition months_named :: "(string \<times> nat) list" where
  "months_named = [(''jan'', 1), (''feb'', 2), (''mar'', 3), (''apr'', 4), (''may'', 5), (''jun'', 6), (''jul'', 7),
     (''aug'', 8), (''sep'', 9), (''oct'', 10), (''nov'', 11), (''dec'', 12)]"

definition days_named :: "(string \<times> nat) list" where
  "days_named = [(''sun'', 0), (''mon'', 1), (''tue'', 2), (''wed'', 3), (''thu'', 4), (''fri'', 5), (''sat'', 6)]"

lemma digit_char: "is_ascii_digit c \<longleftrightarrow> (\<exists>d<10. c = char_of (48 + d :: nat))"
proof
  assume "is_ascii_digit c"
  then have "c = char_of (48 + (of_char c - 48) :: nat)" "of_char c - 48 < (10 :: nat)"
    by (auto simp: is_ascii_digit_def)
  then show "\<exists>d<10. c = char_of (48 + d :: nat)" by blast
qed (auto simp: is_ascii_digit_def)

lemma decimal_digits: "decimal_of s n \<longleftrightarrow> all_digits s \<and> n = digits_value s"
proof
  assume "decimal_of s n"
  then show "all_digits s \<and> n = digits_value s"
    by induction (auto simp: all_digits_def digit_char digits_value_snoc, simp add: digits_value_def)
next
  have "all_digits s \<Longrightarrow> decimal_of s (digits_value s)" for s
  proof (induction s rule: rev_induct)
    case (snoc c s)
    then obtain d where d: "d < 10" "c = char_of (48 + d :: nat)" by (auto simp: all_digits_def digit_char)
    show ?case
    proof (cases "s = []")
      case True
      with one_digit [OF d(1)] d show ?thesis by (simp add: digits_value_def)
    next
      case False
      with snoc more_digits [OF _ d(1), of s "digits_value s"] d show ?thesis
        by (simp add: digits_value_snoc all_digits_def mult.commute)
    qed
  qed (simp add: all_digits_def)
  then show "all_digits s \<and> n = digits_value s \<Longrightarrow> decimal_of s n" by blast
qed

lemma parse_u32_digits: "all_digits s \<Longrightarrow> parse_u32 s = (if digits_value s < 2 ^ 32 then Some (digits_value s) else None)"
  by (cases s) (auto simp: parse_u32_def parse_unsigned_def all_digits_def U32_MAX_def Let_def is_ascii_digit_def strip_prefix_def)

lemma parse_decimal_u32:
  "(if all_digits s then parse_u32 s else None) = Some n \<longleftrightarrow> decimal_of s n \<and> n < 2 ^ 32"
  by (auto simp: decimal_digits parse_u32_digits)

text \<open>The names of a field in the code are those of its specification.\<close>

definition names_agree :: "field \<Rightarrow> (string \<times> nat) list \<Rightarrow> bool" where
  "names_agree f names \<longleftrightarrow> names = zip (field_names f) [names_from f..<names_from f + length (field_names f)]
     \<and> distinct (field_names f) \<and> list_all (list_all is_ascii_lowercase) (field_names f) \<and> [] \<notin> set (field_names f)"

lemma lowercase_fixed: "is_ascii_lowercase c \<Longrightarrow> to_ascii_lowercase c = c"
  by (auto simp: to_ascii_lowercase_def is_ascii_lowercase_def is_ascii_uppercase_def)

lemma lowercase_letter: "is_ascii_lowercase (to_ascii_lowercase c) \<Longrightarrow> is_ascii_alphabetic c"
  by (auto simp: to_ascii_lowercase_def is_ascii_alphabetic_def split: if_splits)

lemma name_match:
  "list_all is_ascii_lowercase name \<Longrightarrow> eq_ignore_ascii_case name s \<longleftrightarrow> name = map to_ascii_lowercase s"
proof -
  assume "list_all is_ascii_lowercase name"
  then have "map to_ascii_lowercase name = name" by (induction name) (auto simp: lowercase_fixed)
  then show ?thesis by (simp add: eq_ignore_ascii_case_def)
qed

lemma name_letters:
  "list_all is_ascii_lowercase name \<Longrightarrow> eq_ignore_ascii_case name s \<Longrightarrow> list_all is_ascii_alphabetic s"
  by (auto simp: name_match list_all_iff intro: lowercase_letter)

lemma letter_not_digit: "is_ascii_alphabetic c \<Longrightarrow> \<not> is_ascii_digit c"
  by (auto simp: is_ascii_alphabetic_def is_ascii_lowercase_def is_ascii_uppercase_def is_ascii_digit_def)

lemma names_value_read:
  assumes "names_agree f names" and "field_max f < 64"
  shows "field_value f s = Inr v \<longleftrightarrow> names_value (field_min f) (field_max f) names s v"
proof -
  have lower: "list_all is_ascii_lowercase name" if "name \<in> set (field_names f)" for name
    using assms(1) that by (auto simp: names_agree_def list_all_iff)
  have named: "(name, v) \<in> set names \<longleftrightarrow> (\<exists>i<length (field_names f). name = field_names f ! i \<and> v = names_from f + i)" for name v
    using assms(1) by (auto simp: names_agree_def set_zip)
  show ?thesis
  proof (cases "position (\<lambda>name. eq_ignore_ascii_case name s) (field_names f)")
    case (Some i)
    then have i: "i < length (field_names f)" "eq_ignore_ascii_case (field_names f ! i) s" by (auto dest: position_Some)
    then have same: "field_names f ! i = map to_ascii_lowercase s" using lower name_match by simp
    have "j = i" if "j < length (field_names f)" "eq_ignore_ascii_case (field_names f ! j) s" for j
    proof -
      have "field_names f ! j = field_names f ! i" using that same lower name_match by simp
      with that(1) i(1) assms(1) show ?thesis by (simp add: names_agree_def nth_eq_iff_index_eq)
    qed
    moreover have "\<not> decimal_of s v"
      using name_letters [OF lower i(2)] i(1) assms(1) i(2)
      by (cases s) (auto simp: decimal_digits all_digits_def letter_not_digit)
    ultimately have "names_value (field_min f) (field_max f) names s v \<longleftrightarrow> v = names_from f + i"
      unfolding names_value_def named using i by blast
    with Some show ?thesis by (auto simp: field_value_def)
  next
    case None
    then have "\<not> eq_ignore_ascii_case name s" if "(name, v) \<in> set names" for name
      using that by (auto simp: position_None named)
    then have spec: "names_value (field_min f) (field_max f) names s v \<longleftrightarrow> decimal_of s v \<and> field_min f \<le> v \<and> v \<le> field_max f"
      unfolding names_value_def by blast
    show ?thesis
    proof (cases "if all_digits s then parse_u32 s else None")
      case no: None
      then have "\<not> (decimal_of s v \<and> v < 2 ^ 32)" using parse_decimal_u32 [of s v] by simp
      with None no assms(2) show ?thesis by (simp only: spec field_value_def option.case) auto
    next
      case (Some n)
      then have "decimal_of s v \<and> v < 2 ^ 32 \<longleftrightarrow> v = n" using parse_decimal_u32 [of s v] by auto
      with None Some assms(2) show ?thesis by (simp only: spec field_value_def option.case) auto
    qed
  qed
qed

lemma names_value_plain:
  assumes "names_agree f names" and "names_value lo hi names s v"
  shows "CHR ''/'' \<notin> set s" and "CHR ''-'' \<notin> set s" and "s \<noteq> []" and "s \<noteq> ''*''"
proof -
  have "list_all is_ascii_alphabetic s \<and> s \<noteq> [] \<or> all_digits s"
    using assms name_letters [of _ s]
    by (auto simp: names_value_def names_agree_def decimal_digits list_all_iff eq_ignore_ascii_case_def dest!: set_zip_leftD)
  then show "CHR ''/'' \<notin> set s" "CHR ''-'' \<notin> set s" "s \<noteq> []" "s \<noteq> ''*''"
    by (auto simp: all_digits_def list_all_iff is_ascii_alphabetic_def is_ascii_lowercase_def is_ascii_uppercase_def is_ascii_digit_def)
qed

lemma decimal_plain: "decimal_of n k \<Longrightarrow> CHR ''/'' \<notin> set n"
  by (auto simp: decimal_digits all_digits_def list_all_iff is_ascii_digit_def)

lemma item_step_read:
  "item_step item = Inr (rng, step) \<longleftrightarrow>
    step = None \<and> rng = item \<and> CHR ''/'' \<notin> set item
    \<or> (\<exists>n k. item = rng @ ''/'' @ n \<and> CHR ''/'' \<notin> set rng \<and> decimal_of n k \<and> k < 2 ^ 32 \<and> 1 \<le> k \<and> step = Some k)"
proof (cases "split_once item ''/''")
  case None
  then have "CHR ''/'' \<notin> set item" by (simp add: split_once_absent)
  with None show ?thesis by (auto simp: item_step_def)
next
  case (Some p)
  then obtain r n where p: "item = r @ CHR ''/'' # n" "CHR ''/'' \<notin> set r" "p = (r, n)"
    by (cases p) (auto simp: split_once_iff)
  have "item = rng @ ''/'' @ n' \<and> CHR ''/'' \<notin> set rng \<longleftrightarrow> rng = r \<and> n' = n" for n'
  proof
    assume "item = rng @ ''/'' @ n' \<and> CHR ''/'' \<notin> set rng"
    then have "split_once item ''/'' = Some (rng, n')" by (simp add: split_once_at)
    with Some p(3) show "rng = r \<and> n' = n" by simp
  qed (simp add: p)
  then have right: "(\<exists>n' k. item = rng @ ''/'' @ n' \<and> CHR ''/'' \<notin> set rng \<and> decimal_of n' k \<and> k < 2 ^ 32 \<and> 1 \<le> k \<and> step = Some k)
      \<longleftrightarrow> rng = r \<and> (\<exists>k. decimal_of n k \<and> k < 2 ^ 32 \<and> 1 \<le> k \<and> step = Some k)" by blast
  have here: "CHR ''/'' \<in> set item" by (simp add: p)
  show ?thesis
  proof (cases "if all_digits n then parse_u32 n else None")
    case None
    then have "\<not> (decimal_of n k \<and> k < 2 ^ 32)" for k using parse_decimal_u32 [of n k] by simp
    with None here Some show ?thesis unfolding right by (auto simp: item_step_def p(3) simp del: power_numeral)
  next
    case k: (Some k)
    then have "decimal_of n k' \<and> k' < 2 ^ 32 \<longleftrightarrow> k' = k" for k' using parse_decimal_u32 [of n k'] by auto
    then have ex: "(\<exists>k'. decimal_of n k' \<and> k' < 2 ^ 32 \<and> 1 \<le> k' \<and> step = Some k') \<longleftrightarrow> 1 \<le> k \<and> step = Some k" by metis
    have left: "item_step item = (if 1 \<le> k then Inr (r, Some k) else Inl (BadStep item))"
      unfolding item_step_def Some p(3) option.case prod.case k by (rule refl)
    show ?thesis unfolding right ex left using here by (cases "1 \<le> k") auto
  qed
qed

lemma span_read:
  assumes "names_agree f names" and "field_max f < 64" and "field_min f \<le> field_max f"
  shows "item_range f item = Inr (a, b, n) \<longleftrightarrow>
    (\<exists>rng step. item_step item = Inr (rng, step) \<and> n = (case step of Some k \<Rightarrow> k | None \<Rightarrow> 1) \<and>
      (rng = ''*'' \<and> a = field_min f \<and> b = field_max f
       \<or> names_value (field_min f) (field_max f) names rng a \<and> b = (if step = None then a else field_max f)
       \<or> (\<exists>s t. rng = s @ ''-'' @ t \<and> names_value (field_min f) (field_max f) names s a
            \<and> names_value (field_min f) (field_max f) names t b \<and> a \<le> b)))"
proof (cases "item_step item")
  case (Inl e)
  then show ?thesis by (simp add: item_range_def)
next
  case (Inr r)
  then obtain rng step where st: "item_step item = Inr (rng, step)" by (cases r) auto
  note value_iff = names_value_read [OF assms(1,2)]
  show ?thesis
  proof (cases "rng = ''*''")
    case True
    then show ?thesis
      using names_value_plain(4) [OF assms(1), of "field_min f" "field_max f" rng]
        Cons_eq_append_conv [of "CHR ''*''" "[]"]
      by (auto simp: item_range_def st)
  next
    case star: False
    show ?thesis
    proof (cases "split_once rng ''-''")
      case None
      then have "rng \<noteq> s @ ''-'' @ t" for s t by (auto simp: split_once_absent)
      with None star show ?thesis
        by (cases "field_value f rng") (auto simp: item_range_def st value_iff [symmetric])
    next
      case (Some p)
      then obtain s t where p: "rng = s @ CHR ''-'' # t" "CHR ''-'' \<notin> set s" "p = (s, t)"
        by (cases p) (auto simp: split_once_iff)
      have only: "s' = s \<and> t' = t" if "rng = s' @ CHR ''-'' # t'" "names_value (field_min f) (field_max f) names s' v" for s' t' v
        using split_once_at [of "CHR ''-''" s' t'] names_value_plain(2) [OF assms(1) that(2)] Some that(1) p(3) by simp
      have "\<not> names_value (field_min f) (field_max f) names rng v" for v
        using names_value_plain(2) [OF assms(1)] p(1) by force
      moreover have "(\<exists>s t. rng = s @ ''-'' @ t \<and> names_value (field_min f) (field_max f) names s a
            \<and> names_value (field_min f) (field_max f) names t b \<and> a \<le> b)
          \<longleftrightarrow> names_value (field_min f) (field_max f) names s a \<and> names_value (field_min f) (field_max f) names t b \<and> a \<le> b"
        using only p(1) by auto
      ultimately show ?thesis
        using star Some unfolding value_iff [symmetric] p(3)
        by (cases "field_value f s"; cases "field_value f t") (auto simp: item_range_def st)
    qed
  qed
qed

lemma item_range_read:
  assumes "names_agree f names" and "field_max f < 64" and "field_min f \<le> field_max f"
  shows "item_range f item = Inr (a, b, n) \<longleftrightarrow> item_denotes (field_min f) (field_max f) names item a b n \<and> n < 2 ^ 32"
proof
  assume "item_range f item = Inr (a, b, n)"
  then obtain rng step where st: "item_step item = Inr (rng, step)" "n = (case step of Some k \<Rightarrow> k | None \<Rightarrow> 1)"
    and rng: "rng = ''*'' \<and> a = field_min f \<and> b = field_max f
       \<or> names_value (field_min f) (field_max f) names rng a \<and> b = (if step = None then a else field_max f)
       \<or> (\<exists>s t. rng = s @ ''-'' @ t \<and> names_value (field_min f) (field_max f) names s a
            \<and> names_value (field_min f) (field_max f) names t b \<and> a \<le> b)"
    unfolding span_read [OF assms] by blast
  show "item_denotes (field_min f) (field_max f) names item a b n \<and> n < 2 ^ 32"
  proof (cases step)
    case None
    then have "rng = item" "n = 1" using st item_step_read by simp_all
    with rng None show ?thesis by (auto intro: item_denotes.intros simp del: append.simps One_nat_def)
  next
    case (Some k)
    with st obtain m where "item = rng @ ''/'' @ m" "decimal_of m k" "k < 2 ^ 32" "1 \<le> k" "n = k"
      unfolding item_step_read by auto
    with rng Some show ?thesis by (auto intro: item_denotes.intros simp del: append.simps append_assoc)
  qed
next
  assume "item_denotes (field_min f) (field_max f) names item a b n \<and> n < 2 ^ 32"
  then have "item_denotes (field_min f) (field_max f) names item a b n" "n < 2 ^ 32" by simp_all
  note plain = names_value_plain(1) [OF assms(1), of "field_min f" "field_max f"]
  from \<open>item_denotes _ _ _ _ _ _ _\<close> \<open>n < 2 ^ 32\<close> show "item_range f item = Inr (a, b, n)"
  proof cases
    case every
    then have "item_step item = Inr (''*'', None)" by (simp add: item_step_read)
    with every show ?thesis unfolding span_read [OF assms] by fastforce
  next
    case single
    then have "item_step item = Inr (item, None)" by (auto simp: item_step_read plain)
    with single show ?thesis unfolding span_read [OF assms] by fastforce
  next
    case (span s t)
    then have "item_step item = Inr (item, None)" by (auto simp: item_step_read plain)
    with span show ?thesis unfolding span_read [OF assms] by fastforce
  next
    case (every_by m)
    then have "item_step item = Inr (''*'', Some n)" using \<open>n < 2 ^ 32\<close> by (auto simp: item_step_read)
    with every_by show ?thesis unfolding span_read [OF assms] by fastforce
  next
    case (upward_by s m)
    then have "item_step item = Inr (s, Some n)" using \<open>n < 2 ^ 32\<close> by (auto simp: item_step_read plain)
    with upward_by show ?thesis unfolding span_read [OF assms] by fastforce
  next
    case (span_by s t m)
    then have "item_step item = Inr (s @ ''-'' @ t, Some n)" using \<open>n < 2 ^ 32\<close> by (auto simp: item_step_read plain)
    with span_by show ?thesis unfolding span_read [OF assms] by fastforce
  qed
qed

lemma item_denotes_le:
  "item_denotes lo hi names item a b n \<Longrightarrow> (\<And>name v. (name, v) \<in> set names \<Longrightarrow> v \<le> hi) \<Longrightarrow> b \<le> hi"
  by (induction rule: item_denotes.induct) (auto simp: names_value_def)

lemma item_denotes_ge:
  "item_denotes lo hi names item a b n \<Longrightarrow> (\<And>name v. (name, v) \<in> set names \<Longrightarrow> lo \<le> v) \<Longrightarrow> lo \<le> hi \<Longrightarrow> lo \<le> a"
  by (induction rule: item_denotes.induct) (auto simp: names_value_def)

lemma small_step_sum:
  assumes "item_denotes lo hi names item a b n" and "hi \<le> 59" and "b \<le> hi"
    and "\<And>before m k. item = before @ ''/'' @ m \<Longrightarrow> decimal_of m k \<Longrightarrow> k + 59 < 2 ^ 32"
  shows "b + n < 2 ^ 32"
  using assms(1)
proof cases
  case (every_by m)
  then show ?thesis using assms(2,3) assms(4) [of "''*''" m n] by simp
next
  case (upward_by s m)
  then show ?thesis using assms(2,3) assms(4) [of s m n] by simp
next
  case (span_by s t m)
  then show ?thesis using assms(2,3) assms(4) [of "s @ ''-'' @ t" m n] by simp
qed (use assms(2,3) in simp_all)

lemma parse_items_holds:
  assumes "field_ok f" and "names_agree f names" and "field_max f \<le> 59"
  shows "parse_items f items bits = Some (Inr w) \<Longrightarrow>
    (\<forall>item\<in>set items. \<forall>before m k. item = before @ ''/'' @ m \<longrightarrow> decimal_of m k \<longrightarrow> k + 59 < 2 ^ 32) \<Longrightarrow>
    (\<forall>item\<in>set items. \<exists>a b n. item_denotes (field_min f) (field_max f) names item a b n)
    \<and> (\<forall>i. bit w i \<longleftrightarrow> bit bits i \<or> (\<exists>item\<in>set items. \<exists>a b n.
         item_denotes (field_min f) (field_max f) names item a b n \<and> a \<le> i \<and> i \<le> b \<and> n dvd i - a))"
proof (induction items arbitrary: bits)
  case (Cons item items)
  then obtain a b n where r: "item_range f item = Inr (a, b, n)" by (auto split: sum.splits)
  have read: "item_range f item' = Inr (a', b', n') \<longleftrightarrow> item_denotes (field_min f) (field_max f) names item' a' b' n' \<and> n' < 2 ^ 32" for item' a' b' n'
    using assms by (intro item_range_read) (auto simp: field_ok_def)
  note bounds = item_range_bounds [OF assms(1) r]
  have small: "b' + n' < 2 ^ 32" if "item_denotes (field_min f) (field_max f) names item a' b' n'" "b' \<le> field_max f" for a' b' n'
    using that Cons.prems(2) assms(3) by (intro small_step_sum [OF that(1) assms(3) that(2)]) auto
  have here: "item_denotes (field_min f) (field_max f) names item a b n" using r read by blast
  from step_bits_small [of n b a bits] bounds small [OF here] assms(3)
  obtain w' where w': "step_bits a b n bits = Some w'" "\<And>i. bit w' i \<longleftrightarrow> bit bits i \<or> a \<le> i \<and> i \<le> b \<and> n dvd i - a"
    by auto
  have only: "item_denotes (field_min f) (field_max f) names item a' b' n' \<longleftrightarrow> a' = a \<and> b' = b \<and> n' = n" for a' b' n'
  proof
    assume den: "item_denotes (field_min f) (field_max f) names item a' b' n'"
    then have "b' \<le> field_max f" by (rule item_denotes_le)
      (use assms(1,2) in \<open>auto simp: names_agree_def field_ok_def set_zip\<close>)
    with small [OF den] den have "item_range f item = Inr (a', b', n')" by (simp add: read)
    with r show "a' = a \<and> b' = b \<and> n' = n" by simp
  qed (use here in simp)
  from Cons.prems(1) w'(1) have "parse_items f items w' = Some (Inr w)" by (simp add: r)
  from Cons.IH [OF this] Cons.prems(2)
  have ih: "\<forall>item\<in>set items. \<exists>a b n. item_denotes (field_min f) (field_max f) names item a b n"
    "\<And>i. bit w i \<longleftrightarrow> bit w' i \<or> (\<exists>item\<in>set items. \<exists>a b n.
       item_denotes (field_min f) (field_max f) names item a b n \<and> a \<le> i \<and> i \<le> b \<and> n dvd i - a)" by simp_all
  show ?case
  proof (intro conjI allI)
    show "\<forall>item\<in>set (item # items). \<exists>a b n. item_denotes (field_min f) (field_max f) names item a b n"
      using ih(1) here by auto
  qed (simp add: only ih(2) w'(2) disj_assoc)
qed simp

lemma field_parse_holds:
  assumes "field_ok f" and "names_agree f names" and "field_max f \<le> 59"
    and "field_parse f s = Some (Inr w)" and "small_steps s"
  shows "field_holds (field_min f) (field_max f) names s (bit w)"
  using parse_items_holds [OF assms(1-3), of "split_on CHR '','' s" 0 w] assms(4,5)
  unfolding field_holds_def field_parse_def small_steps_def by simp

lemma field_mins [simp]:
  "field_min MINUTE = 0" "field_min HOUR = 0" "field_min DAY_OF_MONTH = 1" "field_min MONTH = 1" "field_min DAY_OF_WEEK = 0"
  by (simp_all add: field_defs)

lemma names_agree [simp]:
  "names_agree MINUTE []" "names_agree HOUR []" "names_agree DAY_OF_MONTH []"
  "names_agree MONTH months_named" "names_agree DAY_OF_WEEK days_named"
  by (simp_all add: names_agree_def field_defs months_named_def days_named_def is_ascii_lowercase_def upt_rec)

subsection \<open>The values of an expression\<close>

lemma andthen_simps [simp]:
  "andthen None k = None" "andthen (Some (Inl e)) k = Some (Inl e)" "andthen (Some (Inr x)) k = k x"
  by (simp_all add: andthen_def)

lemma andthen_Inr:
  "andthen r k = Some (Inr y) \<longleftrightarrow> (\<exists>x. r = Some (Inr x) \<and> k x = Some (Inr y))"
  by (auto simp: andthen_def split: option.splits sum.splits)

lemma andthen_returns:
  "(\<And>x. r = Some (Inr x) \<Longrightarrow> \<exists>y. k x = Some y) \<Longrightarrow> \<exists>y. r = Some y \<Longrightarrow> \<exists>y. andthen r k = Some y"
  by (auto simp: andthen_def split: sum.splits)

text \<open>Sunday, which may be written 7, is 0.\<close>

definition sunday_zero :: "64 word \<Rightarrow> 64 word" where
  "sunday_zero w = (if has w 7 then (w OR 1) AND NOT (push_bit 7 1) else w)"

lemma bit_one_word: "bit (1 :: 'a::len word) i \<longleftrightarrow> i = 0"
  using bit_pow [of 0 i] by auto

lemma bit_sunday_zero:
  assumes "\<And>i. bit w i \<Longrightarrow> i \<le> 7"
  shows "bit (sunday_zero w) i \<longleftrightarrow> i < 7 \<and> (bit w i \<or> i = 0 \<and> bit w 7)"
proof -
  have "(NOT (push_bit 7 1) :: 64 word) = NOT (2 ^ 7)" by simp
  then show ?thesis
    using assms [of i] bit_imp_le_length [of w i]
    by (auto simp: sunday_zero_def bit_or_iff bit_and_iff bit_not_iff bit_one_word le_less
        simp del: push_bit_of_1 power_numeral)
qed

lemma narrow_bits:
  assumes "\<And>i. bit w i \<Longrightarrow> i < LENGTH('b::len)"
  shows "narrow w = Some (Inr (ucast w :: 'b word))" and "bit (ucast w :: 'b word) i \<longleftrightarrow> bit w i"
proof -
  show "narrow w = Some (Inr (ucast w :: 'b word))"
    using assms by (intro narrow_Some unat_less_of_bits) (auto simp flip: not_le)
  show "bit (ucast w :: 'b word) i \<longleftrightarrow> bit w i"
    using assms [of i] by (auto simp: bit_ucast_iff)
qed

lemma cron_parse_fields:
  assumes "split_whitespace s = [mi, ho, dm, mo, dw]"
  shows "cron_parse s =
    andthen (field_parse DAY_OF_WEEK dw) (\<lambda>ww. andthen (field_parse MINUTE mi) (\<lambda>wm.
    andthen (field_parse HOUR ho) (\<lambda>wh. andthen (field_parse DAY_OF_MONTH dm) (\<lambda>wd.
    andthen (field_parse MONTH mo) (\<lambda>wo.
      let e = \<lparr>minutes = wm, hours = ucast wh, days_of_month = ucast (drop_bit 1 wd),
        months = ucast (drop_bit 1 wo), days_of_week = ucast (sunday_zero ww),
        either_day = \<not> starts_with dm ''*'' \<and> \<not> starts_with dw ''*''\<rparr>
      in if \<not> can_match e then Some (Inl (NoNextMatch s)) else Some (Inr e))))))"
proof -
  note P = field_parse_returns [OF fields_ok(5), of dw] field_parse_returns [OF fields_ok(2), of ho]
    field_parse_returns [OF fields_ok(3), of dm] field_parse_returns [OF fields_ok(4), of mo]
  have hour: "narrow wh = Some (Inr (ucast wh :: 32 word))"
    if "field_parse HOUR ho = Some (Inr wh)" for wh
    by (rule narrow_bits(1), rule P(2)) (use that in \<open>fastforce+\<close>)
  have day: "narrow (drop_bit 1 wd) = Some (Inr (ucast (drop_bit 1 wd) :: 32 word))"
    if "field_parse DAY_OF_MONTH dm = Some (Inr wd)" for wd
    by (rule narrow_bits(1), rule P(3)) (use that in \<open>fastforce simp: bit_drop_bit_eq\<close>)+
  have month: "narrow (drop_bit 1 wo) = Some (Inr (ucast (drop_bit 1 wo) :: 16 word))"
    if "field_parse MONTH mo = Some (Inr wo)" for wo
    by (rule narrow_bits(1), rule P(4)) (use that in \<open>fastforce simp: bit_drop_bit_eq\<close>)+
  have week: "narrow (sunday_zero ww) = Some (Inr (ucast (sunday_zero ww) :: 8 word))"
    if "field_parse DAY_OF_WEEK dw = Some (Inr ww)" for ww
    by (rule narrow_bits(1), rule P(1)) (use that in \<open>fastforce simp: bit_sunday_zero\<close>)+
  show ?thesis
    unfolding cron_parse_def assms list.case Let_def sunday_zero_def [symmetric]
    using hour day month week
    by (auto simp: andthen_def split: option.splits sum.splits)
qed

lemma field_parse_Some:
  assumes "field_ok f"
  shows "\<exists>r. field_parse f s = Some r"
  using field_parse_returns [OF assms, of s] by blast

text \<open>
  C34. Reading a schedule always returns: for every text, the loops over the ranges of its
  fields end, also with steps near \<open>2 ^ 32\<close>, whose addition wraps, and no conversion of the bits
  to the width of their field panics.
\<close>

theorem cron_parse_returns: "\<exists>r. cron_parse s = Some r"
proof (cases "\<exists>mi ho dm mo dw. split_whitespace s = [mi, ho, dm, mo, dw]")
  case True
  then obtain mi ho dm mo dw where "split_whitespace s = [mi, ho, dm, mo, dw]" by blast
  from cron_parse_fields [OF this] show ?thesis
    by (simp add: andthen_returns field_parse_Some Let_def)
next
  case False
  then show ?thesis
    unfolding cron_parse_def by (auto split: list.splits)
qed

lemma cron_parse_Inr:
  assumes "cron_parse s = Some (Inr e)"
  obtains mi ho dm mo dw wm wh wd wo ww where "split_whitespace s = [mi, ho, dm, mo, dw]"
    and "field_parse MINUTE mi = Some (Inr wm)" and "field_parse HOUR ho = Some (Inr wh)"
    and "field_parse DAY_OF_MONTH dm = Some (Inr wd)" and "field_parse MONTH mo = Some (Inr wo)"
    and "field_parse DAY_OF_WEEK dw = Some (Inr ww)"
    and "e = \<lparr>minutes = wm, hours = ucast wh, days_of_month = ucast (drop_bit 1 wd),
        months = ucast (drop_bit 1 wo), days_of_week = ucast (sunday_zero ww),
        either_day = \<not> starts_with dm ''*'' \<and> \<not> starts_with dw ''*''\<rparr>"
    and "can_match e"
proof -
  obtain mi ho dm mo dw where parts: "split_whitespace s = [mi, ho, dm, mo, dw]"
    using assms unfolding cron_parse_def by (auto split: list.splits)
  show ?thesis
    using assms that [OF parts] unfolding cron_parse_fields [OF parts]
    by (auto simp: andthen_Inr Let_def split: if_splits)
qed

lemma field_parse_le:
  "field_parse f s = Some (Inr w) \<Longrightarrow> field_ok f \<Longrightarrow> bit w i \<Longrightarrow> i \<le> field_max f"
  by (rule field_parse_returns [of f s]) simp_all

lemma ucast_bits:
  "field_parse f s = Some (Inr w) \<Longrightarrow> field_ok f \<Longrightarrow> field_max f < LENGTH('b::len) \<Longrightarrow>
    bit (ucast w :: 'b word) i \<longleftrightarrow> bit w i"
  by (rule narrow_bits(2)) (auto dest!: field_parse_le)

lemma ucast_drop_bits:
  "field_parse f s = Some (Inr w) \<Longrightarrow> field_ok f \<Longrightarrow> field_max f \<le> LENGTH('b::len) \<Longrightarrow>
    bit (ucast (drop_bit 1 w) :: 'b word) i \<longleftrightarrow> bit w (i + 1)"
  by (subst narrow_bits(2)) (auto simp: bit_drop_bit_eq dest!: field_parse_le)

text \<open>
  C35. An expression means what its fields say, as long as no step is so large that the addition can wrap
  (\<open>small_steps\<close>: steps up to \<open>2 ^ 32 - 60\<close>): an accepted expression is five fields, each of whose items is
  in the grammar (\<open>*\<close>, a value, or two values with a dash, each with an optional slash and step, where
  a value is a number in the range of the field or, for months and days of the week, a name), and its
  sets hold exactly the values that the items run through. A day of the month and a month are
  counted from zero, and a day of the week of 7 is Sunday.
\<close>

theorem cron_parse_denotes:
  assumes "cron_parse s = Some (Inr e)" and "\<forall>field\<in>set (split_whitespace s). small_steps field"
  shows "\<exists>mi ho dm mo dw days. split_whitespace s = [mi, ho, dm, mo, dw]
    \<and> field_holds 0 59 [] mi (bit (minutes e))
    \<and> field_holds 0 23 [] ho (bit (hours e))
    \<and> field_holds 1 31 [] dm (\<lambda>i. 1 \<le> i \<and> bit (days_of_month e) (i - 1))
    \<and> field_holds 1 12 months_named mo (\<lambda>i. 1 \<le> i \<and> bit (months e) (i - 1))
    \<and> field_holds 0 7 days_named dw days
    \<and> (\<forall>i. bit (days_of_week e) i \<longleftrightarrow> i < 7 \<and> (days i \<or> i = 0 \<and> days 7))"
proof -
  obtain mi ho dm mo dw wm wh wd wo ww where parts: "split_whitespace s = [mi, ho, dm, mo, dw]"
    and w: "field_parse MINUTE mi = Some (Inr wm)"
      "field_parse HOUR ho = Some (Inr wh)" "field_parse DAY_OF_MONTH dm = Some (Inr wd)"
      "field_parse MONTH mo = Some (Inr wo)" "field_parse DAY_OF_WEEK dw = Some (Inr ww)"
    and e: "e = \<lparr>minutes = wm, hours = ucast wh, days_of_month = ucast (drop_bit 1 wd),
        months = ucast (drop_bit 1 wo), days_of_week = ucast (sunday_zero ww),
        either_day = \<not> starts_with dm ''*'' \<and> \<not> starts_with dw ''*''\<rparr>"
    by (rule cron_parse_Inr [OF assms(1)])
  have small: "small_steps mi" "small_steps ho" "small_steps dm" "small_steps mo" "small_steps dw"
    using assms(2) parts by simp_all
  have holds: "field_holds 0 59 [] mi (bit wm)" "field_holds 0 23 [] ho (bit wh)" "field_holds 1 31 [] dm (bit wd)"
    "field_holds 1 12 months_named mo (bit wo)" "field_holds 0 7 days_named dw (bit ww)"
    using field_parse_holds [OF _ _ _ w(1) small(1), of "[]"] field_parse_holds [OF _ _ _ w(2) small(2), of "[]"]
      field_parse_holds [OF _ _ _ w(3) small(3), of "[]"] field_parse_holds [OF _ _ _ w(4) small(4), of months_named]
      field_parse_holds [OF _ _ _ w(5) small(5), of days_named] by simp_all
  have ww: "bit ww i \<Longrightarrow> i \<le> 7" for i
    using field_parse_le [OF w(5)] by simp
  have week: "bit (ucast (sunday_zero ww) :: 8 word) i \<longleftrightarrow> i < 7 \<and> (bit ww i \<or> i = 0 \<and> bit ww 7)" for i
    by (subst narrow_bits(2)) (simp_all add: bit_sunday_zero ww)
  have low: "\<not> bit wd 0" "\<not> bit wo 0"
    using holds(3,4) by (auto simp: field_holds_def months_named_def names_value_def dest!: item_denotes_ge)
  have shift: "held = (\<lambda>i. 1 \<le> i \<and> other (i - 1))" if "\<not> held 0" "\<And>i. other i \<longleftrightarrow> held (i + 1)" for held other :: "nat \<Rightarrow> bool"
  proof
    show "held i \<longleftrightarrow> 1 \<le> i \<and> other (i - 1)" for i
      using that by (cases i) auto
  qed
  have "bit wd = (\<lambda>i. 1 \<le> i \<and> bit (ucast (drop_bit 1 wd) :: 32 word) (i - 1))"
    by (rule shift) (rule low, rule ucast_drop_bits [OF w(3)], simp_all)
  then have days: "field_holds 1 31 [] dm (\<lambda>i. 1 \<le> i \<and> bit (ucast (drop_bit 1 wd) :: 32 word) (i - 1))"
    by (rule subst) (rule holds)
  have "bit wo = (\<lambda>i. 1 \<le> i \<and> bit (ucast (drop_bit 1 wo) :: 16 word) (i - 1))"
    by (rule shift) (rule low, rule ucast_drop_bits [OF w(4)], simp_all)
  then have months: "field_holds 1 12 months_named mo (\<lambda>i. 1 \<le> i \<and> bit (ucast (drop_bit 1 wo) :: 16 word) (i - 1))"
    by (rule subst) (rule holds)
  have hour: "bit (ucast wh :: 32 word) = bit wh"
    using ucast_bits [OF w(2), where 'b = 32] by (simp add: fun_eq_iff)
  have "field_holds 0 59 [] mi (bit (minutes e)) \<and> field_holds 0 23 [] ho (bit (hours e))
    \<and> field_holds 1 31 [] dm (\<lambda>i. 1 \<le> i \<and> bit (days_of_month e) (i - 1))
    \<and> field_holds 1 12 months_named mo (\<lambda>i. 1 \<le> i \<and> bit (months e) (i - 1))"
    unfolding e cron_expr.simps hour using holds(1,2) days months by blast
  moreover have "\<forall>i. bit (days_of_week e) i \<longleftrightarrow> i < 7 \<and> (bit ww i \<or> i = 0 \<and> bit ww 7)"
    unfolding e cron_expr.simps by (simp add: week)
  ultimately show ?thesis using parts holds(5) by blast
qed

subsubsection \<open>A sample expression\<close>

lemmas schedule_eval = field_parse_def item_range_def item_step_def field_value_def field_defs
  all_digits_def is_ascii_digit_def parse_u32_def parse_unsigned_def digits_value_def U32_MAX_def

definition nightly :: cron_expr where
  "nightly = \<lparr>minutes = 1, hours = 8, days_of_month = 2147483647, months = 4095, days_of_week = 65,
     either_day = False\<rparr>"

lemma nightly_parts: "split_whitespace ''0 3 * * */6'' = [''0'', ''3'', ''*'', ''*'', ''*/6'']"
  by (simp add: split_whitespace_def is_whitespace_def)

lemma step_bits_each:
  assumes "to < 64"
  shows "step_bits v to (Suc 0) 0 = Some (mask (to + 1) AND NOT (mask v))"
proof -
  obtain r where r: "step_bits v to 1 0 = Some r" "\<And>i. bit r i \<longleftrightarrow> v \<le> i \<and> i \<le> to"
    using step_bits_small [of 1 to v 0] assms by (simp; blast)
  have "r = mask (to + 1) AND NOT (mask v)"
  proof (rule bit_word_eqI)
    fix i assume "i < LENGTH(64)"
    then have "i < 64" by simp
    then have "bit (mask (to + 1) AND NOT (mask v) :: 64 word) i \<longleftrightarrow> i < to + 1 \<and> \<not> i < v"
      by (simp only: bit_and_iff bit_not_iff_eq bit_mask_iff possible_bit_word) simp
    then show "bit r i \<longleftrightarrow> bit (mask (to + 1) AND NOT (mask v) :: 64 word) i"
      using r(2) [of i] by linarith
  qed
  with r(1) show ?thesis by simp
qed

lemma nightly_steps:
  "step_bits 0 0 1 0 = Some 1" "step_bits 3 3 1 0 = Some 8" "step_bits 0 7 6 0 = Some 65"
  "step_bits (Suc 0) 31 (Suc 0) 0 = Some 4294967294" "step_bits (Suc 0) 12 (Suc 0) 0 = Some 8190"
proof -
  show "step_bits 0 7 6 0 = Some 65"
    by (simp add: step_bits.simps)
qed (simp_all add: step_bits_each mask_eq_exp_minus_1)

lemma nightly_fields:
  "field_parse MINUTE ''0'' = Some (Inr 1)" "field_parse HOUR ''3'' = Some (Inr 8)"
  "field_parse DAY_OF_MONTH ''*'' = Some (Inr 4294967294)"
  "field_parse MONTH ''*'' = Some (Inr 8190)" "field_parse DAY_OF_WEEK ''*/6'' = Some (Inr 65)"
  using nightly_steps by (simp_all add: schedule_eval)

lemma parse_nightly: "cron_parse ''0 3 * * */6'' = Some (Inr nightly)"
  unfolding cron_parse_fields [OF nightly_parts]
  by (simp add: nightly_fields sunday_zero_def can_match_def nightly_def)

lemma nightly_small: "\<forall>field\<in>set (split_whitespace ''0 3 * * */6''). small_steps field"
  unfolding nightly_parts
  by (auto simp: small_steps_def Cons_eq_append_conv append_eq_Cons_conv decimal_digits digits_value_def)

theorem cron_parse_denotes_witness:
  "\<exists>mi ho dm mo dw days. split_whitespace ''0 3 * * */6'' = [mi, ho, dm, mo, dw]
    \<and> field_holds 0 59 [] mi (bit (minutes nightly))
    \<and> field_holds 0 23 [] ho (bit (hours nightly))
    \<and> field_holds 1 31 [] dm (\<lambda>i. 1 \<le> i \<and> bit (days_of_month nightly) (i - 1))
    \<and> field_holds 1 12 months_named mo (\<lambda>i. 1 \<le> i \<and> bit (months nightly) (i - 1))
    \<and> field_holds 0 7 days_named dw days
    \<and> (\<forall>i. bit (days_of_week nightly) i \<longleftrightarrow> i < 7 \<and> (days i \<or> i = 0 \<and> days 7))"
  by (rule cron_parse_denotes [OF parse_nightly nightly_small])

text \<open>
  Where the addition wraps, the values run down from the first: \<open>5/4294967295\<close> is the minutes
  from 5 to 0.
\<close>

lemma huge_step_counts_down: "field_parse MINUTE ''5/4294967295'' = Some (Inr 63)"
  by (simp add: schedule_eval step_bits.simps)

subsection \<open>The earliest instant of a day\<close>

text \<open>The specification: of the instants in a set after \<open>after\<close>, the earliest.\<close>

definition earliest_in :: "instant \<Rightarrow> instant set \<Rightarrow> instant option \<Rightarrow> bool" where
  "earliest_in after S r \<longleftrightarrow>
     (case r of
        None \<Rightarrow> (\<forall>t\<in>S. t \<le> after)
      | Some t \<Rightarrow> t \<in> S \<and> after < t \<and> (\<forall>u\<in>S. after < u \<longrightarrow> t \<le> u))"

lemma earliest_in_empty [simp]: "earliest_in after {} r \<longleftrightarrow> r = None"
  by (auto simp: earliest_in_def split: option.splits)

lemma earliest_in_keep:
  "earliest_in after S r \<Longrightarrow> earliest_in after (S \<union> set_option c) (keep_earliest after c r)"
  by (fastforce simp: earliest_in_def keep_earliest_def split: option.splits)

lemma earliest_in_fold:
  "earliest_in after S r \<Longrightarrow> earliest_in after (S \<union> {t. Some t \<in> set cs}) (fold (keep_earliest after) cs r)"
proof (induction cs arbitrary: S r)
  case (Cons c cs)
  have "S \<union> {t. Some t \<in> set (c # cs)} = S \<union> set_option c \<union> {t. Some t \<in> set cs}"
    by (cases c) auto
  with Cons.IH [OF earliest_in_keep [OF Cons.prems]] show ?case by simp
qed simp

lemma earliest_in_more:
  assumes "earliest_in after S (Some t)" and "\<And>u. u \<in> T \<Longrightarrow> after < u \<Longrightarrow> t \<le> u"
  shows "earliest_in after (S \<union> T) (Some t)"
  using assms by (auto simp: earliest_in_def)

lemma earliest_in_None_Un:
  "earliest_in after S None \<Longrightarrow> earliest_in after T r \<Longrightarrow> earliest_in after (S \<union> T) r"
  by (fastforce simp: earliest_in_def split: option.splits)

text \<open>The nested loops are one loop over the local times of the day that the expression names.\<close>

definition day_times :: "cron_expr \<Rightarrow> 'd \<Rightarrow> nat list \<Rightarrow> 'd local_time list" where
  "day_times e date hs =
     concat (map (\<lambda>h. map (\<lambda>m. (date, h, m)) (filter (has (minutes e)) [0..<60])) (filter (has (hours e)) hs))"

fun scan_times :: "'d calendar \<Rightarrow> 'd time_zone \<Rightarrow> cron_expr \<Rightarrow> instant \<Rightarrow> 'd::linorder local_time \<Rightarrow> bool \<Rightarrow>
    'd local_time list \<Rightarrow> instant option \<Rightarrow> bool \<times> instant option" where
  "scan_times cal zone e after start steady [] r = (False, r)"
| "scan_times cal zone e after start steady (l # ls) r =
     (if steady \<and> l < start then scan_times cal zone e after start steady ls r
      else (let r = fold (keep_earliest after) (instants cal zone e l) r
            in if steady \<and> r \<noteq> None then (True, r) else scan_times cal zone e after start steady ls r))"

lemma scan_minutes_times:
  "scan_minutes cal zone e after start steady date hour ms r =
    scan_times cal zone e after start steady (map (\<lambda>m. (date, hour, m)) (filter (has (minutes e)) ms)) r"
  by (cases steady; induction ms arbitrary: r) (simp_all add: Let_def)

lemma scan_times_append:
  "scan_times cal zone e after start steady (xs @ ys) r =
    (case scan_times cal zone e after start steady xs r of
       (True, found) \<Rightarrow> (True, found)
     | (False, r) \<Rightarrow> scan_times cal zone e after start steady ys r)"
  by (cases steady; induction xs arbitrary: r) (simp_all add: Let_def)

lemma scan_hours_times:
  "scan_hours cal zone e after start steady date hs r =
    scan_times cal zone e after start steady (day_times e date hs) r"
  by (induction hs arbitrary: r) (auto simp: day_times_def scan_minutes_times scan_times_append split: prod.splits bool.splits)

definition times_instants :: "'d calendar \<Rightarrow> 'd time_zone \<Rightarrow> cron_expr \<Rightarrow> 'd local_time list \<Rightarrow> instant set" where
  "times_instants cal zone e ls = {t. \<exists>l\<in>set ls. Some t \<in> set (instants cal zone e l)}"

lemma times_instants_simps [simp]:
  "times_instants cal zone e [] = {}"
  "times_instants cal zone e (l # ls) = {t. Some t \<in> set (instants cal zone e l)} \<union> times_instants cal zone e ls"
  by (auto simp: times_instants_def)

lemma scan_unsteady:
  "earliest_in after S r \<Longrightarrow>
    earliest_in after (S \<union> times_instants cal zone e ls) (snd (scan_times cal zone e after start False ls r))"
proof (induction ls arbitrary: S r)
  case (Cons l ls)
  from Cons.IH [OF earliest_in_fold [OF Cons.prems]] show ?case
    by (simp add: Un_assoc)
qed simp

text \<open>
  A day without a clock change: no local time of it occurs twice, and later local times are
  not earlier instants.
\<close>

definition clock_time :: "nat \<Rightarrow> nat \<Rightarrow> bool" where
  "clock_time h m \<longleftrightarrow> h < 24 \<and> m < 60"

definition in_step :: "'d time_zone \<Rightarrow> 'd \<Rightarrow> bool" where
  "in_step zone date \<longleftrightarrow>
     (\<forall>h m. clock_time h m
          \<longrightarrow> (case amb_offset (ambiguous_timestamp zone (date, h, m)) of Fold _ _ \<Rightarrow> False | _ \<Rightarrow> True))
     \<and> (\<forall>h m h' m' t t'. clock_time h m \<longrightarrow> clock_time h' m' \<longrightarrow> (h, m) \<le> (h', m')
          \<longrightarrow> compatible (ambiguous_timestamp zone (date, h, m)) = Some t
          \<longrightarrow> compatible (ambiguous_timestamp zone (date, h', m')) = Some t' \<longrightarrow> t \<le> t')"

definition passed_before :: "'d::linorder time_zone \<Rightarrow> instant \<Rightarrow> 'd local_time \<Rightarrow> 'd \<Rightarrow> bool" where
  "passed_before zone after start date \<longleftrightarrow>
     (\<forall>h m t. clock_time h m \<longrightarrow> (date, h, m) < start \<longrightarrow> compatible (ambiguous_timestamp zone (date, h, m)) = Some t
        \<longrightarrow> t \<le> after)"

lemma instants_in_step:
  "in_step zone date \<Longrightarrow> clock_time h m \<Longrightarrow> instants cal zone e (date, h, m) =
    [compatible (ambiguous_timestamp zone (date, h, m)), None]"
  by (auto simp: instants_def in_step_def Let_def split: ambiguous_offset.splits)

lemma keep_earliest_None [simp]: "keep_earliest after None r = r"
  by (simp add: keep_earliest_def)

lemma scan_steady:
  assumes step: "in_step zone date" and passed: "passed_before zone after start date"
  shows "sorted ls \<Longrightarrow> (\<And>l. l \<in> set ls \<Longrightarrow> \<exists>h m. l = (date, h, m) \<and> clock_time h m) \<Longrightarrow>
    earliest_in after (times_instants cal zone e ls) (snd (scan_times cal zone e after start True ls None))"
proof (induction ls)
  case (Cons l ls)
  then have IH: "earliest_in after (times_instants cal zone e ls)
      (snd (scan_times cal zone e after start True ls None))"
    by simp
  obtain h m where l: "l = (date, h, m)" and hm: "clock_time h m"
    using Cons.prems(2) [of l] by auto
  let ?c = "compatible (ambiguous_timestamp zone l)"
  have here: "{t. Some t \<in> set (instants cal zone e l)} = set_option ?c"
    by (auto simp: l instants_in_step [OF step hm])
  show ?case
  proof (cases "l < start")
    case True
    with passed have "earliest_in after (set_option ?c) None"
      using hm by (auto simp: passed_before_def l earliest_in_def)
    from earliest_in_None_Un [OF this IH] True show ?thesis by (simp add: here)
  next
    case False
    let ?r = "keep_earliest after ?c None"
    have r: "fold (keep_earliest after) (instants cal zone e l) None = ?r"
      by (simp add: l instants_in_step [OF step hm])
    have least: "earliest_in after (set_option ?c) ?r"
      using earliest_in_keep [of after "{}" None ?c] by simp
    show ?thesis
    proof (cases ?r)
      case None
      with least earliest_in_None_Un [OF _ IH] False show ?thesis
        by (simp add: here r)
    next
      case (Some t)
      with least have t: "?c = Some t" by (auto simp: earliest_in_def)
      have "t \<le> u" if u: "u \<in> times_instants cal zone e ls" for u
      proof -
        obtain l' where l': "l' \<in> set ls" "Some u \<in> set (instants cal zone e l')"
          using u unfolding times_instants_def by blast
        obtain h' m' where l'': "l' = (date, h', m')" and hm': "clock_time h' m'"
          using Cons.prems(2) [of l'] l'(1) by auto
        have "(h, m) \<le> (h', m')" and "compatible (ambiguous_timestamp zone l') = Some u"
          using Cons.prems(1) l' by (auto simp: l l'' instants_in_step [OF step hm'])
        with t step hm hm' show ?thesis unfolding in_step_def l l'' by blast
      qed
      with earliest_in_more [of after "set_option ?c" t] least Some False show ?thesis
        by (simp add: here r)
    qed
  qed
qed simp

subsection \<open>The earliest fire\<close>

text \<open>The specification of a search: the instants that a matching day within reach fires at.\<close>

definition fires_on :: "'d calendar \<Rightarrow> 'd time_zone \<Rightarrow> cron_expr \<Rightarrow> 'd \<Rightarrow> instant set" where
  "fires_on cal zone e date =
     {t. \<exists>h<24. \<exists>m<60. bit (hours e) h \<and> bit (minutes e) m \<and> Some t \<in> set (instants cal zone e (date, h, m))}"

primrec day_after :: "'d calendar \<Rightarrow> nat \<Rightarrow> 'd \<Rightarrow> 'd option" where
  "day_after cal 0 date = Some date"
| "day_after cal (Suc k) date = Option.bind (tomorrow cal date) (day_after cal k)"

definition fires_within :: "'d calendar \<Rightarrow> 'd time_zone \<Rightarrow> cron_expr \<Rightarrow> nat \<Rightarrow> 'd \<Rightarrow> instant set" where
  "fires_within cal zone e n date =
     {t. \<exists>k<n. \<exists>d. day_after cal k date = Some d \<and> day_matches cal e d \<and> t \<in> fires_on cal zone e d}"

text \<open>The search reached a day that \<open>jiff\<close> cannot look around, at the end of its range.\<close>

definition out_of_range :: "'d calendar \<Rightarrow> 'd time_zone \<Rightarrow> cron_expr \<Rightarrow> nat \<Rightarrow> 'd \<Rightarrow> bool" where
  "out_of_range cal zone e n date \<longleftrightarrow>
     (\<exists>k<n. \<exists>d. day_after cal k date = Some d \<and> day_matches cal e d \<and> clock_changes_on cal zone d = None)"

text \<open>The readings of a local time, and a zone whose clock changes stay within a day.\<close>

definition occurs_at :: "'d calendar \<Rightarrow> 'd time_zone \<Rightarrow> 'd local_time \<Rightarrow> instant \<Rightarrow> bool" where
  "occurs_at cal zone l t \<longleftrightarrow>
     (let a = ambiguous_timestamp zone l
      in earlier a = Some t \<or> compatible a = Some t
         \<or> (case amb_offset a of Fold _ after \<Rightarrow> at_offset cal after l = Some t | _ \<Rightarrow> False))"

definition orderly :: "'d::linorder calendar \<Rightarrow> 'd time_zone \<Rightarrow> instant \<Rightarrow> bool" where
  "orderly cal zone after \<longleftrightarrow>
     (\<forall>d d'. tomorrow cal d = Some d' \<longrightarrow> d < d')
     \<and> (\<forall>d h m t d' h' m' t'. d < d' \<longrightarrow> clock_time h m \<longrightarrow> clock_time h' m' \<longrightarrow> occurs_at cal zone (d, h, m) t \<longrightarrow> occurs_at cal zone (d', h', m') t'
          \<longrightarrow> t < t')
     \<and> (\<forall>d. clock_changes_on cal zone d = Some False \<longrightarrow> in_step zone d)
     \<and> (\<forall>start d. plus_minute cal (fst (to_datetime zone after)) = Some start
          \<longrightarrow> clock_changes_on cal zone d = Some False \<longrightarrow> passed_before zone after start d)"

lemma fires_on_times: "times_instants cal zone e (day_times e date [0..<24]) = fires_on cal zone e date"
  by (auto simp: times_instants_def day_times_def fires_on_def)

lemma day_times_sorted: "sorted hs \<Longrightarrow> distinct hs \<Longrightarrow> sorted (day_times e (date :: 'd::linorder) hs)"
proof (induction hs)
  case (Cons h hs)
  have minutes: "sorted (map (\<lambda>m. (date, h, m)) (filter P [0..<60]))" for h :: nat and P
    by (simp add: sorted_map sorted_wrt_filter)
  have "day_times e date (h # hs) =
      (if has (hours e) h then map (\<lambda>m. (date, h, m)) (filter (has (minutes e)) [0..<60]) else [])
        @ day_times e date hs"
    by (simp add: day_times_def)
  moreover have "d = date \<and> h < h'" if "(d, h', m) \<in> set (day_times e date hs)" for d h' m
    using that Cons.prems by (fastforce simp: day_times_def le_less)
  ultimately show ?case
    using Cons minutes by (fastforce simp: sorted_append)
qed (simp add: day_times_def)

lemma day_times_in:
  "l \<in> set (day_times e date [0..<24]) \<Longrightarrow> \<exists>h m. l = (date, h, m) \<and> clock_time h m"
  by (auto simp: day_times_def clock_time_def)

lemma day_earliest:
  assumes "orderly cal zone after" and "plus_minute cal (fst (to_datetime zone after)) = Some start"
    and "clock_changes_on cal zone date = Some changes"
  shows "earliest_in after (fires_on cal zone e date)
    (snd (scan_hours cal zone e after start (\<not> changes) date [0..<24] None))"
proof (cases changes)
  case True
  then show ?thesis
    using scan_unsteady [of after "{}" None cal zone e "day_times e date [0..<24]" start]
    by (simp add: scan_hours_times fires_on_times)
next
  case False
  with assms have "in_step zone date" and "passed_before zone after start date"
    by (auto simp: orderly_def)
  from scan_steady [OF this, of "day_times e date [0..<24]" cal e] False
  show ?thesis
    by (simp add: scan_hours_times fires_on_times day_times_sorted day_times_in)
qed

lemma fires_on_occurs: "t \<in> fires_on cal zone e date \<Longrightarrow> \<exists>h m. clock_time h m \<and> occurs_at cal zone (date, h, m) t"
proof -
  assume "t \<in> fires_on cal zone e date"
  then obtain h m where "clock_time h m" "Some t \<in> set (instants cal zone e (date, h, m))"
    unfolding fires_on_def clock_time_def by blast
  moreover from this have "occurs_at cal zone (date, h, m) t"
    by (auto simp: instants_def occurs_at_def Let_def split: ambiguous_offset.splits if_splits)
  ultimately show ?thesis by blast
qed

lemma day_after_less:
  assumes "orderly cal zone after"
  shows "day_after cal k date = Some d \<Longrightarrow> date \<le> d"
proof (induction k arbitrary: date)
  case (Suc k)
  then obtain d' where "tomorrow cal date = Some d'" "day_after cal k d' = Some d"
    by (auto split: bind_splits)
  with Suc.IH [of d'] assms show ?case by (force simp: orderly_def)
qed simp

lemma fires_within_Suc:
  "fires_within cal zone e (Suc n) date =
    (if day_matches cal e date then fires_on cal zone e date else {})
    \<union> (case tomorrow cal date of None \<Rightarrow> {} | Some d \<Rightarrow> fires_within cal zone e n d)"
  by (cases "tomorrow cal date") (auto simp: fires_within_def Ex_less_Suc2)

lemma out_of_range_Suc:
  "out_of_range cal zone e (Suc n) date \<longleftrightarrow>
    day_matches cal e date \<and> clock_changes_on cal zone date = None
    \<or> (case tomorrow cal date of None \<Rightarrow> False | Some d \<Rightarrow> out_of_range cal zone e n d)"
  by (cases "tomorrow cal date") (auto simp: out_of_range_def Ex_less_Suc2)

lemma later_days:
  assumes "orderly cal zone after" and "tomorrow cal date = Some d" and "t \<in> fires_on cal zone e date"
    and "u \<in> fires_within cal zone e n d"
  shows "t < u"
proof -
  obtain k d' where d': "day_after cal k d = Some d'" "u \<in> fires_on cal zone e d'"
    using assms(4) by (auto simp: fires_within_def)
  have "date < d" using assms(1,2) by (auto simp: orderly_def)
  with day_after_less [OF assms(1) d'(1)] have "date < d'" by simp
  with fires_on_occurs [OF assms(3)] fires_on_occurs [OF d'(2)] assms(1) show ?thesis
    unfolding orderly_def by blast
qed

lemma search_days_Suc:
  "search_days cal zone e after start (Suc n) date =
    (let next_day = (case tomorrow cal date of
           None \<Rightarrow> None | Some d \<Rightarrow> search_days cal zone e after start n d)
     in if day_matches cal e date
        then (case clock_changes_on cal zone date of
            None \<Rightarrow> None
          | Some changes \<Rightarrow>
              (case snd (scan_hours cal zone e after start (\<not> changes) date [0..<24] None) of
                 Some earliest \<Rightarrow> Some earliest
               | None \<Rightarrow> next_day))
        else next_day)"
  by (simp add: search_days.simps [of _ _ _ _ _ "Suc n"] cong: option.case_cong)

lemma search_earliest:
  assumes "orderly cal zone after" and "plus_minute cal (fst (to_datetime zone after)) = Some start"
  shows "earliest_in after (fires_within cal zone e n date) (search_days cal zone e after start n date)
    \<or> search_days cal zone e after start n date = None \<and> out_of_range cal zone e n date"
proof (induction n arbitrary: date)
  case 0
  then show ?case by (simp add: search_days.simps fires_within_def)
next
  case (Suc n)
  let ?later = "case tomorrow cal date of None \<Rightarrow> {} | Some d \<Rightarrow> fires_within cal zone e n d"
  let ?next = "case tomorrow cal date of None \<Rightarrow> None
    | Some d \<Rightarrow> search_days cal zone e after start n d"
  have rest: "earliest_in after ?later ?next \<or> ?next = None \<and>
      (case tomorrow cal date of None \<Rightarrow> False | Some d \<Rightarrow> out_of_range cal zone e n d)"
    using Suc.IH by (auto split: option.splits)
  show ?case
  proof (cases "day_matches cal e date")
    case False
    then show ?thesis
      using rest by (simp add: search_days_Suc Let_def fires_within_Suc out_of_range_Suc)
  next
    case matches: True
    show ?thesis
    proof (cases "clock_changes_on cal zone date")
      case None
      with matches show ?thesis
        by (simp add: search_days_Suc Let_def out_of_range_Suc)
    next
      case (Some changes)
      let ?r = "snd (scan_hours cal zone e after start (\<not> changes) date [0..<24] None)"
      note day = day_earliest [OF assms Some, of e]
      show ?thesis
      proof (cases ?r)
        case None
        with day rest matches Some earliest_in_None_Un [of after "fires_on cal zone e date" ?later ?next]
        show ?thesis
          by (auto simp: search_days_Suc Let_def fires_within_Suc out_of_range_Suc)
      next
        case r: (Some t)
        with day have "t \<in> fires_on cal zone e date" by (simp add: earliest_in_def)
        with later_days [OF assms(1)] have "t \<le> u" if "u \<in> ?later" for u
          using that by (fastforce split: option.splits)
        with earliest_in_more [of after "fires_on cal zone e date" t ?later] day r matches Some
        show ?thesis
          by (simp add: search_days_Suc Let_def fires_within_Suc)
      qed
    qed
  qed
qed

text \<open>
  C11. The next fire is the earliest one: over the days of the search, the instants of every
  matching day, both occurrences of a repeated local time included where they fire, hold
  nothing after \<open>after\<close> that is earlier, and there is none when the search finds none, unless
  it left the range of dates. Of the time zone it needs that days follow each other, and that a
  day without a clock change reads its local times in order.
\<close>

theorem next_after_earliest:
  assumes "orderly cal zone after" and "plus_minute cal (fst (to_datetime zone after)) = Some start"
    and "\<not> out_of_range cal zone e SEARCH_DAYS (fst (fst (to_datetime zone after)))"
  shows "earliest_in after (fires_within cal zone e SEARCH_DAYS (fst (fst (to_datetime zone after))))
    (next_after cal zone e after)"
  using search_earliest [OF assms(1,2), of e SEARCH_DAYS "fst (fst (to_datetime zone after))"] assms(2,3)
  by (auto simp: next_after_def Let_def)

text \<open>Without any law, a next fire is after \<open>after\<close>: what counting fires rests on.\<close>

definition late :: "instant \<Rightarrow> instant option \<Rightarrow> bool" where
  "late after r \<longleftrightarrow> (case r of None \<Rightarrow> True | Some t \<Rightarrow> after < t)"

lemma late_None [simp]: "late after None"
  by (simp add: late_def)

lemma late_keep: "late after r \<Longrightarrow> late after (keep_earliest after c r)"
  by (auto simp: late_def keep_earliest_def split: option.splits)

lemma late_fold: "late after r \<Longrightarrow> late after (fold (keep_earliest after) cs r)"
  by (induction cs arbitrary: r) (simp_all add: late_keep)

lemma late_scan: "late after r \<Longrightarrow> late after (snd (scan_times cal zone e after start steady ls r))"
  by (cases steady; induction ls arbitrary: r) (simp_all add: Let_def late_fold)

lemma late_search: "late after (search_days cal zone e after start n date)"
proof (induction n arbitrary: date)
  case (Suc n)
  have "late after (snd (scan_times cal zone e after start steady ls None))" for steady ls
    by (rule late_scan) (simp add: late_def)
  then have "late after (snd (scan_hours cal zone e after start steady date [0..<24] None))" for steady
    by (simp add: scan_hours_times)
  with Suc.IH show ?case
    by (auto simp: search_days_Suc Let_def late_def split: option.splits)
      (metis option.simps(5))+
qed (simp add: search_days.simps late_def)

lemma next_after_later: "next_after cal zone e after = Some t \<Longrightarrow> after < t"
proof -
  assume some: "next_after cal zone e after = Some t"
  then obtain start where "search_days cal zone e after start SEARCH_DAYS
      (fst (fst (to_datetime zone after))) = Some t"
    by (auto simp: next_after_def Let_def split: option.splits)
  then show ?thesis by (metis late_search late_def option.simps(5))
qed

subsection \<open>Coordinated universal time\<close>

text \<open>
  The zone in which the repository's tests evaluate schedules, with the Gregorian calendar over
  day numbers from 1970-01-01; the month and the day of a number are found by whole eras of 400
  years, whose years begin in March.
\<close>

definition civil :: "int \<Rightarrow> nat \<times> nat" where
  "civil n =
     (let doe = (n + 719468) mod 146097;
          yoe = (doe - doe div 1460 + doe div 36524 - doe div 146096) div 365;
          doy = doe - (365 * yoe + yoe div 4 - yoe div 100);
          mp = (5 * doy + 2) div 153
      in (nat (if mp < 10 then mp + 3 else mp - 9), nat (doy - (153 * mp + 2) div 5 + 1)))"

definition utc_instant :: "int local_time \<Rightarrow> instant" where
  "utc_instant l = (case l of (d, h, m) \<Rightarrow> (d * 86400 + int h * 3600 + int m * 60) * SECOND)"

definition gregorian :: "int calendar" where
  "gregorian =
     \<lparr>month_of = (\<lambda>d. fst (civil d)), day_of = (\<lambda>d. snd (civil d)),
      weekday_of = (\<lambda>d. nat ((d + 4) mod 7)), tomorrow = (\<lambda>d. Some (d + 1)),
      plus_minute = (\<lambda>(d, h, m). Some (if m < 59 then (d, h, m + 1) else if h < 23 then (d, h + 1, 0)
                                   else (d + 1, 0, 0))),
      at_offset = (\<lambda>offset l. Some (utc_instant l - offset * SECOND)),
      plus_nanos = (\<lambda>t n. Some (t + n)), instant_min = - (10 ^ 21)\<rparr>"

definition UTC :: "int time_zone" where
  "UTC =
     \<lparr>to_datetime = (\<lambda>t. let s = t div SECOND
          in ((s div 86400, nat (s mod 86400 div 3600), nat (s mod 3600 div 60)), nat (t mod (60 * SECOND)))),
      ambiguous_timestamp = (\<lambda>l. \<lparr>amb_offset = Unambiguous 0, earlier = Some (utc_instant l),
          later = Some (utc_instant l), compatible = Some (utc_instant l)\<rparr>),
      following = (\<lambda>t. None)\<rparr>"

lemma UTC_simps [simp]:
  "ambiguous_timestamp UTC l = \<lparr>amb_offset = Unambiguous 0, earlier = Some (utc_instant l),
      later = Some (utc_instant l), compatible = Some (utc_instant l)\<rparr>"
  "following UTC t = None" "tomorrow gregorian d = Some (d + 1)"
  "plus_nanos gregorian t n = Some (t + n)"
  "clock_changes_on gregorian UTC d = Some False"
  by (simp_all add: UTC_def gregorian_def clock_changes_on_def)

lemma utc_instant_mono:
  assumes "clock_time h m" and "clock_time h' m'" and "(d, h, m) < (d', h', m')"
  shows "utc_instant (d, h, m) + 60 * SECOND \<le> utc_instant (d', h', m')"
proof -
  have "int h < 24" "int m < 60" "int h' < 24" "int m' < 60"
    using assms(1,2) by (simp_all add: clock_time_def)
  moreover have "d < d' \<or> d = d' \<and> int h < int h' \<or> d = d' \<and> h = h' \<and> int m < int m'"
    using assms(3) by auto
  ultimately show ?thesis by (auto simp: utc_instant_def SECOND_def)
qed

lemma seconds_of_day:
  fixes s :: int
  shows "s div 86400 * 86400 + s mod 86400 div 3600 * 3600 + s mod 3600 div 60 * 60 \<le> s"
    and "s mod 86400 div 3600 < 24" and "s mod 3600 div 60 < 60"
proof -
  have "s mod 86400 mod 3600 = s mod 3600" by (simp add: mod_mod_cancel)
  moreover have "s mod 86400 = s mod 86400 div 3600 * 3600 + s mod 86400 mod 3600"
    and "s = s div 86400 * 86400 + s mod 86400"
    and "s mod 3600 = s mod 3600 div 60 * 60 + s mod 3600 mod 60"
    by (simp_all only: div_mult_mod_eq)
  moreover have "0 \<le> s mod 3600 mod 60" by simp
  ultimately show "s div 86400 * 86400 + s mod 86400 div 3600 * 3600 + s mod 3600 div 60 * 60 \<le> s"
    by linarith
  have "s mod 86400 < 86400" "s mod 3600 < 3600" by simp_all
  then show "s mod 86400 div 3600 < 24" "s mod 3600 div 60 < 60" by linarith+
qed

lemma UTC_to_datetime:
  "fst (to_datetime UTC t) = (t div SECOND div 86400, nat (t div SECOND mod 86400 div 3600),
    nat (t div SECOND mod 3600 div 60))"
  by (simp add: UTC_def Let_def)

lemma utc_floor:
  assumes "fst (to_datetime UTC t) = (d, h, m)"
  shows "clock_time h m \<and> utc_instant (d, h, m) \<le> t"
proof -
  let ?s = "t div SECOND"
  have d: "d = ?s div 86400" and h: "int h = ?s mod 86400 div 3600" and m: "int m = ?s mod 3600 div 60"
    using assms by (auto simp only: UTC_to_datetime prod.inject int_nat_eq pos_mod_sign
        pos_imp_zdiv_nonneg_iff simp_thms if_True zero_less_numeral)
  have "d * 86400 + int h * 3600 + int m * 60 \<le> ?s"
    using seconds_of_day(1) [of ?s] by (simp only: d h m)
  then have "(d * 86400 + int h * 3600 + int m * 60) * SECOND \<le> ?s * SECOND"
    by (simp add: SECOND_def)
  also have "\<dots> \<le> t"
    using div_mult_mod_eq [of t SECOND] pos_mod_sign [of SECOND t] by (simp add: SECOND_def)
  finally have "utc_instant (d, h, m) \<le> t" by (simp add: utc_instant_def)
  moreover have "int h < 24" "int m < 60"
    using seconds_of_day(2,3) [of ?s] by (simp_all only: h m)
  ultimately show ?thesis by (simp add: clock_time_def)
qed

lemma orderly_UTC: "orderly gregorian UTC after"
proof -
  have days: "t < t'" if "d < d'" "clock_time h m" "clock_time h' m'" "occurs_at gregorian UTC (d, h, m) t"
    "occurs_at gregorian UTC (d', h', m') t'" for d h m t d' h' m' t'
    using that utc_instant_mono [of h m h' m' d d'] by (auto simp: occurs_at_def SECOND_def)
  have step: "in_step UTC d" for d
    using utc_instant_mono [of _ _ _ _ d d]
    by (auto simp: in_step_def less_eq_prod_def SECOND_def utc_instant_def clock_time_def)
  have passed: "passed_before UTC after start d"
    if start: "plus_minute gregorian (fst (to_datetime UTC after)) = Some start" for start d
  proof -
    obtain d' h' m' where l: "fst (to_datetime UTC after) = (d', h', m')"
      by (cases "fst (to_datetime UTC after)") auto
    note floor = utc_floor [OF l]
    have "utc_instant (d, h, m) \<le> after" if "clock_time h m" "(d, h, m) < start" for h m
    proof (rule ccontr)
      assume "\<not> utc_instant (d, h, m) \<le> after"
      with floor have "\<not> utc_instant (d, h, m) \<le> utc_instant (d', h', m')" by simp
      moreover have "utc_instant (d, h, m) \<le> utc_instant (d', h', m')" if "(d, h, m) < (d', h', m')"
        using utc_instant_mono [of h m h' m' d d'] floor \<open>clock_time h m\<close> that by (simp add: SECOND_def)
      ultimately have "(d', h', m') < (d, h, m)"
        using linorder_less_linear [of "(d, h, m)" "(d', h', m')"] by auto
      with that start floor show False
        by (auto simp: l gregorian_def clock_time_def split: if_splits)
    qed
    then show ?thesis by (auto simp: passed_before_def)
  qed
  show ?thesis unfolding orderly_def using days step passed by auto
qed

lemma nightly_days:
  "\<not> day_matches gregorian nightly 0" "\<not> day_matches gregorian nightly 1" "day_matches gregorian nightly 2"
  "snd (scan_hours gregorian UTC nightly 0 (0, 0, Suc 0) True 2 [0..<24] None) = Some 183600000000000"
  by code_simp+

lemma UTC_zero:
  "fst (to_datetime UTC 0) = (0, 0, 0)" "plus_minute gregorian (0, 0, 0) = Some (0, 0, Suc 0)"
  by (simp_all add: UTC_to_datetime gregorian_def SECOND_def)

lemma nightly_next: "next_after gregorian UTC nightly 0 = Some 183600000000000"
  by (simp add: next_after_def SEARCH_DAYS_def UTC_zero nightly_days
      search_days.simps [of _ _ _ _ _ 3294] search_days.simps [of _ _ _ _ _ 3293]
      search_days.simps [of _ _ _ _ _ 3292])

theorem next_after_earliest_witness:
  "earliest_in 0 (fires_within gregorian UTC nightly SEARCH_DAYS 0) (Some 183600000000000)"
proof -
  have "\<not> out_of_range gregorian UTC nightly SEARCH_DAYS 0" by (simp add: out_of_range_def)
  with next_after_earliest [OF orderly_UTC, of 0 "(0, 0, 1)" nightly] show ?thesis
    by (simp add: UTC_zero nightly_next)
qed

lemma leap_days:
  fixes doe :: int
  assumes "11688 \<le> doe" "doe < 14982"
    and "yoe = (doe - doe div 1460 + doe div 36524 - doe div 146096) div 365"
    and "doe - (365 * yoe + yoe div 4 - yoe div 100) \<in> {365, - 3}"
  shows "doe = 13148 \<or> doe = 14609"
proof -
  have zero: "doe div 36524 = 0" "doe div 146096 = 0"
    using assms(1,2) by (simp_all add: div_pos_pos_trivial)
  moreover have "8 \<le> doe div 1460" "doe div 1460 \<le> 10"
    using assms(1,2) by linarith+
  ultimately have "doe - 10 \<le> 365 * yoe + 364" "365 * yoe \<le> doe - 8"
    using assms(3) by linarith+
  with assms(1,2) have "30 < yoe" "yoe < 42" by linarith+
  then have "yoe div 100 = 0" by (simp add: div_pos_pos_trivial)
  moreover have "yoe div 4 \<le> 10" using \<open>yoe < 42\<close> by simp
  ultimately have "doe = 365 * yoe + yoe div 4 + 365"
    using assms(4) \<open>365 * yoe \<le> doe - 8\<close> by auto
  moreover have "yoe = 31 \<or> yoe = 32 \<or> yoe = 33 \<or> yoe = 34 \<or> yoe = 35 \<or> yoe = 36 \<or> yoe = 37 \<or> yoe = 38
      \<or> yoe = 39 \<or> yoe = 40 \<or> yoe = 41"
    using \<open>30 < yoe\<close> \<open>yoe < 42\<close> by presburger
  moreover have "yoe = (doe - doe div 1460) div 365"
    using assms(3) zero by simp
  ultimately show ?thesis using assms(1) by (elim disjE) simp_all
qed

lemma civil_leap_day:
  assumes "22705 \<le> n" "n < 25999" "civil n = (2, 29)"
  shows "n = 24165 \<or> n = 25626"
proof -
  define doe where "doe = (n + 719468) mod 146097"
  have "(n + 719468) div 146097 = 5" 
  proof (rule int_div_pos_eq)
    show "n + 719468 = 146097 * 5 + (n - 11017)" by simp
    show "0 \<le> n - 11017" "n - 11017 < 146097" using assms(1,2) by linarith+
  qed
  then have doe: "doe = n - 11017"
    using div_mult_mod_eq [of "n + 719468" 146097] by (simp add: doe_def)
  define yoe where "yoe = (doe - doe div 1460 + doe div 36524 - doe div 146096) div 365"
  define doy where "doy = doe - (365 * yoe + yoe div 4 - yoe div 100)"
  define mp where "mp = (5 * doy + 2) div 153"
  have "nat (if mp < 10 then mp + 3 else mp - 9) = 2" "nat (doy - (153 * mp + 2) div 5 + 1) = 29"
    using assms(3)
    unfolding civil_def Let_def doe_def [symmetric] yoe_def [symmetric] doy_def [symmetric] mp_def [symmetric]
    by (simp_all only: prod.inject)
  then have "mp = 11 \<or> mp = - 1" "doy - (153 * mp + 2) div 5 = 28"
    by (simp_all split: if_splits)
  then have "doy = 365 \<or> doy = - 3"
    by auto
  then have "doe = 13148 \<or> doe = 14609"
    using leap_days [OF _ _ yoe_def] assms(1,2) unfolding doe doy_def by simp
  then show ?thesis unfolding doe by linarith
qed

definition leap_sunday :: cron_expr where
  "leap_sunday = \<lparr>minutes = 1, hours = 1, days_of_month = 268435456, months = 2, days_of_week = 1,
     either_day = False\<rparr>"

lemma leap_sunday_parts: "split_whitespace ''0 0 29 2 */7'' = [''0'', ''0'', ''29'', ''2'', ''*/7'']"
  by (simp add: split_whitespace_def is_whitespace_def)

lemma leap_sunday_steps:
  "step_bits 0 7 7 0 = Some 129" "step_bits 29 29 (Suc 0) 0 = Some 536870912"
  "step_bits 2 2 (Suc 0) 0 = Some 4" "step_bits 0 0 (Suc 0) 0 = Some 1"
proof -
  show "step_bits 0 7 7 0 = Some 129" by (simp add: step_bits.simps)
qed (simp_all add: step_bits_each mask_eq_exp_minus_1)

lemma parse_leap_sunday: "cron_parse ''0 0 29 2 */7'' = Some (Inr leap_sunday)"
proof -
  have "field_value MONTH ''2'' = Inr 2"
    by (simp add: schedule_eval eq_ignore_ascii_case_def)
  then have "field_parse MONTH ''2'' = Some (Inr 4)"
    using leap_sunday_steps by (simp add: field_parse_def item_range_def item_step_def)
  moreover have "field_parse MINUTE ''0'' = Some (Inr 1)" "field_parse HOUR ''0'' = Some (Inr 1)"
    using leap_sunday_steps by (simp_all add: schedule_eval)
  moreover have "field_parse DAY_OF_MONTH ''29'' = Some (Inr 536870912)" 
    using leap_sunday_steps by (simp_all add: schedule_eval)
  moreover have "field_parse DAY_OF_WEEK ''*/7'' = Some (Inr 129)"
    using leap_sunday_steps by (simp_all add: schedule_eval)
  ultimately have ?thesis if "can_match leap_sunday"
    using that unfolding cron_parse_fields [OF leap_sunday_parts]
    by (simp add: sunday_zero_def leap_sunday_def)
  moreover have "can_match leap_sunday" by code_simp
  ultimately show ?thesis by blast
qed

lemma leap_sunday_bits:
  "bit (2 :: 16 word) i \<longleftrightarrow> i = 1" "bit (268435456 :: 32 word) i \<longleftrightarrow> i = 28"
  using bit_pow [of 1 i, where 'a = 16] bit_pow [of 28 i, where 'a = 32] by auto

lemma leap_sunday_day:
  "day_matches gregorian leap_sunday d \<longleftrightarrow> civil d = (2, 29) \<and> nat ((d + 4) mod 7) = 0"
proof -
  have "day_matches gregorian leap_sunday d \<longleftrightarrow>
      fst (civil d) - 1 = 1 \<and> snd (civil d) - 1 = 28 \<and> nat ((d + 4) mod 7) = 0"
    by (simp only: day_matches_def leap_sunday_def gregorian_def Let_def has_iff_bit cron_expr.simps
        calendar.simps leap_sunday_bits bit_one_word simp_thms if_False) simp
  moreover have "fst (civil d) - 1 = 1 \<longleftrightarrow> fst (civil d) = 2" "snd (civil d) - 1 = 28 \<longleftrightarrow> snd (civil d) = 29"
    by linarith+
  ultimately show ?thesis by (simp add: prod_eq_iff)
qed

text \<open>
  A schedule that is accepted may have no next fire although it has one: for
  \<open>0 0 29 2 */7\<close>, the Sundays that are a February 29th, the search from 2032-03-01 ends without a
  match, while 2060-02-29 is a day it fires on. The days of the search cover the gap between two
  leap days, but not that between two leap days on one day of the week.
\<close>

theorem leap_sunday_not_found:
  "cron_parse ''0 0 29 2 */7'' = Some (Inr leap_sunday)
   \<and> next_after gregorian UTC leap_sunday (utc_instant (22705, 0, 0)) = None
   \<and> day_matches gregorian leap_sunday 32931
   \<and> utc_instant (32931, 0, 0) \<in> fires_on gregorian UTC leap_sunday 32931"
proof (intro conjI)
  let ?t = "utc_instant (22705, 0, 0)"
  have local: "fst (to_datetime UTC ?t) = (22705, 0, 0)" "plus_minute gregorian (22705, 0, 0) = Some (22705, 0, 1)"
    by (simp_all add: UTC_to_datetime utc_instant_def SECOND_def gregorian_def)
  have day: "day_after gregorian k d = Some (d + int k)" for k d
    by (induction k arbitrary: d) simp_all
  have "\<not> day_matches gregorian leap_sunday (22705 + int k)" if "k < SEARCH_DAYS" for k
  proof
    assume "day_matches gregorian leap_sunday (22705 + int k)"
    then have "civil (22705 + int k) = (2, 29)" and sunday: "nat ((22705 + int k + 4) mod 7) = 0"
      by (simp_all add: leap_sunday_day)
    with civil_leap_day [of "22705 + int k"] that have "22705 + int k = 24165 \<or> 22705 + int k = 25626"
      by (simp add: SEARCH_DAYS_def)
    with sunday show False by auto
  qed
  then have "fires_within gregorian UTC leap_sunday SEARCH_DAYS 22705 = {}"
    by (auto simp: fires_within_def day)
  moreover have "\<not> out_of_range gregorian UTC leap_sunday SEARCH_DAYS 22705" by (simp add: out_of_range_def)
  ultimately show "next_after gregorian UTC leap_sunday ?t = None"
    using search_earliest [OF orderly_UTC, of ?t "(22705, 0, 1)" leap_sunday SEARCH_DAYS 22705] local
    by (auto simp: next_after_def)
  show "day_matches gregorian leap_sunday 32931"
    unfolding leap_sunday_day by code_simp
  show "utc_instant (32931, 0, 0) \<in> fires_on gregorian UTC leap_sunday 32931"
    by (auto simp: fires_on_def instants_def leap_sunday_def bit_one_word intro!: exI [of _ 0])
qed (rule parse_leap_sunday)

subsection \<open>The fires of a time\<close>

text \<open>
  What counting needs of a schedule: its next fire is later. The fires from a time to another,
  at most so many, are the specification of both loops.
\<close>

primrec fires_upto :: "(instant \<Rightarrow> instant option) \<Rightarrow> instant \<Rightarrow> nat \<Rightarrow> instant \<Rightarrow> instant list" where
  "fires_upto next_fire until 0 cursor = []"
| "fires_upto next_fire until (Suc n) cursor =
     (case next_fire cursor of
        Some t \<Rightarrow> if t \<le> until then t # fires_upto next_fire until n t else []
      | None \<Rightarrow> [])"

lemma count_loop_fires:
  "count_loop next_fire until limit count cursor =
    count + length (fires_upto next_fire until (limit - count) cursor)"
proof (induction "limit - count" arbitrary: count cursor)
  case 0
  then show ?case by (simp add: count_loop.simps [of _ _ limit])
next
  case (Suc n)
  from Suc(2) have n: "limit - count = Suc n" "n = limit - Suc count" "count < limit" by simp_all
  show ?case
    using Suc(1) [OF n(2)] n by (simp add: count_loop.simps [of _ _ limit count] split: option.splits)
qed

lemma latest_loop_fires:
  "latest_loop next_fire until left latest cursor =
    (let ts = fires_upto next_fire until left cursor in if ts = [] then latest else Some (last ts))"
proof (induction left arbitrary: latest cursor)
  case (Suc n)
  then show ?case
    by (auto simp: latest_loop.simps [of _ _ "Suc n"] Let_def split: option.splits)
qed (simp add: latest_loop.simps)

locale fire_source =
  fixes next_fire :: "instant \<Rightarrow> instant option"
  assumes later: "next_fire a = Some t \<Longrightarrow> a < t"
begin

lemma fires_between:
  "t \<in> set (fires_upto next_fire until n a) \<Longrightarrow> a < t \<and> t \<le> until"
proof (induction n arbitrary: a)
  case (Suc n)
  then obtain u where u: "next_fire a = Some u" "u \<le> until" "t = u \<or> t \<in> set (fires_upto next_fire until n u)"
    by (cases "next_fire a") (auto split: if_splits)
  with Suc.IH [of u] later [OF u(1)] show ?case by auto
qed simp

lemma fires_increasing: "sorted_wrt (<) (fires_upto next_fire until n a)"
  by (induction n arbitrary: a) (auto split: option.splits dest: fires_between)

lemma fires_complete:
  "length (fires_upto next_fire until n a) < n \<Longrightarrow>
    next_fire (last (a # fires_upto next_fire until n a)) = Some t \<Longrightarrow> until < t"
proof (induction n arbitrary: a)
  case (Suc n)
  then show ?case
    by (cases "next_fire a") (auto split: if_splits)
qed simp

lemma latest_in:
  "latest_loop next_fire until n None a = Some t \<Longrightarrow> a < t \<and> t \<le> until"
  using fires_between [of t until n a] last_in_set [of "fires_upto next_fire until n a"]
  by (auto simp: latest_loop_fires Let_def split: if_splits)

lemma latest_None_iff:
  "latest_loop next_fire until n None a = None \<longleftrightarrow> count_loop next_fire until n 0 a = 0"
  by (simp add: latest_loop_fires count_loop_fires Let_def)

end

interpretation cron_expr: fire_source "next_after cal zone e" for cal :: "'d::linorder calendar" and zone e
  by unfold_locales (rule next_after_later)

subsection \<open>Delays\<close>

lemma checked_mul_Some: "checked_mul_i64 a b = Some n \<longleftrightarrow> n = a * b \<and> n \<le> I64_MAX"
  by (auto simp: checked_mul_i64_def)

definition unit_seconds :: "char \<Rightarrow> nat option" where
  "unit_seconds c =
     (if c = CHR ''s'' then Some 1 else if c = CHR ''m'' then Some 60
      else if c = CHR ''h'' then Some 3600 else if c = CHR ''d'' then Some 86400 else None)"

lemma parse_digits:
  "all_digits s \<Longrightarrow> parse_unsigned limit s = (if digits_value s \<le> limit then Some (digits_value s) else None)"
proof -
  assume digits: "all_digits s"
  then obtain c cs where s: "s = c # cs" and "is_ascii_digit c" by (cases s) (auto simp: all_digits_def)
  then have "c \<noteq> CHR ''+''" by (auto simp: is_ascii_digit_def)
  with digits show ?thesis by (simp add: s parse_unsigned_def all_digits_def)
qed

lemma parse_delay_unit:
  assumes "all_digits number"
  shows "parse_delay (number @ [c]) =
    (case unit_seconds c of
       None \<Rightarrow> Inl (NotADelay (number @ [c]))
     | Some k \<Rightarrow>
         (let n = digits_value number * k
          in if digits_value number \<le> I64_MAX \<and> n \<le> I64_MAX \<and> 1 \<le> n \<and> n \<le> 365 * 86400
             then Inr n else Inl (NotADelay (number @ [c]))))"
  using assms
  by (simp add: parse_delay_def parse_digits unit_seconds_def checked_mul_i64_def MAX_DELAY_DAYS_def Let_def)

text \<open>
  A delay is accepted exactly when it is digits with one of the units s, m, h and d, and is a
  second to 365 days: no product that fits is cut short by the check for overflow, and none that
  overflows is accepted.
\<close>

theorem parse_delay_exact:
  "parse_delay s = Inr n \<longleftrightarrow>
    (\<exists>number c k. s = number @ [c] \<and> all_digits number \<and> unit_seconds c = Some k
       \<and> n = digits_value number * k \<and> 1 \<le> n \<and> n \<le> 365 * 86400)"
proof (cases s rule: rev_cases)
  case Nil
  then show ?thesis by (simp add: parse_delay_def)
next
  case (snoc number c)
  show ?thesis
  proof (cases "all_digits number")
    case True
    have fits: "v * k \<le> I64_MAX \<and> v \<le> I64_MAX" if "v * k \<le> 365 * 86400" "1 \<le> v * k" for v k
    proof -
      have "v * 1 \<le> v * k" using that(2) by (intro mult_le_mono2) (cases k; simp)
      moreover have "365 * 86400 \<le> I64_MAX" by (simp add: I64_MAX_def)
      ultimately show ?thesis using that(1) by linarith
    qed
    show ?thesis
    proof (cases "unit_seconds c")
      case None
      then show ?thesis unfolding snoc parse_delay_unit [OF True] by auto
    next
      case (Some k)
      from fits [of "digits_value number" k] True Some show ?thesis
        unfolding snoc parse_delay_unit [OF True] by (simp only: Let_def option.case) auto
    qed
  next
    case False
    then show ?thesis by (simp add: snoc parse_delay_def Let_def)
  qed
qed

end
