(* ===== verification/Cron_Jobs.thy ===== *)
theory Cron_Jobs imports Cron_Schedule Delegations Goal_Fold begin

text \<open>
  Cron jobs: the store (\<open>crates/engine/src/crons.rs\<close>), the requests that change it
  (\<open>crates/engine/src/runtime/cron/api.rs\<close>) and what firing records in it
  (\<open>crates/engine/src/runtime/cron/fire.rs\<close>). Every change of the store runs under its lock on
  the jobs as they are on disk, so it is a function of the list of jobs; \<open>cron_step\<close> is the
  relation of all of them. Texts of refusals are left out, the field they name is kept. The
  file, the locks, and the texts of a job for clients and models are not modelled.
\<close>

subsection \<open>Jobs\<close>

datatype stored_schedule = CronText string | At instant

definition schedule_next :: "'d::linorder calendar \<Rightarrow> 'd time_zone \<Rightarrow> stored_schedule \<Rightarrow> instant \<Rightarrow>
    instant option" where
  "schedule_next cal zone sched after =
     (case sched of
        CronText s \<Rightarrow> (case cron_parse s of Some (Inr e) \<Rightarrow> next_after cal zone e after | _ \<Rightarrow> None)
      | At at \<Rightarrow> if at > after then Some at else None)"

definition schedule_count :: "'d::linorder calendar \<Rightarrow> 'd time_zone \<Rightarrow> stored_schedule \<Rightarrow> instant \<Rightarrow> instant \<Rightarrow>
    nat \<Rightarrow> nat" where
  "schedule_count cal zone sched after until limit =
     (case sched of
        CronText s \<Rightarrow> (case cron_parse s of
            Some (Inr e) \<Rightarrow> count_between cal zone e after until limit | _ \<Rightarrow> 0)
      | At at \<Rightarrow> if at > after \<and> at \<le> until then 1 else 0)"

definition schedule_latest :: "'d::linorder calendar \<Rightarrow> 'd time_zone \<Rightarrow> stored_schedule \<Rightarrow> instant \<Rightarrow> instant \<Rightarrow>
    nat \<Rightarrow> instant option" where
  "schedule_latest cal zone sched after until limit =
     (case sched of
        CronText s \<Rightarrow> (case cron_parse s of
            Some (Inr e) \<Rightarrow> latest_between cal zone e after until limit | _ \<Rightarrow> None)
      | At at \<Rightarrow> if at > after \<and> at \<le> until then Some at else None)"

text \<open>
  \<open>caught_up\<close>: the fire that a daemon starting at \<open>until\<close> catches up. The grace is in
  nanoseconds; one of more than \<open>i64::MAX\<close> seconds is no \<open>SignedDuration\<close>.
\<close>

definition caught_up :: "'d::linorder calendar \<Rightarrow> 'd time_zone \<Rightarrow> stored_schedule \<Rightarrow> instant \<Rightarrow> instant \<Rightarrow>
    nat \<Rightarrow> nat \<Rightarrow> instant option" where
  "caught_up cal zone sched first until grace limit =
     (if int grace div SECOND > int I64_MAX then None
      else if grace = 0 \<or> first > until then None
      else (let cutoff = (case plus_nanos cal until (- int grace) of Some t \<Rightarrow> t | None \<Rightarrow> instant_min cal)
            in if first \<ge> cutoff
               then Some (case schedule_latest cal zone sched first until limit of
                   Some t \<Rightarrow> t | None \<Rightarrow> first)
               else Option.bind (plus_nanos cal cutoff (- SECOND)) (\<lambda>before_window.
                   case schedule_latest cal zone sched before_window until limit of
                     Some latest \<Rightarrow> if latest \<ge> cutoff then Some latest else None
                   | None \<Rightarrow> None)))"

fun is_one_shot :: "stored_schedule \<Rightarrow> bool" where
  "is_one_shot (At _) \<longleftrightarrow> True"
| "is_one_shot (CronText _) \<longleftrightarrow> False"

record stored_template =
  t_agent :: string
  t_preset :: "string option"
  t_model :: "string option"
  t_rules :: "permission_rule list"
  t_runtimes :: "string list option"
  t_global :: bool
  t_cwd :: "string option"
  t_project :: "string option"
  t_acp_runtime :: "runtime_id option"

datatype stored_target = SessionTarget session_id | SubagentTarget session_id | NewTarget stored_template

datatype target_kind = KindSession | KindSubagent | KindNew

fun kind_of :: "stored_target \<Rightarrow> target_kind" where
  "kind_of (SessionTarget _) = KindSession"
| "kind_of (SubagentTarget _) = KindSubagent"
| "kind_of (NewTarget _) = KindNew"

fun target_session :: "stored_target \<Rightarrow> session_id option" where
  "target_session (SessionTarget s) = Some s"
| "target_session (SubagentTarget s) = Some s"
| "target_session (NewTarget _) = None"

fun target_template :: "stored_target \<Rightarrow> stored_template option" where
  "target_template (NewTarget t) = Some t"
| "target_template _ = None"

datatype cron_actor = User | Agent string session_id

datatype stored_disabled = Finished | FailedTimes nat | DisabledBy cron_actor

datatype stored_skip =
    PreviousFireNotDelivered | PreviousRunStillRunning | DaemonWasDown | Interrupted | FiringDisabled
  | DaemonRestarting | SessionHeld

datatype stored_outcome = Pending | Delivered | Skipped stored_skip | Failed string

datatype cron_max_runs = Count nat | Unlimited

definition reached :: "cron_max_runs \<Rightarrow> nat \<Rightarrow> bool" where
  "reached m n \<longleftrightarrow> (case m of Count c \<Rightarrow> n \<ge> c | Unlimited \<Rightarrow> False)"

datatype permission_mode = AutoApprove | AutoApproveN | AutoApproveY | Yolo | AskMode

record stored_fire =
  scheduled_at :: "instant option"
  fired_at :: instant
  run_now :: bool
  outcome :: stored_outcome
  missed :: "nat option"
  fire_key :: "string option"
  fire_session :: "session_id option"
  fire_message :: "message_id option"
  fire_run :: "run_id option"
  run_end :: "(session_status \<times> instant) option"
  uncounted :: bool

definition skipped :: "instant option \<Rightarrow> instant \<Rightarrow> stored_skip \<Rightarrow> stored_fire" where
  "skipped scheduled fired reason =
     \<lparr>scheduled_at = scheduled, fired_at = fired, run_now = False, outcome = Skipped reason,
      missed = None, fire_key = None, fire_session = None, fire_message = None, fire_run = None,
      run_end = None, uncounted = False\<rparr>"

definition with_outcome :: "instant option \<Rightarrow> instant \<Rightarrow> stored_outcome \<Rightarrow> stored_fire" where
  "with_outcome scheduled fired out = (skipped scheduled fired Interrupted)\<lparr>outcome := out\<rparr>"

definition awaits_run :: "stored_fire \<Rightarrow> bool" where
  "awaits_run f \<longleftrightarrow> outcome f = Delivered \<and> run_end f = None \<and> fire_session f \<noteq> None"

record stored_job =
  job_id :: string
  job_name :: "string option"
  job_prompt :: string
  job_schedule :: stored_schedule
  job_max_runs :: cron_max_runs
  job_target :: stored_target
  job_delivery :: "delivery_mode option"
  job_mode :: "permission_mode option"
  job_max_failures :: "nat option"
  enabled :: bool
  disabled_reason :: "stored_disabled option"
  created_by :: cron_actor
  created_at :: instant
  next_fire :: "instant option"
  runs :: nat
  failures :: nat
  last_fire :: "instant option"
  history :: "stored_fire list"

definition waits_on :: "session_id \<Rightarrow> stored_job \<Rightarrow> bool" where
  "waits_on s j \<longleftrightarrow> enabled j \<and> next_fire j \<noteq> None \<and> target_session (job_target j) = Some s"

definition one_time :: "stored_job \<Rightarrow> bool" where
  "one_time j \<longleftrightarrow> (case job_schedule j of At _ \<Rightarrow> True | CronText _ \<Rightarrow> job_max_runs j = Count 1)"

definition agent_created :: "stored_job \<Rightarrow> bool" where
  "agent_created j \<longleftrightarrow> (case created_by j of Agent _ _ \<Rightarrow> True | User \<Rightarrow> False)"

definition failure_limit :: "nat \<Rightarrow> stored_job \<Rightarrow> nat" where
  "failure_limit configured j = (case job_max_failures j of Some n \<Rightarrow> n | None \<Rightarrow> configured)"

text \<open>\<open>StoredJob::record\<close>: the last fires, at least one, are kept.\<close>

definition record_fire :: "stored_fire \<Rightarrow> nat \<Rightarrow> stored_job \<Rightarrow> stored_job" where
  "record_fire f limit j =
     (let h = history j @ [f] in j\<lparr>history := drop (length h - max limit 1) h\<rparr>)"

definition disable :: "stored_disabled \<Rightarrow> stored_job \<Rightarrow> stored_job" where
  "disable reason j = j\<lparr>enabled := False, disabled_reason := Some reason, next_fire := None\<rparr>"

definition count_failure :: "nat \<Rightarrow> stored_job \<Rightarrow> stored_job" where
  "count_failure configured j =
     (let j = j\<lparr>failures := min U32_MAX (failures j + 1)\<rparr>
      in if enabled j \<and> failures j \<ge> failure_limit configured j
         then disable (FailedTimes (failures j)) j else j)"

subsection \<open>Reading the store\<close>

type_synonym jobs = "stored_job list"

definition find_job :: "jobs \<Rightarrow> string \<Rightarrow> stored_job option" where
  "find_job js i = find (\<lambda>j. job_id j = i) js"

definition store_waits_on :: "session_id \<Rightarrow> jobs \<Rightarrow> bool" where
  "store_waits_on s js \<longleftrightarrow> list_ex (waits_on s) js"

definition waiting_targets :: "jobs \<Rightarrow> session_id list" where
  "waiting_targets js =
     List.map_filter (\<lambda>j. case target_session (job_target j) of
         Some s \<Rightarrow> if waits_on s j then Some s else None | None \<Rightarrow> None) js"

definition next_fire_into :: "session_id \<Rightarrow> jobs \<Rightarrow> (instant \<times> string) option" where
  "next_fire_into s js =
     min_by_key fst (List.map_filter (\<lambda>j. map_option (\<lambda>t. (t, job_id j)) (next_fire j)) (filter (waits_on s) js))"

definition waits_on_once :: "session_id \<Rightarrow> jobs \<Rightarrow> bool" where
  "waits_on_once s js \<longleftrightarrow> list_ex (\<lambda>j. one_time j \<and> waits_on s j) js"

definition awaits_run_in :: "session_id \<Rightarrow> jobs \<Rightarrow> bool" where
  "awaits_run_in s js \<longleftrightarrow> list_ex (\<lambda>j. list_ex (\<lambda>f. awaits_run f \<and> fire_session f = Some s) (history j)) js"

definition earliest_fire :: "jobs \<Rightarrow> instant option" where
  "earliest_fire js = min_by_key (\<lambda>t. t) (List.map_filter next_fire (filter enabled js))"

definition due :: "instant \<Rightarrow> jobs \<Rightarrow> (string \<times> instant) list" where
  "due now js =
     List.map_filter (\<lambda>j. case next_fire j of
         Some t \<Rightarrow> if t \<le> now then Some (job_id j, t) else None | None \<Rightarrow> None) (filter enabled js)"

text \<open>
  How long the scheduler sleeps, in nanoseconds, from the milliseconds of two instants, which
  are cut towards zero.
\<close>

definition as_millisecond :: "instant \<Rightarrow> int" where
  "as_millisecond t = (if t < 0 then - ((- t) div 1000000) else t div 1000000)"

definition SCHEDULER_MAX_SLEEP :: nat where "SCHEDULER_MAX_SLEEP = 60000000000"
definition MISSED_COUNT_LIMIT :: nat where "MISSED_COUNT_LIMIT = 1000000"

definition scheduler_sleep :: "instant option \<Rightarrow> instant \<Rightarrow> nat option \<Rightarrow> nat option" where
  "scheduler_sleep next_due now retry_after =
     map_option (\<lambda>t. let millis = as_millisecond t - as_millisecond now
         in min (max (nat millis * 1000000) (case retry_after of Some d \<Rightarrow> d | None \<Rightarrow> 0))
              SCHEDULER_MAX_SLEEP) next_due"

subsection \<open>Firing\<close>

fun rposition :: "('a \<Rightarrow> bool) \<Rightarrow> 'a list \<Rightarrow> nat option" where
  "rposition P [] = None"
| "rposition P (x # xs) =
     (case rposition P xs of Some i \<Rightarrow> Some (Suc i) | None \<Rightarrow> if P x then Some 0 else None)"

text \<open>\<open>Vec::remove\<close>.\<close>

definition remove_at :: "nat \<Rightarrow> 'a list \<Rightarrow> 'a list" where
  "remove_at i xs = take i xs @ drop (Suc i) xs"

definition finish :: "nat \<Rightarrow> jobs \<Rightarrow> jobs" where
  "finish i js =
     (if agent_created (js ! i) then remove_at i js
      else if enabled (js ! i) then js[i := disable Finished (js ! i)] else js)"

definition finish_if_done :: "nat \<Rightarrow> jobs \<Rightarrow> jobs" where
  "finish_if_done i js =
     (if enabled (js ! i) \<and> next_fire (js ! i) = None then finish i js else js)"

type_synonym delivery = "session_id \<times> message_id option"

text \<open>\<open>settle_fire\<close>: the outcome of the fire with a key, once.\<close>

definition settle_fire :: "string \<Rightarrow> string \<Rightarrow> string + delivery \<Rightarrow> nat \<Rightarrow> jobs \<Rightarrow> jobs" where
  "settle_fire i key result limit js =
     (case position (\<lambda>j. job_id j = i) js of
        None \<Rightarrow> js
      | Some index \<Rightarrow>
          (let job = js ! index in
           case rposition (\<lambda>f. fire_key f = Some key) (history job) of
             None \<Rightarrow> js
           | Some k \<Rightarrow>
               (let fire = history job ! k; counted = \<not> run_now fire in
                if outcome fire \<noteq> Pending then js
                else case result of
                  Inr (session, message) \<Rightarrow>
                    (let fire = fire\<lparr>outcome := Delivered, fire_session := Some session,
                           fire_message := message\<rparr>;
                         job = job\<lparr>history := (history job)[k := fire]\<rparr>;
                         job = (if counted then job\<lparr>runs := min U64_MAX (runs job + 1)\<rparr> else job);
                         js = js[index := job]
                     in if counted \<and> (is_one_shot (job_schedule job) \<or> reached (job_max_runs job) (runs job))
                        then finish index js
                        else if counted then finish_if_done index js else js)
                | Inl error \<Rightarrow>
                    (let fire = fire\<lparr>outcome := Failed error\<rparr>;
                         job = job\<lparr>history := (history job)[k := fire]\<rparr>;
                         job = (if counted then count_failure limit job else job);
                         js = js[index := job]
                     in if counted then finish_if_done index js else js))))"

text \<open>\<open>record_run_end\<close>: the end of a run, on every fire that awaits it.\<close>

definition takes_end :: "session_id \<Rightarrow> (message_id option \<Rightarrow> bool) \<Rightarrow> stored_fire \<Rightarrow> bool" where
  "takes_end session landed f \<longleftrightarrow> awaits_run f \<and> fire_session f = Some session \<and> landed (fire_message f)"

definition job_run_end :: "session_id \<Rightarrow> run_id \<Rightarrow> session_status \<times> instant \<Rightarrow> (message_id option \<Rightarrow> bool) \<Rightarrow>
    nat \<Rightarrow> stored_job \<Rightarrow> stored_job" where
  "job_run_end session run finish_of landed limit j =
     (let counts = (\<lambda>f. takes_end session landed f \<and> \<not> uncounted f);
          failed = list_ex counts (history j) \<and> fst finish_of = session_status.Failed;
          completed = list_ex counts (history j) \<and> fst finish_of = session_status.Completed;
          j = j\<lparr>history := map (\<lambda>f. if takes_end session landed f
                then f\<lparr>fire_run := Some run, run_end := Some finish_of\<rparr> else f) (history j)\<rparr>;
          j = (if completed then j\<lparr>failures := 0\<rparr> else j)
      in if failed then count_failure limit j else j)"

definition record_run_end :: "session_id \<Rightarrow> run_id \<Rightarrow> session_status \<times> instant \<Rightarrow> (message_id option \<Rightarrow> bool) \<Rightarrow>
    nat \<Rightarrow> jobs \<Rightarrow> jobs" where
  "record_run_end session run finish_of landed limit js =
     map (job_run_end session run finish_of landed limit) js"

text \<open>Why a fire is skipped, from what the engine knows of its sessions.\<close>

record session_view =
  held :: "session_id \<Rightarrow> bool"
  waiting_message :: "session_id \<Rightarrow> message_id \<Rightarrow> bool"
  session_running :: "session_id \<Rightarrow> bool"

definition skip_reason :: "session_view \<Rightarrow> stored_job \<Rightarrow> stored_skip option" where
  "skip_reason sv j =
     (if (case target_session (job_target j) of Some s \<Rightarrow> held sv s | None \<Rightarrow> False) then Some SessionHeld
      else (case find (\<lambda>f. outcome f = Delivered) (rev (history j)) of
          None \<Rightarrow> None
        | Some previous \<Rightarrow>
            (case fire_session previous of
               None \<Rightarrow> None
             | Some session \<Rightarrow>
                 (let waiting = (case fire_message previous of
                        Some message \<Rightarrow> waiting_message sv session message | None \<Rightarrow> False)
                  in case job_target j of
                       NewTarget _ \<Rightarrow>
                         if session_running sv session \<or> waiting then Some PreviousRunStillRunning else None
                     | _ \<Rightarrow> if waiting then Some PreviousFireNotDelivered else None))))"

text \<open>
  The change of \<open>fire_scheduled\<close>: the fire scheduled at a time is claimed in the history, as
  skipped or pending, and the job moves to its next fire. The result holds the job and the key of
  a fire to deliver.
\<close>

definition claimed_before :: "instant \<Rightarrow> stored_job \<Rightarrow> bool" where
  "claimed_before scheduled j \<longleftrightarrow> list_ex (\<lambda>f. \<not> run_now f \<and> scheduled_at f = Some scheduled) (history j)"

definition fire_scheduled :: "'d::linorder calendar \<Rightarrow> 'd time_zone \<Rightarrow> (instant \<Rightarrow> string) \<Rightarrow> string \<Rightarrow> instant \<Rightarrow>
    instant \<Rightarrow> stored_skip option \<Rightarrow> nat \<Rightarrow> jobs \<Rightarrow> jobs \<times> (stored_job \<times> string) option" where
  "fire_scheduled cal zone show i scheduled now skip limit js =
     (case position (\<lambda>j. job_id j = i) js of
        None \<Rightarrow> (js, None)
      | Some index \<Rightarrow>
          (let job = js ! index
           in if \<not> enabled job \<or> next_fire job \<noteq> Some scheduled \<or> claimed_before scheduled job then (js, None)
              else (let job = job\<lparr>last_fire := Some now,
                          next_fire := schedule_next cal zone (job_schedule job) (max now scheduled)\<rparr>
                    in case skip of
                         Some reason \<Rightarrow>
                           (finish_if_done index
                              (js[index := record_fire (skipped (Some scheduled) now reason) limit job]), None)
                       | None \<Rightarrow>
                           (let key = job_id job @ '':'' @ show scheduled;
                                fire = (with_outcome (Some scheduled) now Pending)\<lparr>fire_key := Some key\<rparr>;
                                job = record_fire fire limit job
                            in (js[index := job], Some (job, key))))))"

text \<open>The change of \<open>run_cron_now\<close>: a fire now, which counts for nothing.\<close>

definition run_cron_now :: "string \<Rightarrow> instant \<Rightarrow> stored_skip option \<Rightarrow> string \<Rightarrow> nat \<Rightarrow> jobs \<Rightarrow>
    (jobs \<times> (stored_job \<times> string) option) option" where
  "run_cron_now i now skip claim_key limit js =
     (case position (\<lambda>j. job_id j = i) js of
        None \<Rightarrow> None
      | Some index \<Rightarrow>
          (let fire = (case skip of Some reason \<Rightarrow> skipped None now reason
                                  | None \<Rightarrow> with_outcome None now Pending);
               fire = fire\<lparr>run_now := True, uncounted := True\<rparr>;
               fire = (if skip = None then fire\<lparr>fire_key := Some claim_key\<rparr> else fire);
               job = record_fire fire limit (js ! index)
           in Some (js[index := job], if skip = None then Some (job, claim_key) else None)))"

definition record_cron_child :: "string \<Rightarrow> session_id \<Rightarrow> instant \<Rightarrow> nat \<Rightarrow> jobs \<Rightarrow> jobs" where
  "record_cron_child i child now limit js =
     (case position (\<lambda>j. job_id j = i) js of
        None \<Rightarrow> js
      | Some index \<Rightarrow>
          (let fire = (with_outcome None now Delivered)\<lparr>run_now := True, uncounted := True,
                 fire_session := Some child\<rparr>
           in js[index := record_fire fire limit (js ! index)]))"

subsection \<open>What a daemon finds at start\<close>

text \<open>A fire left pending is settled as delivered, or marked as interrupted.\<close>

definition settle_found :: "string \<Rightarrow> string \<Rightarrow> delivery option \<Rightarrow> nat \<Rightarrow> jobs \<Rightarrow> jobs" where
  "settle_found i key found limit js =
     (case found of
        Some delivery \<Rightarrow> settle_fire i key (Inr delivery) limit js
      | None \<Rightarrow>
          (case position (\<lambda>j. job_id j = i) js of
             None \<Rightarrow> js
           | Some index \<Rightarrow>
               (let job = js ! index;
                    job = (case position (\<lambda>f. fire_key f = Some key) (history job) of
                        Some k \<Rightarrow> job\<lparr>history := (history job)[k := (history job ! k)\<lparr>outcome := Skipped Interrupted\<rparr>]\<rparr>
                      | None \<Rightarrow> job)
                in finish_if_done index (js[index := job]))))"

text \<open>One job whose next fire passed while the daemon was down: what is recorded and its next fire.\<close>

definition missed_job :: "'d::linorder calendar \<Rightarrow> 'd time_zone \<Rightarrow> instant \<Rightarrow> nat \<Rightarrow> nat \<Rightarrow> instant \<Rightarrow> stored_job \<Rightarrow>
    stored_job \<times> bool" where
  "missed_job cal zone started grace limit first j =
     (let missed_count = 1 + schedule_count cal zone (job_schedule j) first started MISSED_COUNT_LIMIT;
          caught = caught_up cal zone (job_schedule j) first started grace MISSED_COUNT_LIMIT;
          skipped_count = missed_count - (if caught \<noteq> None then 1 else 0);
          j = (if skipped_count > 0
               then (record_fire ((skipped (Some first) started DaemonWasDown)\<lparr>missed := Some skipped_count\<rparr>)
                       limit j)\<lparr>last_fire := Some started\<rparr>
               else j)
      in case caught of
           Some t \<Rightarrow> (j\<lparr>next_fire := Some t\<rparr>, True)
         | None \<Rightarrow> (j\<lparr>next_fire := schedule_next cal zone (job_schedule j) started\<rparr>, False))"

lemma finish_if_done_length: "length (finish_if_done i js) \<le> length js"
  by (auto simp: finish_if_done_def finish_def remove_at_def)

lemma finish_if_done_less:
  "i < length js \<Longrightarrow> length (finish_if_done i (js[i := x])) - Suc i < length js - i"
  using finish_if_done_length [of i "js[i := x]"] by simp

function missed_from :: "'d::linorder calendar \<Rightarrow> 'd time_zone \<Rightarrow> instant \<Rightarrow> nat \<Rightarrow> nat \<Rightarrow> nat \<Rightarrow> jobs \<Rightarrow> jobs" where
  "missed_from cal zone started grace limit index js =
     (if index < length js
      then (case next_fire (js ! index) of
          Some first \<Rightarrow>
            if enabled (js ! index) \<and> first < started
            then (case missed_job cal zone started grace limit first (js ! index) of
                (job, True) \<Rightarrow> missed_from cal zone started grace limit (index + 1) (js[index := job])
              | (job, False) \<Rightarrow>
                  (let js' = finish_if_done index (js[index := job])
                   in if length js' < length js then missed_from cal zone started grace limit index js'
                      else missed_from cal zone started grace limit (index + 1) js'))
            else missed_from cal zone started grace limit (index + 1) js
        | None \<Rightarrow> missed_from cal zone started grace limit (index + 1) js)
      else js)"
  by pat_completeness auto

termination
  by (relation "measure (\<lambda>(cal, zone, started, grace, limit, index, js). length js - index)")
    (auto simp: Let_def finish_if_done_less)

declare missed_from.simps [simp del]

text \<open>\<open>reconcile_crons_at_start\<close>, after the engine looked where each pending fire went.\<close>

definition reconcile :: "'d::linorder calendar \<Rightarrow> 'd time_zone \<Rightarrow> instant \<Rightarrow> nat \<Rightarrow> nat \<Rightarrow> nat \<Rightarrow>
    (string \<times> string \<times> delivery option) list \<Rightarrow> jobs \<Rightarrow> jobs" where
  "reconcile cal zone started grace limit failure_cap found js =
     missed_from cal zone started grace limit 0
       (fold (\<lambda>(i, key, delivery). settle_found i key delivery failure_cap) found js)"

definition pending_fires :: "jobs \<Rightarrow> (string \<times> string) list" where
  "pending_fires js =
     concat (map (\<lambda>j. List.map_filter (\<lambda>f. if outcome f = Pending
         then map_option (\<lambda>key. (job_id j, key)) (fire_key f) else None) (history j)) js)"

subsection \<open>Requests\<close>

datatype cron_error = NotFound string | Invalid string

datatype cron_schedule = ScheduleCron string | ScheduleIn string | ScheduleAt instant

definition CRON_NAME_MAX_CHARS :: nat where "CRON_NAME_MAX_CHARS = 80"
definition CRON_PROMPT_MAX_BYTES :: nat where "CRON_PROMPT_MAX_BYTES = 32768"

definition is_control :: "char \<Rightarrow> bool" where
  "is_control c \<longleftrightarrow> (of_char c :: nat) < 32 \<or> 127 \<le> (of_char c :: nat) \<and> of_char c < (160 :: nat)"

definition check_name :: "string option \<Rightarrow> cron_error + string option" where
  "check_name name =
     (case name of
        None \<Rightarrow> Inr None
      | Some s \<Rightarrow>
          (let s = trim s
           in if s = [] \<or> length s > CRON_NAME_MAX_CHARS \<or> list_ex is_control s then Inl (Invalid ''name'')
              else Inr (Some s)))"

definition check_prompt :: "string \<Rightarrow> cron_error + string" where
  "check_prompt s =
     (if trim s = [] \<or> length s > CRON_PROMPT_MAX_BYTES then Inl (Invalid ''prompt'') else Inr s)"

definition resolve_schedule :: "'d calendar \<Rightarrow> cron_schedule \<Rightarrow> instant \<Rightarrow> cron_error + stored_schedule" where
  "resolve_schedule cal sched now =
     (case sched of
        ScheduleCron s \<Rightarrow>
          (case cron_parse s of
             Some (Inr _) \<Rightarrow> Inr (CronText (join '' '' (split_whitespace s)))
           | _ \<Rightarrow> Inl (Invalid ''schedule''))
      | ScheduleIn s \<Rightarrow>
          (case parse_delay s of
             Inl _ \<Rightarrow> Inl (Invalid ''schedule'')
           | Inr delay \<Rightarrow> (case delay_after cal now delay of
                 Inr t \<Rightarrow> Inr (At t) | Inl _ \<Rightarrow> Inl (Invalid ''schedule'')))
      | ScheduleAt at \<Rightarrow> if at > now then Inr (At at) else Inl (Invalid ''schedule''))"

text \<open>Who asks, and what only a client may set.\<close>

definition refuse_client_fields :: "bool \<Rightarrow> stored_target option \<Rightarrow> cron_error + unit" where
  "refuse_client_fields sets_mode target =
     (if sets_mode then Inl (Invalid ''permission_mode'')
      else (case target of
          Some (NewTarget t) \<Rightarrow> if t_model t \<noteq> None then Inl (Invalid ''target'') else Inr ()
        | _ \<Rightarrow> Inr ()))"

text \<open>
  What the checks read of the engine: the origin of a session (a root or a delegated one), the
  agents of a preset with whether they are enabled and their mode, the models that are
  available, the runtimes and machines that are known, and the projects.
\<close>

record engine_view =
  is_root :: "session_id \<Rightarrow> bool option"
  preset_agents :: "string option \<Rightarrow> (string \<Rightarrow> (bool \<times> agent_mode) option) option"
  model_available :: "string \<Rightarrow> bool"
  runtime_known :: "string \<Rightarrow> bool"
  machine_known :: "string \<Rightarrow> bool"
  project_known :: "string \<Rightarrow> bool"

definition check_session_target :: "engine_view \<Rightarrow> stored_target \<Rightarrow> cron_error + unit" where
  "check_session_target ev target =
     (case target_session target of
        None \<Rightarrow> Inr ()
      | Some s \<Rightarrow>
          (case is_root ev s of
             None \<Rightarrow> Inl (Invalid ''target'')
           | Some root \<Rightarrow>
               (case (target, root) of
                  (SessionTarget _, True) \<Rightarrow> Inr ()
                | (SubagentTarget _, False) \<Rightarrow> Inr ()
                | _ \<Rightarrow> Inl (Invalid ''target''))))"

definition check_cron_template :: "engine_view \<Rightarrow> stored_template \<Rightarrow> cron_error + unit" where
  "check_cron_template ev t =
     (let refused = Inl (Invalid ''target'')
      in case preset_agents ev (t_preset t) of
           None \<Rightarrow> refused
         | Some agents \<Rightarrow>
             (case agents (t_agent t) of
                None \<Rightarrow> refused
              | Some (on, mode) \<Rightarrow>
                  if \<not> on then refused
                  else if mode \<notin> {Primary, All} then refused
                  else if (case t_model t of Some m \<Rightarrow> \<not> model_available ev m | None \<Rightarrow> False) then refused
                  else if list_ex (\<lambda>r. \<not> runtime_known ev r \<and> \<not> machine_known ev r)
                      (case t_runtimes t of Some rs \<Rightarrow> rs | None \<Rightarrow> []) then refused
                  else if (case t_project t of Some p \<Rightarrow> \<not> project_known ev p | None \<Rightarrow> False) then refused
                  else (case check_rule_selectors (t_rules t) of
                      Inl _ \<Rightarrow> refused
                    | Inr _ \<Rightarrow> (case overlay_validate (t_rules t) of Inl _ \<Rightarrow> refused | Inr _ \<Rightarrow> Inr ()))))"

text \<open>\<open>check_definition\<close>: a job's definition, with the defaults of its kind.\<close>

record job_definition =
  d_name :: "string option"
  d_prompt :: string
  d_schedule :: stored_schedule
  d_max_runs :: cron_max_runs
  d_target :: stored_target
  d_delivery :: "delivery_mode option"
  d_mode :: "permission_mode option"
  d_max_failures :: "nat option"

definition check_max_runs :: "stored_schedule \<Rightarrow> cron_max_runs option \<Rightarrow> cron_error + cron_max_runs" where
  "check_max_runs sched max_runs =
     (case (sched, max_runs) of
        (At _, Some m) \<Rightarrow> if m \<noteq> Count 1 then Inl (Invalid ''max_runs'') else Inr m
      | (_, m) \<Rightarrow> Inr (case m of Some m \<Rightarrow> m | None \<Rightarrow> Count 1))"

definition check_kind :: "engine_view \<Rightarrow> stored_target \<Rightarrow> delivery_mode option \<Rightarrow> permission_mode option \<Rightarrow>
    cron_error + delivery_mode option \<times> permission_mode option" where
  "check_kind ev target dm mode =
     (case target of
        NewTarget t \<Rightarrow>
          (case check_cron_template ev t of
             Inl e \<Rightarrow> Inl e
           | Inr _ \<Rightarrow> if dm \<noteq> None then Inl (Invalid ''delivery'')
                      else Inr (None, Some (case mode of Some m \<Rightarrow> m | None \<Rightarrow> AutoApproveN)))
      | _ \<Rightarrow> if mode \<noteq> None then Inl (Invalid ''permission_mode'')
             else Inr (Some (case dm of Some d \<Rightarrow> d | None \<Rightarrow> Queue), None))"

definition check_definition :: "engine_view \<Rightarrow> string option \<Rightarrow> string \<Rightarrow> stored_schedule \<Rightarrow>
    cron_max_runs option \<Rightarrow> stored_target \<Rightarrow> delivery_mode option \<Rightarrow> permission_mode option \<Rightarrow> nat option \<Rightarrow>
    cron_error + job_definition" where
  "check_definition ev name prompt sched max_runs target dm mode max_failures =
     (case check_max_runs sched max_runs of Inl e \<Rightarrow> Inl e | Inr max_runs \<Rightarrow>
      if max_failures = Some 0 then Inl (Invalid ''max_consecutive_failures'')
      else (case check_session_target ev target of Inl e \<Rightarrow> Inl e | Inr _ \<Rightarrow>
      (case check_kind ev target dm mode of Inl e \<Rightarrow> Inl e | Inr (dm, mode) \<Rightarrow>
      (case check_name name of Inl e \<Rightarrow> Inl e | Inr name \<Rightarrow>
      (case check_prompt prompt of Inl e \<Rightarrow> Inl e | Inr prompt \<Rightarrow>
        Inr \<lparr>d_name = name, d_prompt = prompt, d_schedule = sched, d_max_runs = max_runs,
          d_target = target, d_delivery = dm, d_mode = mode, d_max_failures = max_failures\<rparr>)))))"

record create_params =
  cp_name :: "string option"
  cp_prompt :: string
  cp_schedule :: cron_schedule
  cp_max_runs :: "cron_max_runs option"
  cp_target :: stored_target
  cp_delivery :: "delivery_mode option"
  cp_mode :: "permission_mode option"
  cp_max_failures :: "nat option"
  cp_enabled :: "bool option"

definition is_agent :: "cron_actor \<Rightarrow> bool" where
  "is_agent actor \<longleftrightarrow> (case actor of Agent _ _ \<Rightarrow> True | User \<Rightarrow> False)"

definition new_job :: "string \<Rightarrow> instant \<Rightarrow> cron_actor \<Rightarrow> bool \<Rightarrow> instant option \<Rightarrow> job_definition \<Rightarrow> stored_job" where
  "new_job new_id now requester on next_at d =
     \<lparr>job_id = new_id, job_name = d_name d, job_prompt = d_prompt d,
      job_schedule = d_schedule d, job_max_runs = d_max_runs d, job_target = d_target d,
      job_delivery = d_delivery d, job_mode = d_mode d, job_max_failures = d_max_failures d,
      enabled = on, disabled_reason = (if on then None else Some (DisabledBy requester)),
      created_by = requester, created_at = now, next_fire = (if on then next_at else None),
      runs = 0, failures = 0, last_fire = None, history = []\<rparr>"

text \<open>\<open>create_cron_as\<close>; the identifier is the one \<open>new_job_id\<close> found free.\<close>

definition create_cron_as :: "'d::linorder calendar \<Rightarrow> 'd time_zone \<Rightarrow> engine_view \<Rightarrow> instant \<Rightarrow> string \<Rightarrow>
    cron_actor \<Rightarrow> create_params \<Rightarrow> jobs \<Rightarrow> cron_error + jobs" where
  "create_cron_as cal zone ev now new_id requester p js =
     (case resolve_schedule cal (cp_schedule p) now of Inl e \<Rightarrow> Inl e | Inr sched \<Rightarrow>
      (case (if is_agent requester then refuse_client_fields (cp_mode p \<noteq> None) (Some (cp_target p)) else Inr ())
       of Inl e \<Rightarrow> Inl e | Inr _ \<Rightarrow>
      (case check_definition ev (cp_name p) (cp_prompt p) sched (cp_max_runs p) (cp_target p) (cp_delivery p)
         (cp_mode p) (cp_max_failures p) of Inl e \<Rightarrow> Inl e | Inr d \<Rightarrow>
      (let on = (case cp_enabled p of Some b \<Rightarrow> b | None \<Rightarrow> True);
           next_at = schedule_next cal zone (d_schedule d) now
       in if on \<and> next_at = None then Inl (Invalid ''schedule'')
          else Inr (js @ [new_job new_id now requester on next_at d])))))"

record update_params =
  up_id :: string
  up_name :: "string option option"
  up_prompt :: "string option"
  up_schedule :: "cron_schedule option"
  up_max_runs :: "cron_max_runs option"
  up_target :: "stored_target option"
  up_delivery :: "delivery_mode option"
  up_mode :: "permission_mode option option"
  up_max_failures :: "nat option option"
  up_enabled :: "bool option"

definition or_keep :: "'a option \<Rightarrow> 'a \<Rightarrow> 'a" where
  "or_keep new old = (case new of Some x \<Rightarrow> x | None \<Rightarrow> old)"

text \<open>The definition of a changed job: what an update leaves out is kept, when its kind has it.\<close>

definition updated_definition :: "engine_view \<Rightarrow> update_params \<Rightarrow> stored_schedule option \<Rightarrow> stored_job \<Rightarrow>
    cron_error + job_definition" where
  "updated_definition ev p sched j =
     (let target = or_keep (up_target p) (job_target j);
          kind_changed = (kind_of target \<noteq> kind_of (job_target j));
          in_session = (target_session target \<noteq> None);
          dm = (case up_delivery p of Some d \<Rightarrow> Some d
               | None \<Rightarrow> if in_session \<and> \<not> kind_changed then job_delivery j else None);
          mode = (case up_mode p of Some m \<Rightarrow> m
               | None \<Rightarrow> if \<not> in_session \<and> \<not> kind_changed then job_mode j else None);
          new_schedule = or_keep sched (job_schedule j);
          max_runs = (case up_max_runs p of Some m \<Rightarrow> Some m
               | None \<Rightarrow> if is_one_shot new_schedule then None else Some (job_max_runs j))
      in check_definition ev (or_keep (up_name p) (job_name j)) (or_keep (up_prompt p) (job_prompt j))
           new_schedule max_runs target dm mode (or_keep (up_max_failures p) (job_max_failures j)))"

definition define_job :: "job_definition \<Rightarrow> stored_job \<Rightarrow> stored_job" where
  "define_job d j =
     j\<lparr>job_name := d_name d, job_prompt := d_prompt d, job_schedule := d_schedule d,
       job_max_runs := d_max_runs d, job_target := d_target d, job_delivery := d_delivery d,
       job_mode := d_mode d, job_max_failures := d_max_failures d\<rparr>"

text \<open>Whether the job runs after an update, and when.\<close>

definition switch_job :: "'d::linorder calendar \<Rightarrow> 'd time_zone \<Rightarrow> instant \<Rightarrow> cron_actor \<Rightarrow> bool option \<Rightarrow> bool \<Rightarrow>
    stored_job \<Rightarrow> cron_error + stored_job" where
  "switch_job cal zone now requester on changed j =
     (let next_at = schedule_next cal zone (job_schedule j) now
      in if on = Some False then Inr (if enabled j then disable (DisabledBy requester) j else j)
         else if on = Some True \<and> \<not> enabled j
         then (let j = (if disabled_reason j = Some Finished then j\<lparr>runs := 0\<rparr> else j);
                   j = j\<lparr>enabled := True, disabled_reason := None, failures := 0, next_fire := next_at\<rparr>
               in if next_at = None then Inl (Invalid ''schedule'') else Inr j)
         else if enabled j \<and> changed
         then (if next_at = None then Inl (Invalid ''schedule'') else Inr (j\<lparr>next_fire := next_at\<rparr>))
         else Inr j)"

definition update_cron_as :: "'d::linorder calendar \<Rightarrow> 'd time_zone \<Rightarrow> engine_view \<Rightarrow> instant \<Rightarrow> cron_actor \<Rightarrow>
    update_params \<Rightarrow> jobs \<Rightarrow> cron_error + jobs" where
  "update_cron_as cal zone ev now requester p js =
     (case (case up_schedule p of None \<Rightarrow> Inr None
            | Some s \<Rightarrow> map_sum (\<lambda>e. e) Some (resolve_schedule cal s now)) of Inl e \<Rightarrow> Inl e | Inr sched \<Rightarrow>
      (case (if is_agent requester then refuse_client_fields (up_mode p \<noteq> None) (up_target p) else Inr ())
       of Inl e \<Rightarrow> Inl e | Inr _ \<Rightarrow>
      (case position (\<lambda>j. job_id j = up_id p) js of None \<Rightarrow> Inl (NotFound (up_id p)) | Some index \<Rightarrow>
      (let j = js ! index in
       case updated_definition ev p sched j of Inl e \<Rightarrow> Inl e | Inr d \<Rightarrow>
       (case switch_job cal zone now requester (up_enabled p)
           (sched \<noteq> None \<or> d_target d \<noteq> job_target j) (define_job d j) of
          Inl e \<Rightarrow> Inl e | Inr j \<Rightarrow> Inr (js[index := j]))))))"

definition delete_cron :: "string \<Rightarrow> jobs \<Rightarrow> cron_error + jobs" where
  "delete_cron i js =
     (let kept = filter (\<lambda>j. job_id j \<noteq> i) js
      in if length kept = length js then Inl (NotFound i) else Inr kept)"

definition delete_crons_targeting :: "session_id set \<Rightarrow> jobs \<Rightarrow> jobs" where
  "delete_crons_targeting deleted js =
     filter (\<lambda>j. case target_session (job_target j) of Some s \<Rightarrow> s \<notin> deleted | None \<Rightarrow> True) js"

definition delete_crons_of_project :: "string \<Rightarrow> jobs \<Rightarrow> jobs" where
  "delete_crons_of_project gone js =
     filter (\<lambda>j. case target_template (job_target j) of
         Some t \<Rightarrow> t_project t \<noteq> Some gone | None \<Rightarrow> True) js"

text \<open>
  \<open>CronStore::mutate\<close> on what the disk holds: the jobs after a change, with the sessions that
  jobs target before or after it when it changed anything; a refused change writes nothing.
\<close>

definition job_targets :: "jobs \<Rightarrow> session_id list" where
  "job_targets js = List.map_filter (\<lambda>j. target_session (job_target j)) js"

definition mutate :: "(jobs \<Rightarrow> cron_error + 'a \<times> jobs) \<Rightarrow> jobs \<Rightarrow> cron_error + ('a \<times> session_id list) \<times> jobs" where
  "mutate change current =
     (case change current of
        Inl e \<Rightarrow> Inl e
      | Inr (result, js) \<Rightarrow>
          Inr ((result, if js \<noteq> current then remdups (sort (job_targets current @ job_targets js)) else []), js))"

subsection \<open>Schedules fire later\<close>

lemma schedule_next_later: "schedule_next cal zone s after = Some t \<Longrightarrow> after < t"
  by (auto simp: schedule_next_def next_after_later split: stored_schedule.splits option.splits sum.splits if_splits)

interpretation stored: fire_source "schedule_next cal zone s" for cal :: "'d::linorder calendar" and zone s
  by unfold_locales (rule schedule_next_later)

lemma fires_upto_never: "fires_upto (\<lambda>_. None) until n a = []"
  by (cases n) simp_all

lemma fires_upto_at:
  "0 < n \<Longrightarrow> fires_upto (schedule_next cal zone (At at)) until n a = (if a < at \<and> at \<le> until then [at] else [])"
  by (cases n; cases "n - 1") (auto simp: schedule_next_def)

lemma fires_upto_text:
  "cron_parse s = Some (Inr e) \<Longrightarrow>
    fires_upto (schedule_next cal zone (CronText s)) = fires_upto (next_after cal zone e)"
  by (rule arg_cong [of _ _ fires_upto]) (auto simp: schedule_next_def fun_eq_iff)

lemma fires_upto_bad_text:
  "(\<forall>e. cron_parse s \<noteq> Some (Inr e)) \<Longrightarrow> fires_upto (schedule_next cal zone (CronText s)) until n a = []"
  by (cases n) (auto simp: schedule_next_def split: option.splits sum.splits)


lemma schedule_latest_fires:
  "0 < n \<Longrightarrow> schedule_latest cal zone s a until n =
    (let ts = fires_upto (schedule_next cal zone s) until n a in if ts = [] then None else Some (last ts))"
proof (cases s)
  case (CronText src)
  then show ?thesis
    by (cases "cron_parse src"; cases "the (cron_parse src)")
      (auto simp: schedule_latest_def latest_between_def latest_loop_fires fires_upto_text fires_upto_bad_text)
qed (simp add: schedule_latest_def fires_upto_at)

lemma schedule_latest_bounds:
  assumes "schedule_latest cal zone s a until n = Some t" and "0 < n"
  shows "a < t \<and> t \<le> until"
proof -
  have "t \<in> set (fires_upto (schedule_next cal zone s) until n a)"
    using assms by (auto simp: schedule_latest_fires Let_def split: if_splits)
  then show ?thesis by (rule stored.fires_between)
qed

text \<open>
  C37. What a starting daemon catches up is a missed fire: not before the first missed one, not
  after the start, and no more than the grace before it.
\<close>

theorem caught_up_within_grace:
  assumes "caught_up cal zone s first until grace limit = Some t" and "0 < limit"
    and "\<And>a n b. plus_nanos cal a n = Some b \<Longrightarrow> b = a + n"
    and "\<And>a n. plus_nanos cal a n = None \<Longrightarrow> n \<le> 0 \<Longrightarrow> a + n < instant_min cal"
  shows "first \<le> t \<and> t \<le> until \<and> until - int grace \<le> t \<and> 0 < grace"
proof -
  let ?cutoff = "case plus_nanos cal until (- int grace) of Some t \<Rightarrow> t | None \<Rightarrow> instant_min cal"
  have cutoff: "until - int grace \<le> ?cutoff"
    using assms(3) [of until "- int grace"] assms(4) [of until "- int grace"]
    by (auto split: option.splits)
  have g: "0 < grace" "first \<le> until"
    using assms(1) by (auto simp: caught_up_def split: if_splits)
  show ?thesis
  proof (cases "?cutoff \<le> first")
    case True
    then have "t = (case schedule_latest cal zone s first until limit of Some t \<Rightarrow> t | None \<Rightarrow> first)"
      using assms(1) by (auto simp: caught_up_def Let_def split: if_splits)
    with True cutoff g assms(2) show ?thesis
      by (auto split: option.splits dest!: schedule_latest_bounds)
  next
    case False
    then have "?cutoff \<le> t" "\<exists>b. schedule_latest cal zone s b until limit = Some t"
      using assms(1) by (auto simp: caught_up_def Let_def split: if_splits option.splits bind_splits)
    with False cutoff g assms(2) show ?thesis
      by (auto dest!: schedule_latest_bounds)
  qed
qed

theorem caught_up_within_grace_witness:
  "(10 :: int) \<le> 10 \<and> (10 :: int) \<le> 50 \<and> 50 - int 60 \<le> 10 \<and> (0 :: nat) < 60"
proof -
  have "caught_up gregorian UTC (At 10) 10 50 60 5 = Some 10"
    by (simp add: caught_up_def schedule_latest_def Let_def SECOND_def I64_MAX_def)
  from caught_up_within_grace [OF this] show ?thesis by simp
qed


text \<open>The loop over the jobs treats each of them once.\<close>

definition missed_one :: "'d::linorder calendar \<Rightarrow> 'd time_zone \<Rightarrow> instant \<Rightarrow> nat \<Rightarrow> nat \<Rightarrow> stored_job \<Rightarrow> jobs" where
  "missed_one cal zone started grace limit j =
     (case next_fire j of
        Some first \<Rightarrow>
          if enabled j \<and> first < started
          then (case missed_job cal zone started grace limit first j of
              (job, True) \<Rightarrow> [job]
            | (job, False) \<Rightarrow> finish_if_done 0 [job])
          else [j]
      | None \<Rightarrow> [j])"

lemma finish_if_done_at:
  "finish_if_done (length xs) (xs @ j # ys) = xs @ finish_if_done 0 [j] @ ys"
  by (simp add: finish_if_done_def finish_def remove_at_def)

lemma finish_if_done_one: "finish_if_done 0 [j] = [] \<or> (\<exists>j'. finish_if_done 0 [j] = [j'])"
  by (simp add: finish_if_done_def finish_def remove_at_def)

lemma missed_from_each:
  "missed_from cal zone started grace limit (length xs) (xs @ ys) =
    xs @ concat (map (missed_one cal zone started grace limit) ys)"
proof (induction ys arbitrary: xs)
  case Nil
  then show ?case by (simp add: missed_from.simps)
next
  case (Cons j ys)
  have step: "missed_from cal zone started grace limit (Suc (length xs)) (xs @ j' # ys) =
      xs @ j' # concat (map (missed_one cal zone started grace limit) ys)" for j'
    using Cons.IH [of "xs @ [j']"] by simp
  show ?case
  proof (cases "next_fire j")
    case None
    then show ?thesis
      by (simp add: missed_from.simps [of _ _ _ _ _ "length xs" "xs @ j # ys"] missed_one_def [of _ _ _ _ _ j] step)
  next
    case (Some first)
    obtain job caught where m: "missed_job cal zone started grace limit first j = (job, caught)"
      by fastforce
    show ?thesis
      using finish_if_done_one [of job] Some m Cons.IH [of xs]
      by (auto simp: missed_from.simps [of _ _ _ _ _ "length xs" "xs @ j # ys"] missed_one_def [of _ _ _ _ _ j] step
          finish_if_done_at split: bool.splits)
  qed
qed

lemma missed_from_zero:
  "missed_from cal zone started grace limit 0 js = concat (map (missed_one cal zone started grace limit) js)"
  using missed_from_each [of cal zone started grace limit "[]" js] by simp

subsection \<open>Every change of the store\<close>

text \<open>
  A step is one change under the store's lock, by any daemon that shares it, at a time that is
  not before that of the step before; the limits come from the configuration of that moment. Its
  label is the fire that it claimed, if it did.
\<close>

inductive cron_step :: "'d::linorder calendar \<Rightarrow> 'd time_zone \<Rightarrow> (instant \<Rightarrow> string) \<Rightarrow> instant \<times> jobs \<Rightarrow>
    (string \<times> instant) option \<Rightarrow> instant \<times> jobs \<Rightarrow> bool" for cal :: "'d::linorder calendar" and zone and shown where
  create: "t \<le> now \<Longrightarrow> create_cron_as cal zone ev now new_id requester p js = Inr js' \<Longrightarrow>
    new_id \<notin> job_id ` set js \<Longrightarrow> cron_step cal zone shown (t, js) None (now, js')"
| update: "t \<le> now \<Longrightarrow> update_cron_as cal zone ev now requester up js = Inr js' \<Longrightarrow>
    cron_step cal zone shown (t, js) None (now, js')"
| delete: "t \<le> now \<Longrightarrow> delete_cron i js = Inr js' \<Longrightarrow> cron_step cal zone shown (t, js) None (now, js')"
| targeting: "t \<le> now \<Longrightarrow> cron_step cal zone shown (t, js) None (now, delete_crons_targeting deleted js)"
| of_project: "t \<le> now \<Longrightarrow> cron_step cal zone shown (t, js) None (now, delete_crons_of_project gone js)"
| fire: "t \<le> now \<Longrightarrow> (i, scheduled) \<in> set (due now js) \<Longrightarrow>
    fire_scheduled cal zone shown i scheduled now skip limit js = (js', claim) \<Longrightarrow>
    cron_step cal zone shown (t, js) (map_option (\<lambda>_. (i, scheduled)) claim) (now, js')"
| run_now: "t \<le> now \<Longrightarrow> run_cron_now i now skip key limit js = Some (js', claim) \<Longrightarrow>
    cron_step cal zone shown (t, js) None (now, js')"
| child: "t \<le> now \<Longrightarrow> cron_step cal zone shown (t, js) None (now, record_cron_child i child now limit js)"
| settle: "t \<le> now \<Longrightarrow> cron_step cal zone shown (t, js) None (now, settle_fire i key result cap js)"
| run_ended: "t \<le> now \<Longrightarrow>
    cron_step cal zone shown (t, js) None (now, record_run_end session run (status, now) landed cap js)"
| start: "t \<le> now \<Longrightarrow>
    cron_step cal zone shown (t, js) None (now, reconcile cal zone now grace limit cap found js)"

text \<open>The runs of a store from no jobs, with the fires claimed on the way, the latest first.\<close>

inductive cron_run :: "'d::linorder calendar \<Rightarrow> 'd time_zone \<Rightarrow> (instant \<Rightarrow> string) \<Rightarrow> instant \<times> jobs \<Rightarrow>
    (string \<times> instant) list \<Rightarrow> bool" for cal :: "'d::linorder calendar" and zone and shown where
  empty: "cron_run cal zone shown (t, []) []"
| step: "cron_run cal zone shown s claims \<Longrightarrow> cron_step cal zone shown s label s' \<Longrightarrow>
    cron_run cal zone shown s' (case label of Some c \<Rightarrow> c # claims | None \<Rightarrow> claims)"

subsubsection \<open>Well-formed jobs\<close>

definition job_ok :: "stored_job \<Rightarrow> bool" where
  "job_ok j \<longleftrightarrow>
     (enabled j \<longleftrightarrow> disabled_reason j = None) \<and> (\<not> enabled j \<longrightarrow> next_fire j = None)
     \<and> (is_one_shot (job_schedule j) \<longrightarrow> job_max_runs j = Count 1) \<and> job_max_failures j \<noteq> Some 0
     \<and> (target_session (job_target j) = None \<longleftrightarrow> job_delivery j = None)
     \<and> (target_session (job_target j) = None \<longleftrightarrow> job_mode j \<noteq> None)
     \<and> runs j \<le> U64_MAX \<and> failures j \<le> U32_MAX"

definition store_ok :: "jobs \<Rightarrow> bool" where
  "store_ok js \<longleftrightarrow> distinct (map job_id js) \<and> (\<forall>j\<in>set js. job_ok j)"

lemma position_SomeD: "position P xs = Some i \<Longrightarrow> i < length xs"
  by (drule position_Some) simp

lemma store_ok_update:
  assumes "store_ok js" and "i < length js" and "job_ok j" and "job_id j = job_id (js ! i)"
  shows "store_ok (js[i := j])"
proof -
  have "map job_id (js[i := j]) = map job_id js"
    using assms(2,4) by (simp add: map_update list_update_same_conv)
  with assms show ?thesis
    by (auto simp: store_ok_def dest!: set_update_subset_insert [THEN subsetD])
qed

lemma store_ok_nth: "store_ok js \<Longrightarrow> i < length js \<Longrightarrow> job_ok (js ! i)"
  by (simp add: store_ok_def)

lemma store_ok_remove: "store_ok js \<Longrightarrow> store_ok (remove_at i js)"
proof -
  assume ok: "store_ok js"
  have "set (remove_at i js) \<subseteq> set js"
    by (auto simp: remove_at_def dest: in_set_takeD in_set_dropD)
  moreover have "distinct (map job_id (remove_at i js))"
  proof -
    have "distinct (take i (map job_id js) @ drop (Suc i) (map job_id js))"
      using ok set_take_disj_set_drop_if_distinct [of "map job_id js" i "Suc i"]
      by (simp add: store_ok_def)
    then show ?thesis by (simp add: remove_at_def take_map drop_map)
  qed
  ultimately show ?thesis using ok by (auto simp: store_ok_def)
qed

lemma store_ok_filter: "store_ok js \<Longrightarrow> store_ok (filter P js)"
  by (auto simp: store_ok_def distinct_map inj_on_def)

lemma disable_ok [simp]: "job_ok j \<Longrightarrow> job_ok (disable reason j)"
  by (auto simp: job_ok_def disable_def)

lemma disable_simps [simp]:
  "job_id (disable reason j) = job_id j" "enabled (disable reason j) = False"
  "next_fire (disable reason j) = None" "history (disable reason j) = history j"
  by (simp_all add: disable_def)

lemma store_ok_finish:
  "store_ok js \<Longrightarrow> i < length js \<Longrightarrow> store_ok (finish i js)"
  by (simp add: finish_def store_ok_remove store_ok_update store_ok_nth)

lemma store_ok_finish_if_done:
  "store_ok js \<Longrightarrow> i < length js \<Longrightarrow> store_ok (finish_if_done i js)"
  by (simp add: finish_if_done_def store_ok_finish)

lemma count_failure_ok [simp]: "job_ok j \<Longrightarrow> job_ok (count_failure c j)"
  by (auto simp: count_failure_def Let_def job_ok_def disable_def U32_MAX_def)

lemma count_failure_simps [simp]:
  "job_id (count_failure c j) = job_id j" "history (count_failure c j) = history j"
  by (simp_all add: count_failure_def Let_def)

lemma record_fire_simps [simp]:
  "job_id (record_fire f n j) = job_id j" "enabled (record_fire f n j) = enabled j"
  "next_fire (record_fire f n j) = next_fire j" "job_schedule (record_fire f n j) = job_schedule j"
  by (simp_all add: record_fire_def Let_def)

lemma job_ok_history [simp]: "job_ok (j\<lparr>history := h\<rparr>) \<longleftrightarrow> job_ok j"
  by (simp add: job_ok_def)

lemma job_ok_last_fire [simp]: "job_ok (j\<lparr>last_fire := t\<rparr>) \<longleftrightarrow> job_ok j"
  by (simp add: job_ok_def)

lemma record_fire_ok [simp]: "job_ok (record_fire f n j) \<longleftrightarrow> job_ok j"
  by (simp add: record_fire_def Let_def)

lemma job_ok_next_fire: "job_ok j \<Longrightarrow> enabled j \<Longrightarrow> job_ok (j\<lparr>next_fire := t\<rparr>)"
  by (auto simp: job_ok_def)

lemma job_ok_runs: "job_ok j \<Longrightarrow> job_ok (j\<lparr>runs := min U64_MAX n\<rparr>)"
  by (auto simp: job_ok_def)

lemma settle_fire_ok:
  assumes "store_ok js"
  shows "store_ok (settle_fire i key result cap js)"
proof (cases "position (\<lambda>j. job_id j = i) js")
  case (Some index)
  then have index: "index < length js" by (rule position_SomeD)
  note job = store_ok_nth [OF assms index]
  have upd: "store_ok (finish index (js[index := j]))" "store_ok (finish_if_done index (js[index := j]))"
    "store_ok (js[index := j])" if "job_ok j" "job_id j = job_id (js ! index)" for j
    using that assms index by (simp_all add: store_ok_finish store_ok_finish_if_done store_ok_update)
  show ?thesis
    using job assms
    by (auto simp: settle_fire_def Some Let_def intro!: upd job_ok_runs split: option.splits sum.splits)
qed (simp add: settle_fire_def assms)

lemma job_run_end_ok: "job_ok j \<Longrightarrow> job_ok (job_run_end session run finish_of landed cap j)"
  and job_run_end_id [simp]: "job_id (job_run_end session run finish_of landed cap j) = job_id j"
  by (auto simp: job_run_end_def Let_def intro!: count_failure_ok) (auto simp: job_ok_def)

lemma record_run_end_ok: "store_ok js \<Longrightarrow> store_ok (record_run_end session run finish_of landed cap js)"
  by (auto simp: store_ok_def record_run_end_def job_run_end_ok comp_def)

lemma fire_scheduled_ok:
  assumes "store_ok js" and "fire_scheduled cal zone shown i scheduled now skip limit js = (js', claim)"
  shows "store_ok js'"
proof (cases "position (\<lambda>j. job_id j = i) js")
  case (Some index)
  then have index: "index < length js" by (rule position_SomeD)
  note job = store_ok_nth [OF assms(1) index]
  show ?thesis
    using assms(2) index assms(1)
    by (auto simp: fire_scheduled_def Some Let_def split: if_splits option.splits
        intro!: store_ok_finish_if_done store_ok_update)
      (use job in \<open>auto simp: job_ok_next_fire job_ok_def\<close>)
qed (use assms in \<open>simp add: fire_scheduled_def\<close>)

lemma run_cron_now_ok:
  "store_ok js \<Longrightarrow> run_cron_now i now skip key limit js = Some (js', claim) \<Longrightarrow> store_ok js'"
  by (auto simp: run_cron_now_def Let_def store_ok_nth split: option.splits dest!: position_SomeD
      intro!: store_ok_update)

lemma record_cron_child_ok: "store_ok js \<Longrightarrow> store_ok (record_cron_child i child now limit js)"
  by (auto simp: record_cron_child_def Let_def store_ok_nth split: option.splits dest!: position_SomeD
      intro!: store_ok_update)

lemma settle_found_ok: "store_ok js \<Longrightarrow> store_ok (settle_found i key found cap js)"
  by (auto simp: settle_found_def Let_def store_ok_nth settle_fire_ok split: option.splits
      dest!: position_SomeD intro!: store_ok_update store_ok_finish_if_done)

lemma missed_one_ok:
  "job_ok j \<Longrightarrow> j' \<in> set (missed_one cal zone started grace limit j) \<Longrightarrow> job_ok j' \<and> job_id j' = job_id j"
  by (auto simp: missed_one_def missed_job_def Let_def finish_if_done_def finish_def remove_at_def
      job_ok_next_fire split: option.splits if_splits)

lemma missed_one_length: "length (missed_one cal zone started grace limit j) \<le> 1"
  by (auto simp: missed_one_def finish_if_done_def finish_def remove_at_def split: option.splits prod.splits bool.splits)

lemma distinct_append_ids:
  assumes "distinct xs" and "distinct ys" and "set xs \<subseteq> {a}" and "set ys \<subseteq> A" and "a \<notin> A"
  shows "distinct (xs @ ys)" and "set (xs @ ys) \<subseteq> insert a A"
  using assms by auto

lemma missed_from_ok:
  assumes "store_ok js"
  shows "store_ok (missed_from cal zone started grace limit 0 js)"
proof -
  let ?f = "missed_one cal zone started grace limit"
  have "distinct (map job_id js) \<Longrightarrow> \<forall>j\<in>set js. job_ok j \<Longrightarrow>
      distinct (map job_id (concat (map ?f js))) \<and> job_id ` set (concat (map ?f js)) \<subseteq> job_id ` set js"
  proof (induction js)
    case (Cons j js)
    let ?rest = "concat (map ?f js)"
    have ids: "job_id ` set (?f j) \<subseteq> {job_id j}"
      using Cons.prems(2) by (auto dest: missed_one_ok)
    have one: "distinct (map job_id (?f j))"
      using missed_one_length [of cal zone started grace limit j]
      by (cases "?f j"; cases "tl (?f j)") auto
    have rest: "distinct (map job_id ?rest)" "job_id ` set ?rest \<subseteq> job_id ` set js" "job_id j \<notin> job_id ` set js"
      using Cons.IH Cons.prems by simp_all
    have "concat (map ?f (j # js)) = ?f j @ ?rest" by simp
    moreover have "set (map job_id (?f j)) \<subseteq> {job_id j}" "set (map job_id ?rest) \<subseteq> job_id ` set js"
      using ids rest(2) by (simp_all only: set_map)
    note distinct_append_ids [OF one rest(1) this rest(3)]
    ultimately show ?case by (simp only: map_append set_map set_append image_Un list.set image_insert simp_thms)
  qed simp
  moreover have "job_ok j" if "j \<in> set (concat (map ?f js))" for j
    using that assms missed_one_ok by (fastforce simp: store_ok_def)
  ultimately show ?thesis
    using assms by (auto simp: missed_from_zero store_ok_def)
qed

lemma reconcile_ok:
  assumes "store_ok js"
  shows "store_ok (reconcile cal zone started grace limit cap found js)"
proof -
  have "store_ok (fold (\<lambda>(i, key, delivery). settle_found i key delivery cap) found js)"
    using assms by (induction found arbitrary: js) (auto simp: settle_found_ok)
  then show ?thesis by (simp add: reconcile_def missed_from_ok)
qed

lemma check_max_runs_Inr:
  "check_max_runs sched max_runs = Inr m \<Longrightarrow> is_one_shot sched \<Longrightarrow> m = Count 1"
  by (cases sched; cases max_runs) (auto simp: check_max_runs_def split: if_splits)

lemma check_kind_Inr:
  "check_kind ev target dm mode = Inr (dm', mode') \<Longrightarrow>
    (target_session target = None \<longleftrightarrow> dm' = None) \<and> (target_session target = None \<longleftrightarrow> mode' \<noteq> None)"
  by (cases target) (auto simp: check_kind_def split: if_splits sum.splits)

lemma check_definition_Inr:
  assumes "check_definition ev name prompt sched max_runs target dm mode mf = Inr d"
  shows "d_schedule d = sched \<and> d_target d = target \<and> d_max_failures d = mf \<and> mf \<noteq> Some 0
    \<and> (is_one_shot sched \<longrightarrow> d_max_runs d = Count 1)
    \<and> (target_session target = None \<longleftrightarrow> d_delivery d = None)
    \<and> (target_session target = None \<longleftrightarrow> d_mode d \<noteq> None)"
proof -
  obtain m dm' mode' where "check_max_runs sched max_runs = Inr m" "mf \<noteq> Some 0"
    "check_kind ev target dm mode = Inr (dm', mode')" "d_schedule d = sched" "d_target d = target"
    "d_max_failures d = mf" "d_max_runs d = m" "d_delivery d = dm'" "d_mode d = mode'"
    using assms by (auto simp: check_definition_def split: sum.splits if_splits prod.splits)
  then show ?thesis
    using check_max_runs_Inr [of sched max_runs m] check_kind_Inr [of ev target dm mode dm' mode'] by auto
qed

lemma create_cron_as_Inr:
  assumes "create_cron_as cal zone ev now new_id requester p js = Inr js'"
  obtains sched d on where "resolve_schedule cal (cp_schedule p) now = Inr sched"
    and "check_definition ev (cp_name p) (cp_prompt p) sched (cp_max_runs p) (cp_target p) (cp_delivery p)
         (cp_mode p) (cp_max_failures p) = Inr d"
    and "js' = js @ [new_job new_id now requester on (schedule_next cal zone (d_schedule d) now) d]"
    and "on \<longrightarrow> schedule_next cal zone (d_schedule d) now \<noteq> None"
  using assms by (auto simp: create_cron_as_def Let_def split: sum.splits if_splits)

lemma create_cron_as_ok:
  assumes "store_ok js" and "create_cron_as cal zone ev now new_id requester p js = Inr js'"
    and "new_id \<notin> job_id ` set js"
  shows "store_ok js'"
proof (rule create_cron_as_Inr [OF assms(2)], goal_cases)
  case (1 sched d on)
  have "job_ok (new_job new_id now requester on next_at d)" for next_at
    using check_definition_Inr [OF 1(2)] by (auto simp: job_ok_def new_job_def)
  moreover have "job_id (new_job new_id now requester on next_at d) = new_id" for next_at
    by (simp add: new_job_def)
  ultimately show ?case using assms(1,3) by (auto simp: store_ok_def 1(3))
qed

lemma switch_job_ok:
  assumes "job_ok j" and "switch_job cal zone now requester on changed j = Inr j'"
  shows "job_ok j'" and "job_id j' = job_id j"
proof -
  have on: "job_ok (j\<lparr>enabled := True, disabled_reason := None, failures := 0, next_fire := t\<rparr>)"
    "job_ok (j\<lparr>runs := 0, enabled := True, disabled_reason := None, failures := 0, next_fire := t\<rparr>)" for t
    using assms(1) by (auto simp: job_ok_def)
  show "job_ok j'"
    using assms on by (simp add: switch_job_def Let_def split: if_splits) (auto simp: job_ok_next_fire)
  show "job_id j' = job_id j"
    using assms(2) by (auto simp: switch_job_def Let_def split: if_splits)
qed

lemma define_job_ok:
  assumes "job_ok j" and "updated_definition ev p sched j = Inr d"
  shows "job_ok (define_job d j)" and "job_id (define_job d j) = job_id j"
  using assms(1) check_definition_Inr [OF assms(2) [unfolded updated_definition_def Let_def]]
  by (auto simp: job_ok_def define_job_def)

lemma update_cron_as_ok:
  assumes "store_ok js" and "update_cron_as cal zone ev now requester up js = Inr js'"
  shows "store_ok js'"
  using assms
  by (auto simp: update_cron_as_def Let_def split: sum.splits option.splits dest!: position_SomeD
      intro!: store_ok_update)
    (metis define_job_ok switch_job_ok store_ok_nth)+

lemma delete_ok:
  "store_ok js \<Longrightarrow> delete_cron i js = Inr js' \<Longrightarrow> store_ok js'"
  "store_ok js \<Longrightarrow> store_ok (delete_crons_targeting deleted js)"
  "store_ok js \<Longrightarrow> store_ok (delete_crons_of_project gone js)"
  by (auto simp: delete_cron_def delete_crons_targeting_def delete_crons_of_project_def Let_def
      store_ok_filter split: if_splits)

lemmas change_ok = create_cron_as_ok update_cron_as_ok delete_ok fire_scheduled_ok run_cron_now_ok
  record_cron_child_ok settle_fire_ok record_run_end_ok reconcile_ok

lemma cron_step_ok:
  "cron_step cal zone shown s label s' \<Longrightarrow> store_ok (snd s) \<Longrightarrow> store_ok (snd s')"
  by (induction rule: cron_step.induct) (auto intro: change_ok)

text \<open>
  C12. Whatever requests, fires, ends of runs and restarts change the store, in any order and by
  any daemons: its jobs have distinct identifiers; a job is disabled exactly when a reason says
  so, and then has no next fire; a one-shot fires once; a job in a session has a delivery and no
  permission mode, one for new sessions the reverse.
\<close>

theorem cron_store_ok:
  assumes "cron_run cal zone shown (t, js) claims"
  shows "store_ok js"
proof -
  have "store_ok (snd s)" if "cron_run cal zone shown s cs" for s cs
    using that
  proof (induction rule: cron_run.induct)
    case (empty t)
    then show ?case by (simp add: store_ok_def)
  qed (rule cron_step_ok)
  from this [OF assms] show ?thesis by simp
qed

subsubsection \<open>Claims\<close>

text \<open>
  How a change moves the next fires: each is after the time of the change, or not before the next
  fire that the same job had.
\<close>

definition had_fire :: "jobs \<Rightarrow> string \<Rightarrow> instant \<Rightarrow> bool" where
  "had_fire js i t \<longleftrightarrow> (\<exists>j\<in>set js. job_id j = i \<and> (\<exists>t0. next_fire j = Some t0 \<and> t0 \<le> t))"

definition advances :: "instant \<Rightarrow> jobs \<Rightarrow> jobs \<Rightarrow> bool" where
  "advances now js js' \<longleftrightarrow>
     (\<forall>j\<in>set js'. \<forall>t. next_fire j = Some t \<longrightarrow> now < t \<or> had_fire js (job_id j) t)"

lemma had_fireI: "j \<in> set js \<Longrightarrow> next_fire j = Some t0 \<Longrightarrow> t0 \<le> t \<Longrightarrow> had_fire js (job_id j) t"
  by (auto simp: had_fire_def)

lemma advancesI:
  "(\<And>j t. j \<in> set js' \<Longrightarrow> next_fire j = Some t \<Longrightarrow> now < t \<or> had_fire js (job_id j) t) \<Longrightarrow> advances now js js'"
  by (simp add: advances_def)


lemma advances_subset: "set js' \<subseteq> set js \<Longrightarrow> advances now js js'"
  by (rule advancesI) (auto intro: had_fireI)

lemma advances_refl [simp]: "advances now js js"
  by (rule advances_subset) simp




















lemma define_job_simps [simp]:
  "next_fire (define_job d j) = next_fire j" "job_id (define_job d j) = job_id j"
  by (simp_all add: define_job_def)














subsubsection \<open>A sample run\<close>

definition sample_engine :: engine_view where
  "sample_engine = \<lparr>is_root = (\<lambda>s. Some True), preset_agents = (\<lambda>p. None), model_available = (\<lambda>m. False),
     runtime_known = (\<lambda>r. False), machine_known = (\<lambda>r. False), project_known = (\<lambda>p. False)\<rparr>"

definition sample_create :: create_params where
  "sample_create = \<lparr>cp_name = None, cp_prompt = ''x'', cp_schedule = ScheduleAt 10, cp_max_runs = None,
     cp_target = SessionTarget 1, cp_delivery = None, cp_mode = None, cp_max_failures = None,
     cp_enabled = None\<rparr>"

definition sample_job :: stored_job where
  "sample_job = \<lparr>job_id = ''a'', job_name = None, job_prompt = ''x'', job_schedule = At 10,
     job_max_runs = Count 1, job_target = SessionTarget 1, job_delivery = Some Queue, job_mode = None,
     job_max_failures = None, enabled = True, disabled_reason = None, created_by = User, created_at = 0,
     next_fire = Some 10, runs = 0, failures = 0, last_fire = None, history = []\<rparr>"

definition sample_fire :: stored_fire where
  "sample_fire = (with_outcome (Some 10) 10 Pending)\<lparr>fire_key := Some ''a:10''\<rparr>"


lemma sample_created:
  "create_cron_as gregorian UTC sample_engine 0 ''a'' User sample_create [] = Inr [sample_job]"
  by (simp add: create_cron_as_def sample_create_def resolve_schedule_def is_agent_def check_definition_def
      check_max_runs_def check_session_target_def sample_engine_def check_kind_def check_name_def
      check_prompt_def trim_def trim_of_def trim_start_of_def trim_end_of_def is_whitespace_def
      CRON_PROMPT_MAX_BYTES_def schedule_next_def new_job_def sample_job_def Let_def)

definition claimed_job :: stored_job where
  "claimed_job = sample_job\<lparr>next_fire := None, last_fire := Some 10, history := [sample_fire]\<rparr>"

lemma sample_claimed:
  "fire_scheduled gregorian UTC (\<lambda>_. ''10'') ''a'' 10 10 None limit [sample_job]
    = ([claimed_job], Some (claimed_job, ''a:10''))"
  by (simp add: fire_scheduled_def claimed_job_def sample_job_def sample_fire_def claimed_before_def
      schedule_next_def record_fire_def Let_def)

lemma sample_run:
  "cron_run gregorian UTC (\<lambda>_. ''10'') (10, [claimed_job]) [(''a'', 10)]"
proof -
  let ?shown = "\<lambda>_ :: instant. ''10''"
  have "cron_run gregorian UTC ?shown (0, [sample_job]) []"
    using cron_run.step [OF cron_run.empty cron_step.create [OF order_refl sample_created]] by simp
  moreover have "(''a'', 10) \<in> set (due 10 [sample_job])"
    by (simp add: due_def List.map_filter_def sample_job_def)
  ultimately show ?thesis
    using cron_run.step [OF _ cron_step.fire [OF _ _ sample_claimed]] by fastforce
qed

theorem cron_store_ok_witness: "store_ok [claimed_job]"
  by (rule cron_store_ok [OF sample_run])



subsection \<open>Stored schedules\<close>

lemma split_on_blank: "CHR '' '' \<notin> set p \<Longrightarrow> split_on CHR '' '' (p @ s) =
    (case split_on CHR '' '' s of [] \<Rightarrow> [p] | q # qs \<Rightarrow> (p @ q) # qs)"
  by (induction p) (auto split: list.splits)

lemma no_blank_map:
  "list_all (\<lambda>c. \<not> is_whitespace c) p \<Longrightarrow> map (\<lambda>c. if is_whitespace c then CHR '' '' else c) p = p"
  by (induction p) auto

lemma whitespace_blank: "is_whitespace CHR '' ''"
  by (simp add: is_whitespace_def)

text \<open>The pieces of a text have no whitespace, and are the pieces of their text with single blanks.\<close>

lemma split_whitespace_pieces:
  assumes "p \<in> set (split_whitespace s)"
  shows "p \<noteq> [] \<and> list_all (\<lambda>c. \<not> is_whitespace c) p"
proof -
  let ?f = "\<lambda>c. if is_whitespace c then CHR '' '' else c"
  have p: "p \<in> set (split_on CHR '' '' (map ?f s))" "p \<noteq> []"
    using assms by (auto simp: split_whitespace_def)
  then have "set p \<subseteq> ?f ` set s" "CHR '' '' \<notin> set p"
    using split_on_pieces_subset [OF p(1)] split_on_no_sep [OF p(1)] by simp_all
  then have "\<not> is_whitespace c" if "c \<in> set p" for c
    using that by (auto split: if_splits)
  with p(2) show ?thesis by (simp add: list_all_iff)
qed

lemma split_whitespace_join:
  assumes "\<And>p. p \<in> set ps \<Longrightarrow> p \<noteq> [] \<and> list_all (\<lambda>c. \<not> is_whitespace c) p"
  shows "split_whitespace (join '' '' ps) = ps"
proof (cases "ps = []")
  case True
  then show ?thesis by (simp add: split_whitespace_def)
next
  case False
  let ?f = "\<lambda>c. if is_whitespace c then CHR '' '' else c"
  have "map ?f (join '' '' ps) = join '' '' ps"
    using assms by (induction "'' ''" ps rule: join.induct) (auto simp: no_blank_map whitespace_blank)
  moreover have "CHR '' '' \<notin> set p" if "p \<in> set ps" for p
    using assms [OF that] whitespace_blank by (auto simp: list_all_iff)
  then have "split_on CHR '' '' (join '' '' ps) = ps"
    using False by (intro split_on_join) auto
  moreover have "filter (\<lambda>p. p \<noteq> []) ps = ps"
    using assms by (auto simp: filter_id_conv)
  ultimately show ?thesis by (simp add: split_whitespace_def)
qed

lemma split_whitespace_again [simp]: "split_whitespace (join '' '' (split_whitespace s)) = split_whitespace s"
  by (rule split_whitespace_join) (rule split_whitespace_pieces)

lemma cron_parse_pieces:
  assumes "split_whitespace s = split_whitespace s'" and "cron_parse s = Some (Inr e)"
  shows "cron_parse s' = Some (Inr e)"
proof -
  obtain mi ho dm mo dw where parts: "split_whitespace s = [mi, ho, dm, mo, dw]"
    by (rule cron_parse_Inr [OF assms(2)])
  then have parts': "split_whitespace s' = [mi, ho, dm, mo, dw]" using assms(1) by simp
  show ?thesis
    using assms(2) unfolding cron_parse_fields [OF parts] cron_parse_fields [OF parts']
    by (auto simp: andthen_Inr Let_def split: if_splits)
qed

text \<open>
  A stored schedule is the one that was asked for: an expression is stored with single
  blanks, which reads as the same expression, and is stored unchanged when it is given again; a
  delay is stored as the time it ends, which is after now.
\<close>

theorem resolve_schedule_sound:
  assumes "resolve_schedule cal sched now = Inr stored"
  shows "(\<forall>s. sched = ScheduleCron s \<longrightarrow> (\<exists>s' e. stored = CronText s' \<and> cron_parse s = Some (Inr e)
            \<and> cron_parse s' = Some (Inr e) \<and> resolve_schedule cal (ScheduleCron s') now = Inr stored))
    \<and> (\<forall>at. sched = ScheduleAt at \<longrightarrow> stored = At at \<and> now < at)
    \<and> (\<forall>s. sched = ScheduleIn s \<longrightarrow> (\<exists>n t. parse_delay s = Inr n
            \<and> plus_nanos cal now (int n * SECOND) = Some t \<and> stored = At t))"
proof (cases sched)
  case (ScheduleCron s)
  let ?s = "join '' '' (split_whitespace s)"
  obtain e where e: "cron_parse s = Some (Inr e)" and stored: "stored = CronText ?s"
    using assms by (auto simp: ScheduleCron resolve_schedule_def split: option.splits sum.splits)
  have "cron_parse ?s = Some (Inr e)"
    by (rule cron_parse_pieces [OF _ e]) simp
  then have "resolve_schedule cal (ScheduleCron ?s) now = Inr stored"
    by (simp add: resolve_schedule_def stored)
  with e \<open>cron_parse ?s = Some (Inr e)\<close> show ?thesis by (simp add: ScheduleCron stored)
next
  case (ScheduleIn s)
  with assms show ?thesis
    by (auto simp: resolve_schedule_def delay_after_def split: option.splits sum.splits)
next
  case (ScheduleAt at)
  with assms show ?thesis by (auto simp: resolve_schedule_def split: if_splits)
qed

theorem resolve_schedule_sound_witness:
  "resolve_schedule gregorian (ScheduleAt 10) 0 = Inr (At 10) \<and> (0 :: int) < 10"
proof -
  have r: "resolve_schedule gregorian (ScheduleAt 10) 0 = Inr (At 10)"
    by (simp add: resolve_schedule_def)
  with resolve_schedule_sound [OF r] show ?thesis by simp
qed

subsection \<open>Failures in a row\<close>

lemma count_failure_effect:
  "failures (count_failure cap j) = min U32_MAX (failures j + 1)"
  "failure_limit cap (count_failure cap j) = failure_limit cap j"
  "enabled (count_failure cap j) \<longleftrightarrow> enabled j \<and> min U32_MAX (failures j + 1) < failure_limit cap j"
  "disabled_reason (count_failure cap j) =
    (if enabled j \<and> failure_limit cap j \<le> min U32_MAX (failures j + 1)
     then Some (FailedTimes (min U32_MAX (failures j + 1))) else disabled_reason j)"
  "next_fire (count_failure cap j) =
    (if enabled j \<and> failure_limit cap j \<le> min U32_MAX (failures j + 1) then None else next_fire j)"
  by (auto simp: count_failure_def Let_def disable_def failure_limit_def)

text \<open>
  A job is disabled exactly by its limit of failures in a row: after \<open>n\<close> more of them it is
  enabled when it was and the count is still below the limit, and a job that was enabled is
  otherwise disabled with that count, without a next fire.
\<close>

theorem failures_disable_at_limit:
  assumes "enabled j" and "failures j < failure_limit cap j" and "failure_limit cap j \<le> U32_MAX"
  shows "(enabled ((count_failure cap ^^ n) j) \<longleftrightarrow> failures j + n < failure_limit cap j)
    \<and> (failure_limit cap j \<le> failures j + n \<longrightarrow>
        disabled_reason ((count_failure cap ^^ n) j) = Some (FailedTimes (failure_limit cap j))
        \<and> next_fire ((count_failure cap ^^ n) j) = None)"
proof (induction n)
  case 0
  with assms show ?case by simp
next
  case (Suc n)
  let ?j = "(count_failure cap ^^ n) j"
  have count: "failures ((count_failure cap ^^ m) j) = min U32_MAX (failures j + m)" for m
    using assms(2,3) by (induction m) (auto simp: count_failure_effect)
  have limit: "failure_limit cap ((count_failure cap ^^ m) j) = failure_limit cap j" for m
    by (induction m) (simp_all add: count_failure_effect)
  have step: "(count_failure cap ^^ Suc n) j = count_failure cap ?j" by simp
  show ?case
    unfolding step count_failure_effect count limit using Suc assms(3) by auto
qed

theorem failures_disable_at_limit_witness:
  "enabled ((count_failure 3 ^^ 2) sample_job)
    \<and> disabled_reason ((count_failure 3 ^^ 3) sample_job) = Some (FailedTimes 3)"
proof -
  have "enabled sample_job" "failures sample_job < failure_limit 3 sample_job"
    "failure_limit 3 sample_job \<le> U32_MAX"
    by (simp_all add: sample_job_def failure_limit_def U32_MAX_def)
  note disable = failures_disable_at_limit [OF this]
  have "failures sample_job = 0" "failure_limit 3 sample_job = 3"
    by (simp_all add: sample_job_def failure_limit_def)
  with disable [of 2] disable [of 3] show ?thesis by simp
qed

subsection \<open>Outcomes\<close>

lemma position_map: "position (\<lambda>x. P (f x)) xs = position P (map f xs)"
  by (induction xs) auto

lemma rposition_map: "rposition (\<lambda>x. P (f x)) xs = rposition P (map f xs)"
  by (induction xs) (auto split: option.splits)

lemma rposition_Some: "rposition P xs = Some i \<Longrightarrow> i < length xs \<and> P (xs ! i)"
  by (induction xs arbitrary: i) (auto split: option.splits if_splits)

text \<open>What settling a pending fire leaves: its job with the fire settled, or no job.\<close>

lemma finish_shape:
  assumes "i < length js" and "P (js ! i)" and "\<And>reason j. P j \<Longrightarrow> P (disable reason j)"
  shows "finish i js = remove_at i js \<or> (\<exists>j. P j \<and> finish i js = js[i := j])"
    and "finish_if_done i js = remove_at i js \<or> (\<exists>j. P j \<and> finish_if_done i js = js[i := j])"
proof -
  have same: "js = js[i := js ! i]" by simp
  have "P (disable Finished (js ! i))" using assms(2,3) by simp
  then show "finish i js = remove_at i js \<or> (\<exists>j. P j \<and> finish i js = js[i := j])"
    using assms(2) same unfolding finish_def by metis
  then show "finish_if_done i js = remove_at i js \<or> (\<exists>j. P j \<and> finish_if_done i js = js[i := j])"
    using assms(2) same unfolding finish_if_done_def by metis
qed

lemma remove_at_update: "remove_at i (js[i := j]) = remove_at i js"
  by (simp add: remove_at_def)

definition settled_as :: "stored_job \<Rightarrow> nat \<Rightarrow> stored_job \<Rightarrow> bool" where
  "settled_as j0 k j \<longleftrightarrow>
     job_id j = job_id j0 \<and> (\<exists>f. history j = (history j0)[k := f] \<and> fire_key f = fire_key (history j0 ! k)
       \<and> outcome f \<noteq> Pending)"

lemma settled_as_disable: "settled_as j0 k j \<Longrightarrow> settled_as j0 k (disable reason j)"
  by (simp add: settled_as_def)

lemma settled_as_count: "settled_as j0 k j \<Longrightarrow> settled_as j0 k (count_failure c j)"
  by (simp add: settled_as_def)

lemma settled_as_intro:
  "outcome f \<noteq> Pending \<Longrightarrow> fire_key f = fire_key (history j0 ! k) \<Longrightarrow>
    settled_as j0 k (j0\<lparr>history := (history j0)[k := f]\<rparr>)"
  "outcome f \<noteq> Pending \<Longrightarrow> fire_key f = fire_key (history j0 ! k) \<Longrightarrow>
    settled_as j0 k (j0\<lparr>history := (history j0)[k := f], runs := n\<rparr>)"
  by (auto simp: settled_as_def)

lemma settle_fire_shape:
  assumes "position (\<lambda>j. job_id j = i) js = Some index"
    and "rposition (\<lambda>f. fire_key f = Some key) (history (js ! index)) = Some k"
    and "outcome (history (js ! index) ! k) = Pending"
  shows "settle_fire i key result cap js = remove_at index js
    \<or> (\<exists>j. settled_as (js ! index) k j \<and> settle_fire i key result cap js = js[index := j])"
proof -
  have index: "index < length js" using assms(1) by (rule position_SomeD)
  define Q where "Q = (\<lambda>x. x = remove_at index js \<or> (\<exists>j. settled_as (js ! index) k j \<and> x = js[index := j]))"
  have shapes: "Q (finish index (js[index := j]))" "Q (finish_if_done index (js[index := j]))" "Q (js[index := j])"
    if "settled_as (js ! index) k j" for j
    using finish_shape [of index "js[index := j]" "settled_as (js ! index) k"] that index
    by (auto simp: settled_as_disable remove_at_update Q_def)
  have "Q (settle_fire i key result cap js)"
  proof (cases result)
    case (Inl error)
    let ?f = "(history (js ! index) ! k)\<lparr>outcome := Failed error\<rparr>"
    let ?j = "(js ! index)\<lparr>history := (history (js ! index))[k := ?f]\<rparr>"
    have j: "settled_as (js ! index) k ?j" by (rule settled_as_intro; simp)
    show ?thesis
      using shapes [OF j] shapes [OF settled_as_count [OF j, of cap]]
      by (simp add: settle_fire_def assms Inl Let_def)
  next
    case (Inr d)
    obtain session message where d: "d = (session, message)" by (cases d)
    let ?f = "(history (js ! index) ! k)\<lparr>outcome := Delivered, fire_session := Some session,
      fire_message := message\<rparr>"
    let ?j = "(js ! index)\<lparr>history := (history (js ! index))[k := ?f]\<rparr>"
    let ?j' = "(js ! index)\<lparr>history := (history (js ! index))[k := ?f], runs := min U64_MAX (runs (js ! index) + 1)\<rparr>"
    have "settled_as (js ! index) k ?j" "settled_as (js ! index) k ?j'"
      by (rule settled_as_intro; simp)+
    note shape = shapes [OF this(1)] shapes [OF this(2)]
    then show ?thesis by (simp add: settle_fire_def assms Inr d Let_def)
  qed
  then show ?thesis by (simp add: Q_def)
qed

lemma settled_once:
  assumes "settled_as (js ! index) k j" and "position (\<lambda>j. job_id j = i) js = Some index"
    and "rposition (\<lambda>f. fire_key f = Some key) (history (js ! index)) = Some k"
  shows "settle_fire i key result cap (js[index := j]) = js[index := j]"
proof -
  have index: "index < length js" using assms(2) by (rule position_SomeD)
  obtain f where j: "job_id j = job_id (js ! index)" "history j = (history (js ! index))[k := f]"
    and f: "fire_key f = fire_key (history (js ! index) ! k)" "outcome f \<noteq> Pending"
    using assms(1) by (auto simp: settled_as_def)
  have "map job_id (js[index := j]) = map job_id js"
    using index j(1) by (simp add: map_update list_update_same_conv)
  then have "position (\<lambda>j. job_id j = i) (js[index := j]) = Some index"
    using assms(2) by (simp only: position_map [of "\<lambda>x. x = i" job_id])
  moreover have k: "k < length (history (js ! index))" using rposition_Some [OF assms(3)] by simp
  then have "map fire_key (history j) = map fire_key (history (js ! index))"
    using f(1) by (simp add: j(2) map_update list_update_same_conv)
  then have "rposition (\<lambda>f. fire_key f = Some key) (history j) = Some k"
    using assms(3) by (simp only: rposition_map [of "\<lambda>x. x = Some key" fire_key])
  moreover have "outcome (history j ! k) \<noteq> Pending" using k f(2) by (simp add: j(2))
  ultimately show ?thesis using index by (simp add: settle_fire_def Let_def)
qed

lemma position_removed:
  assumes "store_ok js" and "position (\<lambda>j. job_id j = i) js = Some index"
  shows "position (\<lambda>j. job_id j = i) (remove_at index js) = None"
proof -
  note at = position_Some [OF assms(2)]
  have "job_id j \<noteq> i" if "j \<in> set (remove_at index js)" for j
  proof -
    have "distinct (take index (map job_id js) @ (job_id (js ! index)) # drop (Suc index) (map job_id js))"
      using assms(1) at id_take_nth_drop [of index "map job_id js"] by (simp add: store_ok_def)
    moreover have "job_id j \<in> set (take index (map job_id js)) \<union> set (drop (Suc index) (map job_id js))"
      using that by (auto simp: remove_at_def take_map drop_map)
    ultimately show ?thesis using at by auto
  qed
  then show ?thesis by (simp add: position_None)
qed

text \<open>
  The outcome of a fire is recorded once: settling it again, with whatever result and limit,
  changes nothing, so a delivery that is found again after a restart is counted once.
\<close>

theorem outcome_recorded_once:
  assumes "store_ok js"
  shows "settle_fire i key again cap' (settle_fire i key result cap js) = settle_fire i key result cap js"
proof (cases "position (\<lambda>j. job_id j = i) js")
  case (Some index)
  show ?thesis
  proof (cases "rposition (\<lambda>f. fire_key f = Some key) (history (js ! index))")
    case k: (Some k)
    show ?thesis
    proof (cases "outcome (history (js ! index) ! k) = Pending")
      case True
      from settle_fire_shape [OF Some k True, of result cap] show ?thesis
      proof
        assume "settle_fire i key result cap js = remove_at index js"
        with position_removed [OF assms Some] show ?thesis by (simp add: settle_fire_def)
      next
        assume "\<exists>j. settled_as (js ! index) k j \<and> settle_fire i key result cap js = js[index := j]"
        with settled_once [OF _ Some k] show ?thesis by auto
      qed
    next
      case False
      then show ?thesis by (simp add: settle_fire_def Some k Let_def)
    qed
  qed (simp add: settle_fire_def Some Let_def)
qed (simp add: settle_fire_def)

theorem outcome_recorded_once_witness:
  "settle_fire ''a'' ''a:10'' (Inl ''late'') 1 (settle_fire ''a'' ''a:10'' (Inr (1, None)) 3 [claimed_job])
    = settle_fire ''a'' ''a:10'' (Inr (1, None)) 3 [claimed_job]"
  by (rule outcome_recorded_once) (simp add: store_ok_def job_ok_def claimed_job_def sample_job_def U64_MAX_def U32_MAX_def)


end
