(* ===== verification/Display_Text.thy ===== *)
theory Display_Text
  imports Prelude
begin

text \<open>
  The text of tool displays (\<open>crates/protocol/src/display.rs\<close>): which control characters and
  escape sequences a block may carry, and their removal. A text is the list of its Unicode
  scalar values, with the byte length of its UTF-8 form; positions that the code counts in
  bytes are counted in characters where the two name the same place.
\<close>

type_synonym utext = "nat list"

text \<open>A text of the program itself.\<close>

definition lit :: "string \<Rightarrow> utext" where
  "lit s = map of_char s"

definition utf8_len :: "nat \<Rightarrow> nat" where
  "utf8_len c = (if c < 128 then 1 else if c < 2048 then 2 else if c < 65536 then 3 else 4)"

definition byte_len :: "utext \<Rightarrow> nat" where
  "byte_len t = sum_list (map utf8_len t)"

text \<open>\<open>char::is_control\<close>: the general category Cc.\<close>

definition control :: "nat \<Rightarrow> bool" where
  "control c \<longleftrightarrow> c < 32 \<or> 127 \<le> c \<and> c < 160"

definition unsafe_character :: "nat \<Rightarrow> bool" where
  "unsafe_character c \<longleftrightarrow> control c \<and> c \<noteq> 10 \<and> c \<noteq> 9"

definition is_display_safe :: "utext \<Rightarrow> bool" where
  "is_display_safe t \<longleftrightarrow> \<not> list_ex unsafe_character t"

subsection \<open>Escape sequences\<close>

text \<open>
  \<open>escape_length\<close> of a text that starts with ESC. A byte of a character beyond ASCII is in none
  of the ranges that are looked for, so that the ends found are the same in characters.
\<close>

fun string_length :: "utext \<Rightarrow> nat" where
  "string_length [] = 0"
| "string_length (c # rest) =
     (if c = 7 then 1
      else if c = 27 \<and> rest \<noteq> [] \<and> hd rest = 92 then 2
      else Suc (string_length rest))"

definition escape_length :: "utext \<Rightarrow> nat" where
  "escape_length t =
     (case nth_opt t 1 of
        None \<Rightarrow> 1
      | Some c \<Rightarrow>
          if c = 91
          then (case position (\<lambda>b. \<not> (32 \<le> b \<and> b \<le> 63)) (drop 2 t) of
                  None \<Rightarrow> length t
                | Some end \<Rightarrow> if 64 \<le> t ! (end + 2) \<and> t ! (end + 2) \<le> 126 then end + 3 else end + 2)
          else if c \<in> {93, 80, 88, 94, 95} then 2 + string_length (drop 2 t)
          else 2)"

definition sgr_parameter :: "nat \<Rightarrow> bool" where
  "sgr_parameter b \<longleftrightarrow> 48 \<le> b \<and> b \<le> 57 \<or> b = 59 \<or> b = 58"

definition is_sgr :: "utext \<Rightarrow> bool" where
  "is_sgr sequence =
     (case strip_prefix [27, 91] sequence of
        None \<Rightarrow> False
      | Some rest \<Rightarrow> (case strip_suffix [109] rest of None \<Rightarrow> False
                      | Some parameters \<Rightarrow> list_all sgr_parameter parameters))"

lemma string_length_le: "string_length t \<le> length t"
  by (induction t rule: string_length.induct) (auto simp: neq_Nil_conv)

lemma escape_length_pos: "0 < escape_length t"
  by (auto simp: escape_length_def split: option.splits dest: nth_opt_SomeD)

lemma escape_length_le: "t \<noteq> [] \<Longrightarrow> escape_length t \<le> length t"
proof -
  assume "t \<noteq> []"
  moreover have "position P (drop 2 t) = Some e \<Longrightarrow> e + 2 < length t" for P :: "nat \<Rightarrow> bool" and e
    using position_Some [of P "drop 2 t" e] by (simp add: less_diff_conv)
  ultimately show ?thesis
    using string_length_le [of "drop 2 t"]
    by (fastforce simp: escape_length_def Suc_le_eq split: option.splits dest: nth_opt_SomeD)
qed

subsection \<open>Removing them\<close>

text \<open>
  The loop of \<open>sanitize\<close> from the first unsafe character on: the text it keeps and whether it left
  anything out.
\<close>

function sanitize_rest :: "bool \<Rightarrow> utext \<Rightarrow> utext \<times> bool" where
  "sanitize_rest keep_sgr [] = ([], False)"
| "sanitize_rest keep_sgr (c # rest) =
     (if c \<noteq> 27
      then (let (out, changed) = sanitize_rest keep_sgr rest
            in if unsafe_character c then (out, True) else (c # out, changed))
      else (let n = escape_length (c # rest);
                sequence = take n (c # rest);
                (out, changed) = sanitize_rest keep_sgr (drop n (c # rest))
            in if keep_sgr \<and> is_sgr sequence then (sequence @ out, changed) else (out, True)))"
  by pat_completeness auto
termination
  using escape_length_pos
  by (relation "measure (\<lambda>(keep, t). length t)") (auto simp: Suc_le_eq)

declare sanitize_rest.simps [simp del]

text \<open>\<open>Cow::Borrowed\<close> is \<open>None\<close>: the text needs no change.\<close>

definition sanitize :: "utext \<Rightarrow> bool \<Rightarrow> utext option" where
  "sanitize t keep_sgr =
     (case position unsafe_character t of
        None \<Rightarrow> None
      | Some first \<Rightarrow>
          (let (out, changed) = sanitize_rest keep_sgr (drop first t)
           in if changed then Some (take first t @ out) else None))"

definition sanitize_display_text :: "utext \<Rightarrow> utext option" where
  "sanitize_display_text t = sanitize t False"

definition sanitize_terminal_text :: "utext \<Rightarrow> utext option" where
  "sanitize_terminal_text t = sanitize t True"

definition is_terminal_safe :: "utext \<Rightarrow> bool" where
  "is_terminal_safe t \<longleftrightarrow> sanitize_terminal_text t = None"

text \<open>The text a \<open>Cow\<close> derefs to.\<close>

definition or_same :: "utext option \<Rightarrow> utext \<Rightarrow> utext" where
  "or_same cow t = (case cow of None \<Rightarrow> t | Some cleaned \<Rightarrow> cleaned)"

definition strip_sgr :: "utext \<Rightarrow> utext" where
  "strip_sgr t = or_same (sanitize t False) t"

subsection \<open>What is kept\<close>

text \<open>Terminal text: characters that are shown, and colour sequences.\<close>

inductive terminal_text :: "utext \<Rightarrow> bool" where
  empty: "terminal_text []"
| plain: "\<not> unsafe_character c \<Longrightarrow> terminal_text t \<Longrightarrow> terminal_text (c # t)"
| colour: "list_all sgr_parameter ps \<Longrightarrow> terminal_text t \<Longrightarrow> terminal_text (27 # 91 # ps @ 109 # t)"

lemma is_sgr_iff: "is_sgr s \<longleftrightarrow> (\<exists>ps. list_all sgr_parameter ps \<and> s = 27 # 91 # ps @ [109])"
  by (auto simp: is_sgr_def rust_str strip_prefix_Some strip_suffix_Some strip_prefix_None strip_suffix_None
      split: option.splits)

lemma display_safe_simps [simp]:
  "is_display_safe []" "is_display_safe (c # t) \<longleftrightarrow> \<not> unsafe_character c \<and> is_display_safe t"
  "is_display_safe (s @ t) \<longleftrightarrow> is_display_safe s \<and> is_display_safe t"
  by (auto simp: is_display_safe_def)

lemma position_append_here: "\<not> list_ex P xs \<Longrightarrow> P y \<Longrightarrow> position P (xs @ y # ys) = Some (length xs)"
  by (induction xs) auto

lemma escape_length_sgr:
  assumes "list_all sgr_parameter ps"
  shows "escape_length (27 # 91 # ps @ 109 # t) = length ps + 3"
proof -
  have "\<not> list_ex (\<lambda>b. \<not> (32 \<le> b \<and> b \<le> 63)) ps"
    using assms by (induction ps) (auto simp: sgr_parameter_def)
  from position_append_here [OF this, of 109 t] show ?thesis
    by (simp add: escape_length_def nth_opt_def nth_append)
qed

lemma sanitize_rest_safe:
  "is_display_safe p \<Longrightarrow> sanitize_rest keep (p @ t) = (p @ fst (sanitize_rest keep t), snd (sanitize_rest keep t))"
  by (induction p)
    (auto simp: sanitize_rest.simps unsafe_character_def control_def Let_def split: prod.splits)

lemma sanitize_rest_all_safe: "is_display_safe t \<Longrightarrow> sanitize_rest keep t = (t, False)"
  using sanitize_rest_safe [of t keep "[]"] by (simp add: sanitize_rest.simps)

text \<open>The search for the first unsafe character only saves work.\<close>

lemma sanitize_whole:
  "sanitize t keep = (if snd (sanitize_rest keep t) then Some (fst (sanitize_rest keep t)) else None)"
proof (cases "position unsafe_character t")
  case None
  then have "is_display_safe t"
    by (simp add: position_None is_display_safe_def list_ex_iff)
  with None show ?thesis by (simp add: sanitize_def sanitize_rest_all_safe)
next
  case (Some first)
  then have "is_display_safe (take first t)"
    using position_before [OF Some] position_Some [OF Some]
    by (auto simp: is_display_safe_def list_ex_iff in_set_conv_nth)
  from sanitize_rest_safe [OF this, of keep "drop first t"] Some show ?thesis
    by (simp add: sanitize_def Let_def split: prod.splits)
qed

lemma sanitize_rest_terminal: "terminal_text (fst (sanitize_rest True t))"
proof (induction "True" t rule: sanitize_rest.induct)
  case 1
  then show ?case by (simp add: sanitize_rest.simps terminal_text.empty)
next
  case (2 c rest)
  show ?case
  proof (cases "c = 27")
    case False
    then show ?thesis
      using 2(1) by (auto simp: sanitize_rest.simps Let_def terminal_text.plain split: prod.splits)
  next
    case True
    then show ?thesis
      using 2(2) terminal_text.colour
      by (auto simp: sanitize_rest.simps(2) [of _ 27] Let_def is_sgr_iff split: prod.splits)
  qed
qed

lemma sanitize_rest_kept: "terminal_text t \<Longrightarrow> sanitize_rest True t = (t, False)"
proof (induction rule: terminal_text.induct)
  case empty
  then show ?case by (simp add: sanitize_rest.simps)
next
  case (plain c t)
  then show ?case using sanitize_rest_safe [of "[c]" True t] by simp
next
  case (colour ps t)
  have "is_sgr (27 # 91 # ps @ [109])"
    using colour(1) by (auto simp: is_sgr_iff)
  then show ?case
    using colour escape_length_sgr [OF colour(1), of t]
    by (simp add: sanitize_rest.simps(2) [of _ 27] Let_def numeral_3_eq_3)
qed

lemma sanitize_rest_same: "\<not> snd (sanitize_rest keep t) \<Longrightarrow> fst (sanitize_rest keep t) = t"
proof (induction keep t rule: sanitize_rest.induct)
  case (1 keep)
  then show ?case by (simp add: sanitize_rest.simps)
next
  case (2 keep c rest)
  show ?case
  proof (cases "c = 27")
    case False
    then show ?thesis
      using 2(1,3) by (auto simp: sanitize_rest.simps(2) [of _ c] Let_def split: prod.splits if_splits)
  next
    case True
    then show ?thesis
      using 2(2,3) by (auto simp: sanitize_rest.simps(2) [of _ 27] Let_def split: prod.splits if_splits)
  qed
qed

lemma terminal_safe_iff: "is_terminal_safe t \<longleftrightarrow> terminal_text t"
  using sanitize_rest_terminal [of t] sanitize_rest_kept [of t] sanitize_rest_same [of True t]
  by (auto simp: is_terminal_safe_def sanitize_terminal_text_def sanitize_whole)

lemma sanitize_rest_False_safe: "is_display_safe (fst (sanitize_rest False t))"
  by (induction "False" t rule: sanitize_rest.induct)
    (auto simp: sanitize_rest.simps Let_def split: prod.splits)

lemma or_same_sanitize: "or_same (sanitize t keep) t = fst (sanitize_rest keep t)"
  using sanitize_rest_same [of keep t] by (auto simp: sanitize_whole or_same_def)

lemma sanitize_False_None: "sanitize t False = None \<longleftrightarrow> is_display_safe t"
  using sanitize_rest_same [of False t] sanitize_rest_False_safe [of t] sanitize_rest_all_safe [of t False]
  by (auto simp: sanitize_whole)

lemma cleaned_display_safe [simp]: "is_display_safe (or_same (sanitize_display_text t) t)"
  by (simp add: sanitize_display_text_def or_same_sanitize sanitize_rest_False_safe)

lemma cleaned_terminal_safe [simp]: "is_terminal_safe (or_same (sanitize_terminal_text t) t)"
  by (simp add: sanitize_terminal_text_def or_same_sanitize sanitize_rest_terminal terminal_safe_iff)

lemma strip_sgr_safe [simp]: "is_display_safe (strip_sgr t)"
  using cleaned_display_safe [of t] by (simp add: strip_sgr_def sanitize_display_text_def)

lemma terminal_text_append: "terminal_text s \<Longrightarrow> terminal_text t \<Longrightarrow> terminal_text (s @ t)"
  by (induction rule: terminal_text.induct) (auto intro: terminal_text.intros)

text \<open>The text of a terminal text without its colours.\<close>

inductive shown_as :: "utext \<Rightarrow> utext \<Rightarrow> bool" where
  "shown_as [] []"
| "\<not> unsafe_character c \<Longrightarrow> shown_as t u \<Longrightarrow> shown_as (c # t) (c # u)"
| "list_all sgr_parameter ps \<Longrightarrow> shown_as t u \<Longrightarrow> shown_as (27 # 91 # ps @ 109 # t) u"

lemma strip_shown: "shown_as t u \<Longrightarrow> fst (sanitize_rest False t) = u"
proof (induction rule: shown_as.induct)
  case (2 c t u)
  then show ?case using sanitize_rest_safe [of "[c]" False t] by simp
next
  case (3 ps t u)
  then show ?case
    using escape_length_sgr [OF 3(1), of t]
    by (simp add: sanitize_rest.simps(2) [of _ 27] Let_def numeral_3_eq_3 case_prod_beta)
qed (simp add: sanitize_rest.simps)

lemma terminal_shown: "terminal_text t \<Longrightarrow> \<exists>u. shown_as t u"
  by (induction rule: terminal_text.induct) (blast intro: shown_as.intros)+

text \<open>
  C40. The check of terminal text decides a grammar: a text is terminal safe exactly when it is
  made of characters that are shown and of whole colour sequences. Cleaning always gives such a
  text, changes none that is already clean, and taking the colours out of one leaves exactly
  the characters that are shown; a text without them is display safe, and is cleaned to itself.
\<close>

theorem terminal_cleaning_exact:
  "(is_terminal_safe t \<longleftrightarrow> terminal_text t)
   \<and> terminal_text (or_same (sanitize_terminal_text t) t)
   \<and> is_display_safe (or_same (sanitize_display_text t) t)
   \<and> (sanitize_display_text t = None \<longleftrightarrow> is_display_safe t)
   \<and> (terminal_text t \<longleftrightarrow> (\<exists>u. shown_as t u)) \<and> (shown_as t u \<longrightarrow> strip_sgr t = u)"
proof -
  have "shown_as t u \<Longrightarrow> terminal_text t" for u
    by (induction rule: shown_as.induct) (auto intro: terminal_text.intros)
  then show ?thesis
    using terminal_shown [of t] strip_shown [of t u]
    by (auto simp: terminal_safe_iff sanitize_rest_terminal or_same_sanitize strip_sgr_def
        sanitize_terminal_text_def sanitize_display_text_def sanitize_rest_False_safe
        sanitize_False_None)
qed

theorem terminal_cleaning_exact_witness:
  "strip_sgr (97 # [27, 91, 51, 49, 109] @ [98, 27, 91, 109]) = [97, 98]"
proof -
  have "shown_as (97 # 27 # 91 # [51, 49] @ 109 # 98 # 27 # 91 # [] @ 109 # []) [97, 98]"
    by (rule shown_as.intros | simp add: unsafe_character_def control_def sgr_parameter_def)+
  from terminal_cleaning_exact [of _ "[97, 98]"] this show ?thesis by simp
qed

text \<open>A text is cut in the middle of no character.\<close>

fun take_bytes :: "nat \<Rightarrow> utext \<Rightarrow> utext" where
  "take_bytes n [] = []"
| "take_bytes n (c # t) = (if utf8_len c \<le> n then c # take_bytes (n - utf8_len c) t else [])"

definition is_char_boundary :: "utext \<Rightarrow> nat \<Rightarrow> bool" where
  "is_char_boundary t n \<longleftrightarrow> list_ex (\<lambda>k. byte_len (take k t) = n) [0..<Suc (length t)]"

text \<open>\<open>while !text.is_char_boundary(end) { end -= 1 }\<close>.\<close>

fun boundary_before :: "utext \<Rightarrow> nat \<Rightarrow> nat" where
  "boundary_before t 0 = 0"
| "boundary_before t (Suc n) = (if is_char_boundary t (Suc n) then Suc n else boundary_before t n)"

lemma byte_len_simps [simp]:
  "byte_len [] = 0" "byte_len (c # t) = utf8_len c + byte_len t" "byte_len (s @ t) = byte_len s + byte_len t"
  by (auto simp: byte_len_def)

lemma utf8_len_pos [simp]: "0 < utf8_len c"
  by (simp add: utf8_len_def)

lemma byte_len_0 [simp]: "byte_len t = 0 \<longleftrightarrow> t = []"
  using utf8_len_pos by (cases t) (auto simp: byte_len_def)

lemma take_bytes_le: "byte_len (take_bytes n t) \<le> n"
  by (induction n t rule: take_bytes.induct) auto

lemma take_bytes_all: "byte_len t \<le> n \<Longrightarrow> take_bytes n t = t"
  by (induction n t rule: take_bytes.induct) auto

lemma take_bytes_empty [simp]: "take_bytes 0 t = []"
  by (cases t) (simp_all add: utf8_len_def)

lemma take_bytes_prefix: "prefix (take_bytes n t) t"
  by (induction n t rule: take_bytes.induct) auto

lemma take_bytes_take:
  "byte_len (take_bytes n t) = byte_len (take k t) \<or> n < byte_len (take k t) \<or> byte_len (take k t) < byte_len (take_bytes n t)"
proof (induction n t arbitrary: k rule: take_bytes.induct)
  case (2 n c t)
  show ?case
  proof (cases k)
    case (Suc m)
    with 2 [of m] show ?thesis by auto
  qed (use 2 in auto)
qed simp

lemma boundary_before_take: "boundary_before t n = byte_len (take_bytes n t)"
proof (induction n)
  case 0
  then show ?case using take_bytes_le [of 0 t] by simp
next
  case (Suc n)
  have edge: "is_char_boundary t (byte_len (take_bytes m t))" for m
  proof -
    obtain u where "t = take_bytes m t @ u"
      using take_bytes_prefix [of m t] by (auto elim: prefixE)
    then have "take (length (take_bytes m t)) t = take_bytes m t" "length (take_bytes m t) \<le> length t"
      by (metis append_eq_conv_conj, metis length_append le_add1)
    then show ?thesis
      unfolding is_char_boundary_def list_ex_iff
      by (intro bexI [of _ "length (take_bytes m t)"]) auto
  qed
  show ?case
  proof (cases "is_char_boundary t (Suc n)")
    case True
    then obtain k where k: "byte_len (take k t) = Suc n"
      unfolding is_char_boundary_def list_ex_iff by blast
    then have "byte_len (take_bytes (Suc n) t) = Suc n"
      using take_bytes_take [of "Suc n" t k] take_bytes_le [of "Suc n" t] by auto
    with True show ?thesis by simp
  next
    case False
    then have less: "byte_len (take_bytes (Suc n) t) \<le> n"
      using edge [of "Suc n"] take_bytes_le [of "Suc n" t] by (metis le_SucE)
    obtain k where k: "take_bytes (Suc n) t = take k t"
      using take_bytes_prefix [of "Suc n" t] by (metis append_eq_conv_conj prefix_def)
    obtain j where j: "take_bytes n t = take j t"
      using take_bytes_prefix [of n t] by (metis append_eq_conv_conj prefix_def)
    have "byte_len (take_bytes n t) = byte_len (take_bytes (Suc n) t)
        \<or> n < byte_len (take_bytes (Suc n) t) \<or> byte_len (take_bytes (Suc n) t) < byte_len (take_bytes n t)"
      using take_bytes_take [of n t k] unfolding k .
    moreover have "byte_len (take_bytes (Suc n) t) = byte_len (take_bytes n t)
        \<or> Suc n < byte_len (take_bytes n t) \<or> byte_len (take_bytes n t) < byte_len (take_bytes (Suc n) t)"
      using take_bytes_take [of "Suc n" t j] unfolding j .
    ultimately have "byte_len (take_bytes n t) = byte_len (take_bytes (Suc n) t)"
      using less take_bytes_le [of n t] by linarith
    with False Suc show ?thesis by simp
  qed
qed

end
