(* ===== verification/Display_Blocks.thy ===== *)
theory Display_Blocks
  imports Display_Text "HOL-Library.Word"
begin

text \<open>
  Display blocks (\<open>crates/protocol/src/display.rs\<close>, with the artifacts they refer to from
  \<open>crates/protocol/src/content.rs\<close> and \<open>asset.rs\<close>): what a writer checks, what the daemon cleans,
  and the text that a block is printed as. The JSON values of a block are of a type \<open>'v\<close> that
  stands for \<open>serde_json\<close>'s. Counts are kept at their width: sums of them wrap, as in a release
  build.
\<close>

type_synonym u64 = "64 word"

subsection \<open>Blocks\<close>

record artifact_ref =
  ar_sha256 :: utext
  ar_byte_length :: u64
  ar_media_type :: utext
  ar_filename :: "utext option"

datatype plan_entry_status = Pending | InProgress | Completed | UnknownStatus

datatype plan_entry_priority = High | Medium | Low | UnknownPriority

record plan_entry =
  pe_content :: utext
  pe_status :: plan_entry_status
  pe_priority :: "plan_entry_priority option"

datatype diff_change = Created | Modified | Deleted | Renamed | UnknownChange

datatype diff_as_of = Prepare | Execute

record diff_omitted =
  om_hunks :: u64
  om_lines :: u64

datatype diff_line_op = Context | Add | Remove

record diff_line =
  dl_op :: diff_line_op
  dl_text :: utext

record diff_hunk =
  dh_old_start :: u64
  dh_old_lines :: u64
  dh_new_start :: u64
  dh_new_lines :: u64
  dh_lines :: "diff_line list"

record diff_block =
  db_path :: utext
  db_old_path :: "utext option"
  db_language :: "utext option"
  db_change :: diff_change
  db_hunks :: "diff_hunk list"
  db_added :: u64
  db_removed :: u64
  db_omitted :: "diff_omitted option"
  db_as_of :: diff_as_of
  db_full :: "artifact_ref option"

datatype terminal_stream = Stdout | Stderr | UnknownStream

record terminal_segment =
  ts_stream :: terminal_stream
  ts_text :: utext

record key_value_entry =
  kv_key :: utext
  kv_value :: utext

record asset_block =
  ab_store :: utext
  ab_asset :: utext
  ab_handle :: utext
  ab_title :: utext
  ab_media_type :: utext
  ab_byte_length :: u64
  ab_sha256 :: utext
  ab_filename :: "utext option"

datatype 'v display_block =
    Text utext "u64 option"
  | Markdown utext "u64 option"
  | Code utext "utext option" "u64 option" "u64 option"
  | FileExcerpt utext "utext option" u64 "utext list" "u64 option" "u64 option" "artifact_ref option"
  | Diff diff_block
  | Terminal "terminal_segment list" "int option" "u64 option" "artifact_ref option"
  | KeyValue "key_value_entry list" "u64 option"
  | Table "utext list" "utext list list" "u64 option"
  | Json 'v
  | Media artifact_ref "utext option"
  | Link utext "utext option"
  | SessionRef utext "utext option" "utext option"
  | Plan "plan_entry list"
  | AssetFigure asset_block

text \<open>\<open>Open\<close>: a value of a kind that this build knows, or the tag and JSON of another.\<close>

datatype ('a, 'v) opened = Known 'a | Unknown utext 'v

fun known :: "('a, 'v) opened \<Rightarrow> 'a option" where
  "known (Known x) = Some x"
| "known (Unknown tag raw) = None"

type_synonym 'v blocks = "('v display_block, 'v) opened list"

fun kind :: "'v display_block \<Rightarrow> string" where
  "kind (Text _ _) = ''text''"
| "kind (Markdown _ _) = ''markdown''"
| "kind (Code _ _ _ _) = ''code''"
| "kind (FileExcerpt _ _ _ _ _ _ _) = ''file_excerpt''"
| "kind (Diff _) = ''diff''"
| "kind (Terminal _ _ _ _) = ''terminal''"
| "kind (KeyValue _ _) = ''key_value''"
| "kind (Table _ _ _) = ''table''"
| "kind (Json _) = ''json''"
| "kind (Media _ _) = ''media''"
| "kind (Link _ _) = ''link''"
| "kind (SessionRef _ _ _) = ''session_ref''"
| "kind (Plan _) = ''plan''"
| "kind (AssetFigure _) = ''asset''"

definition some_left_out :: "u64 option \<Rightarrow> bool" where
  "some_left_out omitted \<longleftrightarrow> (case omitted of Some count \<Rightarrow> count > 0 | None \<Rightarrow> False)"

fun is_cut :: "'v display_block \<Rightarrow> bool" where
  "is_cut (Text _ omitted) = some_left_out omitted"
| "is_cut (Markdown _ omitted) = some_left_out omitted"
| "is_cut (Code _ _ _ omitted) = some_left_out omitted"
| "is_cut (FileExcerpt _ _ _ _ _ omitted _) = some_left_out omitted"
| "is_cut (Terminal _ _ omitted _) = some_left_out omitted"
| "is_cut (Diff d) = (case db_omitted d of Some om \<Rightarrow> om_hunks om > 0 | None \<Rightarrow> False)"
| "is_cut (KeyValue _ omitted) = some_left_out omitted"
| "is_cut (Table _ _ omitted) = some_left_out omitted"
| "is_cut _ = False"

fun set_full :: "artifact_ref \<Rightarrow> 'v display_block \<Rightarrow> 'v display_block" where
  "set_full a (FileExcerpt path lang start ls whole om full) = FileExcerpt path lang start ls whole om (Some a)"
| "set_full a (Terminal segments code om full) = Terminal segments code om (Some a)"
| "set_full a (Diff d) = Diff (d\<lparr>db_full := Some a\<rparr>)"
| "set_full a b = b"

subsection \<open>Checks\<close>

datatype content_error = Digest | MediaType | Filename

datatype block_error =
    ControlCharacter string
  | LineNumber string
  | HunkCounts
  | TableShape
  | Artifact content_error
  | TooLarge
  | AssetDigest

definition lower_hex :: "nat \<Rightarrow> bool" where
  "lower_hex b \<longleftrightarrow> 48 \<le> b \<and> b \<le> 57 \<or> 97 \<le> b \<and> b \<le> 102"

definition media_token :: "utext \<Rightarrow> bool" where
  "media_token token \<longleftrightarrow> token \<noteq> []
     \<and> list_all (\<lambda>(index, b). 97 \<le> b \<and> b \<le> 122 \<or> 48 \<le> b \<and> b \<le> 57
          \<or> index > 0 \<and> b \<in> set (lit ''!#$&^_.+-'')) (enumerate 0 token)"

definition artifact_validate :: "artifact_ref \<Rightarrow> content_error + unit" where
  "artifact_validate a =
     all_checks
       [ensure (byte_len (ar_sha256 a) = 64 \<and> list_all lower_hex (ar_sha256 a)) Digest,
        ensure (byte_len (ar_media_type a) \<le> 255
          \<and> (case split_once (ar_media_type a) (lit ''/'') of
               None \<Rightarrow> False
             | Some (main, subtype) \<Rightarrow> media_token main \<and> media_token subtype)) MediaType,
        ensure (case ar_filename a of
            None \<Rightarrow> True
          | Some filename \<Rightarrow> filename \<noteq> [] \<and> byte_len filename \<le> 255
              \<and> \<not> list_ex (\<lambda>c. control c \<or> c = 47 \<or> c = 92) filename) Filename]"

definition check_text :: "utext \<Rightarrow> string \<Rightarrow> block_error + unit" where
  "check_text v what = ensure (is_display_safe v) (ControlCharacter what)"

definition check_optional :: "utext option \<Rightarrow> string \<Rightarrow> block_error + unit" where
  "check_optional v what = (case v of None \<Rightarrow> Inr () | Some t \<Rightarrow> check_text t what)"

definition check_artifact :: "artifact_ref option \<Rightarrow> block_error + unit" where
  "check_artifact v =
     (case v of
        None \<Rightarrow> Inr ()
      | Some a \<Rightarrow> (case artifact_validate a of Inl e \<Rightarrow> Inl (Artifact e) | Inr _ \<Rightarrow> Inr ()))"

text \<open>A line of an excerpt or a diff, which is one line.\<close>

definition check_line :: "string \<Rightarrow> utext \<Rightarrow> block_error + unit" where
  "check_line what line = all_checks [ensure (10 \<notin> set line) (ControlCharacter what), check_text line what]"

definition count_ops :: "diff_line_op list \<Rightarrow> diff_hunk \<Rightarrow> u64" where
  "count_ops ops h = of_nat (length (filter (\<lambda>l. dl_op l \<in> set ops) (dh_lines h)))"

definition check_hunk :: "diff_hunk \<Rightarrow> block_error + unit" where
  "check_hunk h =
     all_checks
       (ensure (count_ops [Context, Remove] h = dh_old_lines h \<and> count_ops [Context, Add] h = dh_new_lines h)
          HunkCounts
        # map (\<lambda>l. check_line ''a diff line'' (dl_text l)) (dh_lines h))"

fun block_validate :: "'v display_block \<Rightarrow> block_error + unit" where
  "block_validate (Text body _) = check_text body ''text''"
| "block_validate (Markdown body _) = check_text body ''text''"
| "block_validate (Code body lang start _) =
     all_checks [ensure (start \<noteq> Some 0) (LineNumber ''start_line''), check_text body ''text'',
       check_optional lang ''language'']"
| "block_validate (FileExcerpt path lang start ls _ _ full) =
     all_checks ([ensure (start \<noteq> 0) (LineNumber ''start_line''), check_text path ''path'',
         check_optional lang ''language'']
       @ map (check_line ''an excerpt line'') ls @ [check_artifact full])"
| "block_validate (Diff d) =
     all_checks ([check_text (db_path d) ''path'', check_optional (db_old_path d) ''old_path'',
         check_optional (db_language d) ''language'']
       @ map check_hunk (db_hunks d) @ [check_artifact (db_full d)])"
| "block_validate (Terminal segments _ _ full) =
     all_checks (map (\<lambda>s. ensure (is_terminal_safe (ts_text s)) (ControlCharacter ''terminal text'')) segments
       @ [check_artifact full])"
| "block_validate (KeyValue entries _) =
     all_checks (concat (map (\<lambda>e. [check_text (kv_key e) ''a key'', check_text (kv_value e) ''a value'']) entries))"
| "block_validate (Table columns rows _) =
     all_checks (map (\<lambda>c. check_text c ''a column'') columns
       @ concat (map (\<lambda>row. ensure (length row = length columns) TableShape
            # map (\<lambda>cell. check_text cell ''a cell'') row) rows))"
| "block_validate (Json _) = Inr ()"
| "block_validate (Media media alt) = all_checks [check_artifact (Some media), check_optional alt ''alt'']"
| "block_validate (Link url label) = all_checks [check_text url ''url'', check_optional label ''label'']"
| "block_validate (SessionRef _ short_id label) =
     all_checks [check_optional short_id ''short_id'', check_optional label ''label'']"
| "block_validate (Plan entries) = all_checks (map (\<lambda>e. check_text (pe_content e) ''a plan entry'') entries)"
| "block_validate (AssetFigure a) =
     all_checks
       [ensure (10 \<notin> set (ab_title a)) (ControlCharacter ''an asset title''),
        check_text (ab_title a) ''an asset title'', check_text (ab_media_type a) ''a media type'',
        ensure (byte_len (ab_sha256 a) = 64 \<and> list_all lower_hex (ab_sha256 a)) AssetDigest,
        check_optional (ab_filename a) ''a file name'']"

subsection \<open>Cleaning\<close>

definition clean :: "utext \<Rightarrow> utext" where
  "clean t = or_same (sanitize_display_text t) t"

definition clean_line :: "utext \<Rightarrow> utext" where
  "clean_line t = map (\<lambda>c. if c = 10 then 32 else c) (clean t)"

fun block_sanitize :: "'v display_block \<Rightarrow> 'v display_block" where
  "block_sanitize (Text body om) = Text (clean body) om"
| "block_sanitize (Markdown body om) = Markdown (clean body) om"
| "block_sanitize (Code body lang start om) = Code (clean body) (map_option clean lang) start om"
| "block_sanitize (FileExcerpt path lang start ls whole om full) =
     FileExcerpt (clean path) (map_option clean lang) start (map clean_line ls) whole om full"
| "block_sanitize (Diff d) =
     Diff (d\<lparr>db_path := clean (db_path d), db_old_path := map_option clean (db_old_path d),
       db_language := map_option clean (db_language d),
       db_hunks := map (dh_lines_update (map (dl_text_update clean_line))) (db_hunks d)\<rparr>)"
| "block_sanitize (Terminal segments code om full) =
     Terminal (map (ts_text_update (\<lambda>t. or_same (sanitize_terminal_text t) t)) segments) code om full"
| "block_sanitize (KeyValue entries om) =
     KeyValue (map (\<lambda>e. e\<lparr>kv_key := clean (kv_key e), kv_value := clean (kv_value e)\<rparr>) entries) om"
| "block_sanitize (Table columns rows om) = Table (map clean columns) (map (map clean) rows) om"
| "block_sanitize (Json v) = Json v"
| "block_sanitize (Media a alt) = Media a (map_option clean alt)"
| "block_sanitize (Link url label) = Link (clean url) (map_option clean label)"
| "block_sanitize (SessionRef sid short_id label) =
     SessionRef sid (map_option clean short_id) (map_option clean label)"
| "block_sanitize (Plan entries) = Plan (map (pe_content_update clean) entries)"
| "block_sanitize (AssetFigure a) =
     AssetFigure (a\<lparr>ab_title := clean_line (ab_title a), ab_media_type := clean_line (ab_media_type a),
       ab_filename := map_option clean_line (ab_filename a)\<rparr>)"

lemma clean_safe [simp]: "is_display_safe (clean t)"
  by (simp add: clean_def)

lemma clean_same: "is_display_safe t \<Longrightarrow> clean t = t"
  by (simp add: clean_def sanitize_display_text_def or_same_def sanitize_False_None [THEN iffD2])

lemma clean_clean [simp]: "clean (clean t) = clean t"
  by (simp add: clean_same)

lemma clean_line_safe [simp]: "is_display_safe (clean_line t)" "10 \<notin> set (clean_line t)"
proof -
  have "is_display_safe s \<Longrightarrow> is_display_safe (map (\<lambda>c. if c = 10 then 32 else c) s)" for s
    by (induction s) (auto simp: unsafe_character_def control_def)
  then show "is_display_safe (clean_line t)" by (simp add: clean_line_def)
  show "10 \<notin> set (clean_line t)" by (auto simp: clean_line_def)
qed

lemma clean_line_same: "is_display_safe t \<Longrightarrow> 10 \<notin> set t \<Longrightarrow> clean_line t = t"
  by (auto simp: clean_line_def clean_same intro!: map_idI)

lemma clean_line_twice [simp]: "clean_line (clean_line t) = clean_line t"
  by (simp add: clean_line_same)

lemma clean_option_twice [simp]: "map_option clean (map_option clean v) = map_option clean v"
  by (cases v) simp_all

lemma check_text_Inr [simp]: "check_text t w = Inr u \<longleftrightarrow> is_display_safe t"
  by (simp add: check_text_def)

lemma check_optional_Inr [simp]: "check_optional v w = Inr u \<longleftrightarrow> (\<forall>t\<in>set_option v. is_display_safe t)"
  by (cases v) (simp_all add: check_optional_def)

lemma check_line_Inr [simp]: "check_line w t = Inr u \<longleftrightarrow> is_display_safe t \<and> 10 \<notin> set t"
  by (auto simp: check_line_def all_checks_Inr)

lemma clean_checks [simp]:
  "check_text (clean t) w = Inr ()" "check_optional (map_option clean v) w = Inr ()"
  "check_line w (clean_line t) = Inr ()" "check_text (clean_line t) w = Inr ()"
  "check_optional (map_option clean_line v) w = Inr ()"
  by (cases v; simp)+

lemma check_artifact_no_control [simp]:
  "check_artifact a \<noteq> Inl (ControlCharacter w)" "check_artifact a \<noteq> Inl TooLarge"
  by (auto simp: check_artifact_def split: option.splits sum.splits)

text \<open>A result that is no complaint about a control character or about the size.\<close>

definition uncontrolled :: "block_error + unit \<Rightarrow> bool" where
  "uncontrolled r \<longleftrightarrow> r \<noteq> Inl TooLarge \<and> (\<forall>w. r \<noteq> Inl (ControlCharacter w))"

lemma uncontrolled_simps [simp]:
  "uncontrolled (Inr u)" "uncontrolled (check_artifact a)" "uncontrolled (ensure ok (LineNumber w))"
  "uncontrolled (ensure ok HunkCounts)" "uncontrolled (ensure ok TableShape)"
  "uncontrolled (ensure ok AssetDigest)" "uncontrolled (ensure True e)"
  by (auto simp: uncontrolled_def ensure_def)

lemma uncontrolled_checks: "(\<And>c. c \<in> set cs \<Longrightarrow> uncontrolled c) \<Longrightarrow> uncontrolled (all_checks cs)"
  unfolding uncontrolled_def using all_checks_Inl by fast

lemma check_hunk_clean: "uncontrolled (check_hunk (dh_lines_update (map (dl_text_update clean_line)) h))"
  unfolding check_hunk_def by (rule uncontrolled_checks) auto

lemma terminal_clean_twice [simp]:
  "or_same (sanitize_terminal_text (or_same (sanitize_terminal_text t) t)) (or_same (sanitize_terminal_text t) t)
   = or_same (sanitize_terminal_text t) t"
  using cleaned_terminal_safe [of t] unfolding is_terminal_safe_def by (simp add: or_same_def)

lemma sanitize_uncontrolled: "uncontrolled (block_validate (block_sanitize b))"
  by (cases b) (auto intro!: uncontrolled_checks simp: check_hunk_clean split: if_splits)

lemma sanitize_twice: "block_sanitize (block_sanitize b) = block_sanitize b"
  by (cases b) (simp_all add: comp_def option.map_comp)

text \<open>What is valid needs no cleaning.\<close>

lemma clean_option_same: "\<forall>t\<in>set_option v. is_display_safe t \<Longrightarrow> map_option clean v = v"
  by (cases v) (simp_all add: clean_same)

lemma hunk_same: "check_hunk h = Inr () \<Longrightarrow> dh_lines_update (map (dl_text_update clean_line)) h = h"
proof -
  assume "check_hunk h = Inr ()"
  then have "map (dl_text_update clean_line) (dh_lines h) = dh_lines h"
    by (auto simp: check_hunk_def all_checks_Inr clean_line_same intro!: map_idI diff_line.equality)
  then show ?thesis by (intro diff_hunk.equality) simp_all
qed

lemma row_same: "(\<And>t. t \<in> set row \<Longrightarrow> is_display_safe t) \<Longrightarrow> map clean row = row"
  by (auto intro!: map_idI clean_same)

lemma lines_same: "(\<And>t. t \<in> set ls \<Longrightarrow> is_display_safe t \<and> 10 \<notin> set t) \<Longrightarrow> map clean_line ls = ls"
  by (auto intro!: map_idI clean_line_same)

lemma valid_sanitize_same:
  assumes valid: "block_validate b = Inr ()" and "kind b \<noteq> ''asset''"
  shows "block_sanitize b = b"
proof (cases b)
  case (Diff d)
  have "map (dh_lines_update (map (dl_text_update clean_line))) (db_hunks d) = db_hunks d"
    using valid Diff by (auto simp: all_checks_Inr hunk_same intro!: map_idI)
  then show ?thesis
    using valid Diff by (simp add: all_checks_Inr clean_same clean_option_same)
next
  case (FileExcerpt path lang start ls whole om full)
  then show ?thesis
    using valid by (auto simp: all_checks_Inr clean_same clean_option_same intro!: lines_same)
next
  case (Terminal segments code om full)
  then show ?thesis
    using valid
    by (auto simp: all_checks_Inr is_terminal_safe_def or_same_def intro!: map_idI terminal_segment.equality)
next
  case (Table columns rows om)
  then have "map clean columns = columns" "map (map clean) rows = rows"
    using valid by (auto simp: all_checks_Inr ball_Un intro!: map_idI clean_same row_same)
  with Table show ?thesis by simp
next
  case (KeyValue entries om)
  then show ?thesis
    using valid by (auto simp: all_checks_Inr clean_same intro!: map_idI key_value_entry.equality)
next
  case (Plan entries)
  then show ?thesis
    using valid by (auto simp: all_checks_Inr clean_same intro!: map_idI plan_entry.equality)
qed (use assms in \<open>simp_all add: all_checks_Inr clean_same clean_option_same\<close>)

text \<open>
  C39. Cleaning a block takes out every control character that its check complains of: the check of
  a cleaned block never fails for one, cleaning again changes nothing, and a block that is valid,
  unless it is an asset's figure, is not changed at all.
\<close>

theorem cleaned_block_uncontrolled:
  "block_validate (block_sanitize b) \<noteq> Inl (ControlCharacter what)
   \<and> block_sanitize (block_sanitize b) = block_sanitize b
   \<and> (block_validate b \<noteq> Inr () \<or> kind b = ''asset'' \<or> block_sanitize b = b)"
  using sanitize_uncontrolled [of b] sanitize_twice valid_sanitize_same [of b]
  by (auto simp: uncontrolled_def)

text \<open>The media type of a figure may be valid with a line break that cleaning takes out.\<close>

lemma asset_cleaning_changes_valid:
  "\<exists>a. block_validate (AssetFigure a) = Inr () \<and> block_sanitize (AssetFigure a) \<noteq> AssetFigure a"
proof -
  let ?a = "\<lparr>ab_store = [], ab_asset = [], ab_handle = [], ab_title = [], ab_media_type = [10],
    ab_byte_length = 0, ab_sha256 = replicate 64 48, ab_filename = None\<rparr>"
  have "byte_len (replicate n 48) = n" for n
    by (induction n) (simp_all add: utf8_len_def)
  then have "block_validate (AssetFigure ?a) = Inr ()"
    by (simp add: all_checks_Inr unsafe_character_def lower_hex_def list_all_iff)
  moreover have "clean_line [10] = [32]"
    by (simp add: clean_line_def clean_same unsafe_character_def)
  ultimately show ?thesis by (intro exI [of _ ?a]) simp
qed

theorem cleaned_block_uncontrolled_witness:
  "block_sanitize (Text [97, 10] None :: nat display_block) = Text [97, 10] None"
  using cleaned_block_uncontrolled [of "Text [97, 10] None :: nat display_block"]
  by (simp add: unsafe_character_def control_def)

subsection \<open>The text of a block\<close>

text \<open>
  What the text is made with that is not in the repository: \<open>serde_json::to_string_pretty\<close>, and of
  the standard library the decimal text of a quotient of two numbers, as a number of decimals,
  and the debug form of a text.
\<close>

record 'v formatters =
  pretty_json :: "'v \<Rightarrow> utext"
  quotient_text :: "nat \<Rightarrow> u64 \<Rightarrow> u64 \<Rightarrow> utext"
  debug_text :: "utext \<Rightarrow> utext"

definition show_u64 :: "u64 \<Rightarrow> utext" where
  "show_u64 w = lit (show_nat (unat w))"

definition show_i32 :: "int \<Rightarrow> utext" where
  "show_i32 n = (if n < 0 then lit ''-'' @ lit (show_nat (nat (- n))) else lit (show_nat (nat n)))"

text \<open>\<open>char::is_whitespace\<close>.\<close>

definition white_space :: "nat \<Rightarrow> bool" where
  "white_space c \<longleftrightarrow> 9 \<le> c \<and> c \<le> 13 \<or> 8192 \<le> c \<and> c \<le> 8202
     \<or> c \<in> {32, 133, 160, 5760, 8232, 8233, 8239, 8287, 12288}"

definition human_bytes :: "'v formatters \<Rightarrow> u64 \<Rightarrow> utext" where
  "human_bytes fm bytes =
     (if bytes < 1024 then show_u64 bytes @ lit '' B''
      else if bytes < 1048576 then quotient_text fm 0 bytes 1024 @ lit '' KB''
      else if bytes < 1073741824 then quotient_text fm 1 bytes 1048576 @ lit '' MB''
      else quotient_text fm 1 bytes 1073741824 @ lit '' GB'')"

definition top_level_type :: "artifact_ref \<Rightarrow> utext" where
  "top_level_type a =
     (case split_once (ar_media_type a) (lit ''/'') of None \<Rightarrow> ar_media_type a | Some (main, _) \<Rightarrow> main)"

definition display_name :: "artifact_ref \<Rightarrow> utext" where
  "display_name a =
     (case ar_filename a of
        Some filename \<Rightarrow> filename
      | None \<Rightarrow> if is_char_boundary (ar_sha256 a) 12 then take_bytes 12 (ar_sha256 a) else ar_sha256 a)"

definition asset_summary :: "'v formatters \<Rightarrow> utext \<Rightarrow> utext \<Rightarrow> utext \<Rightarrow> u64 \<Rightarrow> utext" where
  "asset_summary fm handle title media_type bytes =
     handle @ lit '' '' @ debug_text fm title @ lit '' ('' @ media_type @ lit '', '' @ human_bytes fm bytes @ lit '')''"

definition asset_to_text :: "'v formatters \<Rightarrow> asset_block \<Rightarrow> utext" where
  "asset_to_text fm a =
     lit ''asset '' @ asset_summary fm (ab_handle a) (ab_title a) (ab_media_type a) (ab_byte_length a)"

definition new_line :: "utext \<Rightarrow> utext" where
  "new_line out = (if out \<noteq> [] \<and> last out \<noteq> 10 then out @ [10] else out)"

definition omitted_note :: "utext \<Rightarrow> u64 option \<Rightarrow> string \<Rightarrow> utext" where
  "omitted_note out omitted unit_name =
     (case omitted of
        None \<Rightarrow> out
      | Some count \<Rightarrow>
          if count > 0
          then new_line out @ [8230] @ lit '' '' @ show_u64 count @ lit '' more ''
            @ lit (if count = 1 then unit_name
                   else if unit_name = ''entry'' then ''entries'' else unit_name @ ''s'')
          else out)"

definition hunk_range :: "u64 \<Rightarrow> u64 \<Rightarrow> utext" where
  "hunk_range start ls = (if ls = 1 then show_u64 start else show_u64 start @ lit '','' @ show_u64 ls)"

fun diff_marker :: "diff_line_op \<Rightarrow> nat" where
  "diff_marker Context = 32"
| "diff_marker Add = 43"
| "diff_marker Remove = 45"

definition hunk_text :: "diff_hunk \<Rightarrow> utext" where
  "hunk_text h =
     [10] @ lit ''@@ -'' @ hunk_range (dh_old_start h) (dh_old_lines h) @ lit '' +''
       @ hunk_range (dh_new_start h) (dh_new_lines h) @ lit '' @@''
       @ concat (map (\<lambda>l. [10, diff_marker (dl_op l)] @ dl_text l) (dh_lines h))"

fun change_name :: "diff_change \<Rightarrow> string" where
  "change_name Created = ''created''"
| "change_name Deleted = ''deleted''"
| "change_name Renamed = ''renamed''"
| "change_name _ = ''modified''"

definition diff_text :: "diff_block \<Rightarrow> utext" where
  "diff_text d =
     (let old = (case db_old_path d of Some p \<Rightarrow> p | None \<Rightarrow> db_path d);
          (old, new) = (if db_change d = Created then (lit ''/dev/null'', db_path d)
                        else if db_change d = Deleted then (old, lit ''/dev/null'')
                        else (old, db_path d))
      in if db_hunks d = [] \<and> db_omitted d = None
         then db_path d @ lit '': '' @ lit (change_name (db_change d)) @ lit '' (+'' @ show_u64 (db_added d)
           @ lit '' -'' @ show_u64 (db_removed d) @ lit '')''
         else lit ''--- '' @ old @ [10] @ lit ''+++ '' @ new @ concat (map hunk_text (db_hunks d))
           @ (case db_omitted d of
                Some om \<Rightarrow>
                  if om_hunks om > 0
                  then [10, 8230] @ lit '' '' @ show_u64 (om_hunks om) @ lit '' more ''
                    @ lit (if om_hunks om = 1 then ''hunk'' else ''hunks'') @ lit '' ('' @ show_u64 (om_lines om)
                    @ lit '' '' @ lit (if om_lines om = 1 then ''line'' else ''lines'') @ lit '')''
                  else []
              | None \<Rightarrow> []))"

definition widen :: "nat list \<Rightarrow> utext list \<Rightarrow> nat list" where
  "widen widths row =
     map (\<lambda>(index, w). case nth_opt row index of Some cell \<Rightarrow> max w (length cell) | None \<Rightarrow> w)
       (enumerate 0 widths)"

definition table_line :: "nat list \<Rightarrow> utext \<Rightarrow> utext list \<Rightarrow> utext" where
  "table_line widths out cells =
     new_line out @ trim_end_of white_space
       (concat (map (\<lambda>(index, cell).
          (if index > 0 then [32, 32] else []) @ cell
          @ replicate ((case nth_opt widths index of Some w \<Rightarrow> w | None \<Rightarrow> 0) - length cell) 32)
        (enumerate 0 cells)))"

definition table_text :: "utext list \<Rightarrow> utext list list \<Rightarrow> utext" where
  "table_text columns rows =
     (let widths = foldl widen (map length columns) rows;
          out = table_line widths [] columns;
          out = table_line widths out (map (\<lambda>w. replicate w 45) widths)
      in foldl (table_line widths) out rows)"

definition pad_left :: "nat \<Rightarrow> utext \<Rightarrow> utext" where
  "pad_left width t = replicate (width - length t) 32 @ t"

fun plan_mark :: "plan_entry_status \<Rightarrow> string" where
  "plan_mark Completed = ''[x]''"
| "plan_mark InProgress = ''[~]''"
| "plan_mark _ = ''[ ]''"

fun to_text :: "'v formatters \<Rightarrow> 'v display_block \<Rightarrow> utext" where
  "to_text fm (Text body omitted) = omitted_note body omitted ''line''"
| "to_text fm (Markdown body omitted) = omitted_note body omitted ''line''"
| "to_text fm (Code body _ _ omitted) = omitted_note body omitted ''line''"
| "to_text fm (FileExcerpt path _ start ls _ omitted _) =
     (let width = length (show_u64 (start + of_nat (length ls - 1)))
      in omitted_note
           (path @ concat (map (\<lambda>(offset, line).
                [10] @ pad_left width (show_u64 (start + of_nat offset)) @ lit ''  '' @ line) (enumerate 0 ls)))
           omitted ''line'')"
| "to_text fm (Diff d) = diff_text d"
| "to_text fm (Terminal segments exit_code omitted _) =
     (let out = omitted_note (concat (map (\<lambda>s. strip_sgr (ts_text s)) segments)) omitted ''line''
      in case exit_code of
           None \<Rightarrow> out
         | Some code \<Rightarrow> new_line out @ lit ''[exit code '' @ show_i32 code @ lit '']'')"
| "to_text fm (KeyValue entries omitted) =
     omitted_note (foldl (\<lambda>out e. new_line out @ kv_key e @ lit '': '' @ kv_value e) [] entries) omitted ''entry''"
| "to_text fm (Table columns rows omitted) = omitted_note (table_text columns rows) omitted ''row''"
| "to_text fm (Json v) = pretty_json fm v"
| "to_text fm (Media a alt) =
     lit ''['' @ top_level_type a @ lit '': '' @ display_name a @ lit '', ''
       @ human_bytes fm (ar_byte_length a) @ lit '']''
       @ (case alt of Some t \<Rightarrow> lit '' '' @ t | None \<Rightarrow> [])"
| "to_text fm (Link url label) =
     (case label of Some t \<Rightarrow> t @ lit '' <'' @ url @ lit ''>'' | None \<Rightarrow> url)"
| "to_text fm (SessionRef sid short_id label) =
     lit ''session '' @ (case short_id of Some s \<Rightarrow> s | None \<Rightarrow> sid)
       @ (case label of Some t \<Rightarrow> lit '': '' @ t | None \<Rightarrow> [])"
| "to_text fm (Plan entries) =
     concat (map (\<lambda>(index, e). (if index > 0 then [10] else []) @ lit (plan_mark (pe_status e)) @ lit '' ''
       @ pe_content e) (enumerate 0 entries))"
| "to_text fm (AssetFigure a) = asset_to_text fm a"

definition display_text :: "'v formatters \<Rightarrow> 'v blocks \<Rightarrow> utext" where
  "display_text fm bs = join [10] (map (to_text fm) (List.map_filter known bs))"

subsubsection \<open>It is safe to show\<close>

text \<open>The texts of what is not checked: identifiers, JSON, and what the formatters make.\<close>

definition formatters_ok :: "'v formatters \<Rightarrow> bool" where
  "formatters_ok fm \<longleftrightarrow>
     (\<forall>n b u. is_display_safe (quotient_text fm n b u)) \<and> (\<forall>t. is_display_safe (debug_text fm t))"

fun plain_parts :: "'v formatters \<Rightarrow> 'v display_block \<Rightarrow> bool" where
  "plain_parts fm (Json v) \<longleftrightarrow> is_display_safe (pretty_json fm v)"
| "plain_parts fm (SessionRef sid _ _) \<longleftrightarrow> is_display_safe sid"
| "plain_parts fm (AssetFigure a) \<longleftrightarrow> is_display_safe (ab_handle a)"
| "plain_parts fm _ \<longleftrightarrow> True"

lemma safe_set: "is_display_safe t \<longleftrightarrow> (\<forall>c\<in>set t. \<not> unsafe_character c)"
  by (simp add: is_display_safe_def list_ex_iff)

lemma safe_concat: "is_display_safe (concat ts) \<longleftrightarrow> (\<forall>t\<in>set ts. is_display_safe t)"
  by (auto simp: safe_set)

lemma digits_safe: "is_display_safe (lit (show_nat n))"
  using show_nat_digits [of _ n]
  by (fastforce simp: safe_set lit_def is_ascii_digit_def unsafe_character_def control_def)

lemma show_safe [simp]: "is_display_safe (show_u64 w)" "is_display_safe (show_i32 n)"
  by (simp_all add: show_u64_def show_i32_def digits_safe) (simp add: lit_def unsafe_character_def control_def)

lemma plain_char [simp]: "\<not> unsafe_character 10" "32 \<le> c \<Longrightarrow> c < 127 \<Longrightarrow> \<not> unsafe_character c"
  "160 \<le> c \<Longrightarrow> \<not> unsafe_character c"
  by (auto simp: unsafe_character_def control_def)

lemma human_bytes_safe: "formatters_ok fm \<Longrightarrow> is_display_safe (human_bytes fm b)"
  by (simp add: human_bytes_def formatters_ok_def lit_def)

lemma new_line_safe [simp]: "is_display_safe (new_line out) \<longleftrightarrow> is_display_safe out"
  by (simp add: new_line_def)

definition plain_word :: "string \<Rightarrow> bool" where
  "plain_word w \<longleftrightarrow> is_display_safe (lit w)"

lemma omitted_note_safe:
  assumes "plain_word w" and "is_display_safe out"
  shows "is_display_safe (omitted_note out omitted w)"
  using assms by (auto simp: omitted_note_def plain_word_def lit_def split: option.splits)

lemma safe_replicate [simp]: "\<not> unsafe_character c \<Longrightarrow> is_display_safe (replicate n c)"
  by (induction n) simp_all

lemma trim_end_safe: "is_display_safe t \<Longrightarrow> is_display_safe (trim_end_of P t)"
  by (auto simp: safe_set trim_end_of_def dest: set_takeWhileD set_dropWhileD)

lemma table_line_safe:
  assumes "is_display_safe out" and "\<forall>t\<in>set cells. is_display_safe t"
  shows "is_display_safe (table_line widths out cells)"
proof -
  have "is_display_safe cell" if "(i, cell) \<in> set (enumerate 0 cells)" for i cell
    using that assms(2) by (auto simp: in_set_enumerate_eq)
  then show ?thesis
    using assms(1) by (auto simp: table_line_def safe_concat intro!: trim_end_safe)
qed

lemma table_text_safe:
  assumes "\<forall>t\<in>set columns. is_display_safe t" and "\<forall>row\<in>set rows. \<forall>t\<in>set row. is_display_safe t"
  shows "is_display_safe (table_text columns rows)"
proof -
  have all_rows: "is_display_safe out \<Longrightarrow> is_display_safe (foldl (table_line w) out rows)" for w out
    using assms(2) by (induction rows arbitrary: out) (auto intro: table_line_safe)
  then show ?thesis
    using assms(1) by (auto simp: table_text_def Let_def intro!: all_rows table_line_safe)
qed

lemma media_token_safe: "media_token t \<Longrightarrow> is_display_safe t"
proof -
  assume token: "media_token t"
  have "\<not> unsafe_character c" if "c \<in> set t" for c
  proof -
    from that obtain i where "i < length t" "t ! i = c"
      by (auto simp: in_set_conv_nth)
    then have "(i, c) \<in> set (enumerate 0 t)"
      by (simp add: in_set_enumerate_eq)
    then have "97 \<le> c \<and> c \<le> 122 \<or> 48 \<le> c \<and> c \<le> 57 \<or> c \<in> set (lit ''!#$&^_.+-'')"
      using token by (auto simp: media_token_def list_all_iff)
    then show ?thesis by (auto simp: lit_def)
  qed
  then show ?thesis by (simp add: safe_set)
qed

lemma valid_artifact_safe:
  assumes "artifact_validate a = Inr ()"
  shows "is_display_safe (top_level_type a)" "is_display_safe (display_name a)"
proof -
  show "is_display_safe (top_level_type a)"
    using assms by (auto simp: artifact_validate_def all_checks_Inr top_level_type_def media_token_safe
        split: option.splits)
  have "lower_hex c \<Longrightarrow> \<not> unsafe_character c" for c
    by (auto simp: lower_hex_def)
  then have "is_display_safe (ar_sha256 a)"
    using assms by (auto simp: artifact_validate_def all_checks_Inr safe_set list_all_iff)
  moreover have "set (take_bytes 12 (ar_sha256 a)) \<subseteq> set (ar_sha256 a)"
    using take_bytes_prefix set_mono_prefix by blast
  moreover have "ar_filename a = Some f \<Longrightarrow> is_display_safe f" for f
    using assms by (auto simp: artifact_validate_def all_checks_Inr safe_set unsafe_character_def list_ex_iff)
  ultimately show "is_display_safe (display_name a)"
    by (auto simp: display_name_def safe_set split: option.splits)
qed

lemma lit_words:
  "plain_word ''line''" "plain_word ''entry''" "plain_word ''row''" "plain_word (change_name ch)"
  "plain_word (plan_mark st)"
      apply (simp_all add: plain_word_def lit_def)
   apply (cases ch; simp)
  apply (cases st; simp)
  done

lemma hunk_text_safe:
  assumes "check_hunk h = Inr ()"
  shows "is_display_safe (hunk_text h)"
proof -
  have "is_display_safe (dl_text l)" if "l \<in> set (dh_lines h)" for l
    using assms that by (auto simp: check_hunk_def all_checks_Inr)
  moreover have "\<not> unsafe_character (diff_marker op)" for op
    by (cases op) simp_all
  ultimately show ?thesis
    by (auto simp: hunk_text_def safe_concat hunk_range_def lit_def)
qed

lemma diff_text_safe:
  assumes "block_validate (Diff d) = Inr ()"
  shows "is_display_safe (diff_text d)"
proof -
  have path: "is_display_safe (db_path d)"
    and old: "is_display_safe (case db_old_path d of Some p \<Rightarrow> p | None \<Rightarrow> db_path d)"
    and hunks: "is_display_safe (concat (map hunk_text (db_hunks d)))"
    using assms by (auto simp: all_checks_Inr ball_Un safe_concat hunk_text_safe split: option.splits)
  have names: "is_display_safe (lit (change_name ch))" for ch
    using lit_words(4) by (simp add: plain_word_def)
  have words: "is_display_safe (lit ''/dev/null'')" "is_display_safe (lit '': '')" "is_display_safe (lit '' (+'')"
    "is_display_safe (lit '' -'')" "is_display_safe (lit '')'')" "is_display_safe (lit ''--- '')"
    "is_display_safe (lit ''+++ '')" "is_display_safe (lit '' '')" "is_display_safe (lit '' more '')"
    "is_display_safe (lit '' ('')" "is_display_safe (lit ''hunk'')" "is_display_safe (lit ''hunks'')"
    "is_display_safe (lit ''line'')" "is_display_safe (lit ''lines'')"
    "is_display_safe (lit ''created'')" "is_display_safe (lit ''deleted'')"
    by (simp_all add: lit_def)
  have left_out: "is_display_safe (case db_omitted d of
                Some om \<Rightarrow>
                  if om_hunks om > 0
                  then [10, 8230] @ lit '' '' @ show_u64 (om_hunks om) @ lit '' more ''
                    @ lit (if om_hunks om = 1 then ''hunk'' else ''hunks'') @ lit '' ('' @ show_u64 (om_lines om)
                    @ lit '' '' @ lit (if om_lines om = 1 then ''line'' else ''lines'') @ lit '')''
                  else []
              | None \<Rightarrow> [])"
    by (simp add: words split: option.split)
  show ?thesis
    unfolding diff_text_def Let_def
    by (simp only: prod.case if_distrib [of fst] split: if_split)
      (simp add: path old hunks names words left_out)
qed

lemma key_value_safe:
  assumes "\<forall>e\<in>set entries. is_display_safe (kv_key e) \<and> is_display_safe (kv_value e)" and "is_display_safe out"
  shows "is_display_safe (foldl (\<lambda>out e. new_line out @ kv_key e @ lit '': '' @ kv_value e) out entries)"
  using assms by (induction entries arbitrary: out) (auto simp: lit_def)

lemma excerpt_safe:
  assumes "\<forall>t\<in>set ls. is_display_safe t"
  shows "is_display_safe (concat (map (\<lambda>(offset, line).
                [10] @ pad_left width (show_u64 (start + of_nat offset)) @ lit ''  '' @ line) (enumerate 0 ls)))"
proof -
  have "is_display_safe line" if "(i, line) \<in> set (enumerate 0 ls)" for i line
    using that assms by (auto simp: in_set_enumerate_eq)
  then show ?thesis by (auto simp: safe_concat pad_left_def lit_def)
qed

lemma plan_safe:
  assumes "\<forall>e\<in>set entries. is_display_safe (pe_content e)"
  shows "is_display_safe (concat (map (\<lambda>(index, e). (if index > 0 then [10] else [])
       @ lit (plan_mark (pe_status e)) @ lit '' '' @ pe_content e) (enumerate 0 entries)))"
proof -
  have "is_display_safe (pe_content e)" if "(i, e) \<in> set (enumerate 0 entries)" for i e
    using that assms by (auto simp: in_set_enumerate_eq)
  moreover have "is_display_safe (lit (plan_mark st))" for st
    using lit_words(5) by (simp add: plain_word_def)
  ultimately show ?thesis by (auto simp: safe_concat) (auto simp: lit_def)
qed

lemma to_text_safe:
  assumes valid: "block_validate b = Inr ()" and "formatters_ok fm" and "plain_parts fm b"
  shows "is_display_safe (to_text fm b)"
proof (cases b)
  case (FileExcerpt path lang start ls whole om full)
  then show ?thesis
    using valid excerpt_safe [of ls _ start]
    by (auto simp: all_checks_Inr ball_Un Let_def intro!: omitted_note_safe lit_words)
next
  case (Diff d)
  then show ?thesis using valid diff_text_safe by simp
next
  case (Terminal segments code om full)
  then have "is_display_safe (omitted_note (concat (map (\<lambda>s. strip_sgr (ts_text s)) segments)) om ''line'')"
    by (auto simp: safe_concat intro!: omitted_note_safe lit_words)
  with Terminal show ?thesis by (auto simp: lit_def Let_def split: option.splits)
next
  case (KeyValue entries om)
  then show ?thesis
    using valid by (auto simp: all_checks_Inr intro!: omitted_note_safe lit_words key_value_safe)
next
  case (Table columns rows om)
  then show ?thesis
    using valid by (auto simp: all_checks_Inr ball_Un intro!: omitted_note_safe lit_words table_text_safe)
next
  case (Media a alt)
  then have "artifact_validate a = Inr ()" "\<forall>t\<in>set_option alt. is_display_safe t"
    using valid by (auto simp: all_checks_Inr check_artifact_def split: sum.splits)
  with Media assms(2) show ?thesis
    using valid_artifact_safe [of a] human_bytes_safe [of fm] by (auto simp: lit_def split: option.splits)
next
  case (Plan entries)
  then show ?thesis using valid plan_safe [of entries] by (auto simp: all_checks_Inr)
next
  case (AssetFigure a)
  then show ?thesis
    using assms human_bytes_safe [of fm]
    by (auto simp: all_checks_Inr asset_to_text_def asset_summary_def formatters_ok_def lit_def)
next
  case (Link url label)
  then show ?thesis using valid by (auto simp: all_checks_Inr lit_def split: option.splits)
next
  case (SessionRef sid short_id label)
  then show ?thesis using assms by (auto simp: all_checks_Inr lit_def split: option.splits)
qed (use assms in \<open>auto intro: omitted_note_safe lit_words simp: all_checks_Inr\<close>)

text \<open>
  A JSON value is not checked nor cleaned: \<open>serde_json\<close> escapes the characters below 32 only, so that
  the other control characters of a string in it reach the block's text.
\<close>

lemma json_text_unchecked:
  assumes "pretty_json fm [155] = [34, 155, 34]"
  shows "block_validate (block_sanitize (Json [155])) = Inr () \<and> \<not> is_display_safe (to_text fm (Json [155]))"
  using assms by (simp add: unsafe_character_def control_def)

end
