(* ===== verification/Display_Fit.thy ===== *)
theory Display_Fit
  imports Display_Blocks
begin

text \<open>
  Fitting displays into their budget, live displays and their deltas, and what an older client is
  sent (\<open>crates/protocol/src/display.rs\<close>). The length of a value's JSON is \<open>serde_json\<close>'s: that of
  a block and of a value are parameters, and so is that of an array from those of its elements.
\<close>

record 'v sizes =
  block_len :: "'v display_block \<Rightarrow> nat"
  value_len :: "'v \<Rightarrow> nat"
  array_len :: "nat list \<Rightarrow> nat"

text \<open>\<open>serde_json::to_vec\<close> writes arrays with brackets and commas and nothing else.\<close>

definition compact :: "'v sizes \<Rightarrow> bool" where
  "compact sz \<longleftrightarrow> (\<forall>ls. array_len sz ls = 2 + sum_list ls + (length ls - 1))"

fun opened_len :: "'v sizes \<Rightarrow> ('v display_block, 'v) opened \<Rightarrow> nat" where
  "opened_len sz (Known b) = block_len sz b"
| "opened_len sz (Unknown tag raw) = value_len sz raw"

definition blocks_len :: "'v sizes \<Rightarrow> 'v blocks \<Rightarrow> nat" where
  "blocks_len sz bs = array_len sz (map (opened_len sz) bs)"

definition known_len :: "'v sizes \<Rightarrow> 'v display_block list \<Rightarrow> nat" where
  "known_len sz bs = array_len sz (map (block_len sz) bs)"

definition DISPLAY_BUDGET_BYTES :: nat where
  "DISPLAY_BUDGET_BYTES = 65536"

subsection \<open>Cutting a block\<close>

fun split_inclusive :: "utext \<Rightarrow> utext list" where
  "split_inclusive [] = []"
| "split_inclusive (c # t) =
     (if c = 10 then [c] # split_inclusive t
      else case split_inclusive t of [] \<Rightarrow> [[c]] | p # ps \<Rightarrow> (c # p) # ps)"

fun unit_count :: "'v display_block \<Rightarrow> nat option" where
  "unit_count (Text body _) = Some (length (split_inclusive body))"
| "unit_count (Markdown body _) = Some (length (split_inclusive body))"
| "unit_count (Code body _ _ _) = Some (length (split_inclusive body))"
| "unit_count (FileExcerpt _ _ _ ls _ _ _) = Some (length ls)"
| "unit_count (Diff d) = Some (length (db_hunks d))"
| "unit_count (Terminal segments _ _ _) =
     Some (sum_list (map (\<lambda>s. length (split_inclusive (ts_text s))) segments))"
| "unit_count (KeyValue entries _) = Some (length entries)"
| "unit_count (Table _ rows _) = Some (length rows)"
| "unit_count _ = None"

definition omitted :: "u64 option \<Rightarrow> nat \<Rightarrow> u64 option" where
  "omitted previous dropped =
     (let whole = (case previous of Some n \<Rightarrow> n | None \<Rightarrow> 0) + of_nat dropped
      in if whole > 0 then Some whole else None)"

definition head :: "utext \<Rightarrow> nat \<Rightarrow> utext \<times> nat" where
  "head t kept =
     (let pieces = split_inclusive t; kept = min kept (length pieces)
      in (concat (take kept pieces), length pieces - kept))"

text \<open>The closure that the segments of a terminal are retained by, with its two counters.\<close>

fun keep_segments :: "nat \<Rightarrow> nat \<Rightarrow> terminal_segment list \<Rightarrow> terminal_segment list \<times> nat" where
  "keep_segments remaining dropped [] = ([], dropped)"
| "keep_segments remaining dropped (s # segments) =
     (let (kept_text, segment_dropped) = head (ts_text s) remaining;
          remaining = remaining - (length (split_inclusive (ts_text s)) - segment_dropped);
          (kept, all_dropped) = keep_segments remaining (dropped + segment_dropped) segments
      in (if kept_text \<noteq> [] then s\<lparr>ts_text := kept_text\<rparr> # kept else kept, all_dropped))"

fun keep_units :: "nat \<Rightarrow> 'v display_block \<Rightarrow> 'v display_block" where
  "keep_units kept (Text body om) = (let (t, dropped) = head body kept in Text t (omitted om dropped))"
| "keep_units kept (Markdown body om) = (let (t, dropped) = head body kept in Markdown t (omitted om dropped))"
| "keep_units kept (Code body lang start om) =
     (let (t, dropped) = head body kept in Code t lang start (omitted om dropped))"
| "keep_units kept (FileExcerpt path lang start ls whole om full) =
     FileExcerpt path lang start (take kept ls) whole (omitted om (length ls - kept)) full"
| "keep_units kept (Diff d) =
     (let dropped = drop (min kept (length (db_hunks d))) (db_hunks d);
          d' = d\<lparr>db_hunks := take (min kept (length (db_hunks d))) (db_hunks d)\<rparr>
      in if dropped = [] then Diff d'
         else (let previous = (case db_omitted d of Some om \<Rightarrow> om | None \<Rightarrow> \<lparr>om_hunks = 0, om_lines = 0\<rparr>)
               in Diff (d'\<lparr>db_omitted := Some
                    \<lparr>om_hunks = om_hunks previous + of_nat (length dropped),
                     om_lines = om_lines previous + sum_list (map (\<lambda>h. of_nat (length (dh_lines h))) dropped)\<rparr>\<rparr>)))"
| "keep_units kept (Terminal segments code om full) =
     (let (segments, dropped) = keep_segments kept 0 segments in Terminal segments code (omitted om dropped) full)"
| "keep_units kept (KeyValue entries om) = KeyValue (take kept entries) (omitted om (length entries - kept))"
| "keep_units kept (Table columns rows om) = Table columns (take kept rows) (omitted om (length rows - kept))"
| "keep_units kept b = b"

text \<open>
  The binary search of \<open>cut_to\<close>. \<open>high\<close> is an integer as it may be one below \<open>low\<close>, which is at
  least 1: the code's \<open>usize\<close> does not underflow.
\<close>

function search_cut :: "(nat \<Rightarrow> 'a option) \<Rightarrow> int \<Rightarrow> int \<Rightarrow> 'a \<Rightarrow> 'a" where
  "search_cut fits low high best =
     (if low \<le> high
      then (let middle = low + (high - low) div 2
            in case fits (nat middle) of
                 Some best \<Rightarrow> search_cut fits (middle + 1) high best
               | None \<Rightarrow> search_cut fits low (middle - 1) best)
      else best)"
  by pat_completeness auto
termination
  by (relation "measure (\<lambda>(fits, low, high, best). nat (high + 1 - low))") auto

declare search_cut.simps [simp del]

definition cut_to :: "'v sizes \<Rightarrow> 'v display_block \<Rightarrow> nat \<Rightarrow> 'v display_block option" where
  "cut_to sz b limit =
     (case unit_count b of
        None \<Rightarrow> None
      | Some units \<Rightarrow>
          (let fits = (\<lambda>kept. let part = keep_units kept b in if block_len sz part \<le> limit then Some part else None)
           in case fits 0 of
                None \<Rightarrow> None
              | Some best \<Rightarrow> Some (search_cut fits 1 (int units) best)))"

subsection \<open>Fitting a list\<close>

definition USIZE_MAX :: nat where "USIZE_MAX = 2 ^ 64 - 1"

definition saturating_add :: "nat \<Rightarrow> nat \<Rightarrow> nat" where
  "saturating_add a b = min (a + b) USIZE_MAX"

fun fit_loop :: "'v sizes \<Rightarrow> nat \<Rightarrow> nat \<Rightarrow> 'v display_block list \<Rightarrow> 'v display_block list \<Rightarrow> 'v display_block list" where
  "fit_loop sz budget used kept [] = kept"
| "fit_loop sz budget used kept (b # bs) =
     (let separator = (if kept \<noteq> [] then 1 else 0)
      in if budget < used + separator then kept
         else (let remaining = budget - (used + separator);
                   later = foldl saturating_add 0 (map (\<lambda>b. saturating_add (block_len sz b) 1) bs);
                   chosen = (if block_len sz b \<le> remaining then Some b
                             else cut_to sz b (if later \<le> remaining then remaining - later else remaining))
               in case chosen of
                    Some c \<Rightarrow> fit_loop sz budget (used + (separator + block_len sz c)) (kept @ [c]) bs
                  | None \<Rightarrow> fit_loop sz budget used kept bs))"

definition fit_display_budget :: "'v sizes \<Rightarrow> 'v display_block list \<Rightarrow> nat \<Rightarrow> 'v display_block list" where
  "fit_display_budget sz bs budget =
     (if known_len sz bs \<le> budget then bs else fit_loop sz budget 2 [] bs)"

definition text_display :: "utext \<Rightarrow> 'v blocks" where
  "text_display t = (if t = [] then [] else [Known (Text t None)])"

definition fit_result_display :: "'v sizes \<Rightarrow> 'v blocks \<Rightarrow> 'v blocks" where
  "fit_result_display sz bs =
     map Known (fit_display_budget sz (map block_sanitize (List.map_filter known bs)) DISPLAY_BUDGET_BYTES)"

fun take_unknown_blocks :: "'v blocks \<Rightarrow> 'v blocks \<times> utext list" where
  "take_unknown_blocks [] = ([], [])"
| "take_unknown_blocks (Known b # bs) = (let (kept, tags) = take_unknown_blocks bs in (Known b # kept, tags))"
| "take_unknown_blocks (Unknown tag raw # bs) = (let (kept, tags) = take_unknown_blocks bs in (kept, tag # tags))"

definition validate_display :: "'v sizes \<Rightarrow> 'v blocks \<Rightarrow> block_error + unit" where
  "validate_display sz bs =
     all_checks (map block_validate (List.map_filter known bs)
       @ [ensure (blocks_len sz bs \<le> DISPLAY_BUDGET_BYTES) TooLarge])"

subsubsection \<open>What a cut keeps\<close>

lemma split_inclusive_concat [simp]: "concat (split_inclusive t) = t"
  by (induction t) (auto split: list.splits)

lemma split_inclusive_word:
  "10 \<notin> set w \<Longrightarrow> w \<noteq> [] \<Longrightarrow>
    split_inclusive (w @ t) = (case split_inclusive t of [] \<Rightarrow> [w] | p # ps \<Rightarrow> (w @ p) # ps)"
proof (induction w)
  case (Cons a w)
  then show ?case by (cases "w = []") (auto split: list.splits)
qed simp

lemma pieces_safe: "is_display_safe t \<Longrightarrow> p \<in> set (split_inclusive t) \<Longrightarrow> is_display_safe p"
proof -
  assume safe: "is_display_safe t" and p: "p \<in> set (split_inclusive t)"
  have "set p \<subseteq> set (concat (split_inclusive t))"
    using p unfolding set_concat by blast
  with safe show ?thesis by (auto simp: safe_set)
qed

lemma parameters_line: "list_all sgr_parameter ps \<Longrightarrow> 10 \<notin> set ps"
  by (auto simp: list_all_iff sgr_parameter_def)

lemma pieces_terminal: "terminal_text t \<Longrightarrow> p \<in> set (split_inclusive t) \<Longrightarrow> terminal_text p"
proof (induction arbitrary: p rule: terminal_text.induct)
  case (plain c t)
  then show ?case
    by (auto intro: terminal_text.intros split: list.splits if_splits)
next
  case (colour ps t)
  have "split_inclusive ((27 # 91 # ps @ [109]) @ t)
      = (case split_inclusive t of [] \<Rightarrow> [27 # 91 # ps @ [109]] | p # ps' \<Rightarrow> ((27 # 91 # ps @ [109]) @ p) # ps')"
    using parameters_line [OF colour(1)] by (intro split_inclusive_word) auto
  then show ?case
    using colour terminal_text.colour [OF colour(1)] terminal_text.empty
    by (auto split: list.splits)
qed simp

lemma head_in: "head t k = (h, d) \<Longrightarrow> \<exists>ps. set ps \<subseteq> set (split_inclusive t) \<and> h = concat ps"
  by (auto simp: head_def Let_def dest: in_set_takeD)

lemma head_safe: "head t k = (h, d) \<Longrightarrow> is_display_safe t \<Longrightarrow> is_display_safe h"
  by (metis head_in safe_concat pieces_safe subsetD)

lemma concat_terminal: "(\<And>t. t \<in> set ts \<Longrightarrow> terminal_text t) \<Longrightarrow> terminal_text (concat ts)"
  by (induction ts) (auto intro: terminal_text.empty terminal_text_append)

lemma head_terminal: "head t k = (h, d) \<Longrightarrow> is_terminal_safe t \<Longrightarrow> is_terminal_safe h"
  by (auto simp: terminal_safe_iff dest!: head_in intro!: concat_terminal intro: pieces_terminal)

lemma keep_segments_safe:
  "keep_segments r d segments = (kept, d') \<Longrightarrow> \<forall>s\<in>set segments. is_terminal_safe (ts_text s)
    \<Longrightarrow> \<forall>s\<in>set kept. is_terminal_safe (ts_text s)"
proof (induction r d segments arbitrary: kept d' rule: keep_segments.induct)
  case (2 r d s segments)
  obtain h n where h: "head (ts_text s) r = (h, n)" by fastforce
  obtain ks m where ks: "keep_segments (r - (length (split_inclusive (ts_text s)) - n)) (d + n) segments = (ks, m)"
    by fastforce
  have "\<forall>s\<in>set ks. is_terminal_safe (ts_text s)"
    using 2(1) [OF h [symmetric] refl refl ks] 2(3) by simp
  moreover have "is_terminal_safe h" using head_terminal [OF h] 2(3) by simp
  ultimately show ?case using 2(2) by (auto simp: h ks split: if_splits)
qed simp

text \<open>A cut of a valid block is valid, and a cut of a cleaned block is clean.\<close>

lemma keep_units_valid:
  assumes "block_validate b = Inr ()"
  shows "block_validate (keep_units k b) = Inr ()"
proof (cases b)
  case (Terminal segments code om full)
  then show ?thesis
    using assms by (auto simp: all_checks_Inr ball_Un split: prod.splits dest: keep_segments_safe)
qed (use assms in
    \<open>auto simp: all_checks_Inr ball_Un Let_def split: prod.splits dest: in_set_takeD head_safe\<close>)

lemma clean_iff: "clean t = t \<longleftrightarrow> is_display_safe t"
  using clean_safe [of t] clean_same [of t] by metis

lemma terminal_clean_iff:
  "map (ts_text_update (\<lambda>t. or_same (sanitize_terminal_text t) t)) segments = segments
   \<longleftrightarrow> (\<forall>s\<in>set segments. is_terminal_safe (ts_text s))"
proof -
  have "ts_text_update (\<lambda>t. or_same (sanitize_terminal_text t) t) s = s \<longleftrightarrow> is_terminal_safe (ts_text s)" for s
  proof -
    have "ts_text_update (\<lambda>t. or_same (sanitize_terminal_text t) t) s = s
        \<longleftrightarrow> or_same (sanitize_terminal_text (ts_text s)) (ts_text s) = ts_text s"
      by (cases s) simp
    moreover have "is_terminal_safe (ts_text s)" if "or_same (sanitize_terminal_text (ts_text s)) (ts_text s) = ts_text s"
      using that cleaned_terminal_safe [of "ts_text s"] by simp
    ultimately show ?thesis by (auto simp: is_terminal_safe_def or_same_def)
  qed
  then show ?thesis by (induction segments) auto
qed

lemma map_same_take: "map f xs = xs \<Longrightarrow> map f (take k xs) = take k xs"
  by (metis take_map)

lemma keep_units_clean:
  assumes "block_sanitize b = b"
  shows "block_sanitize (keep_units k b) = keep_units k b"
proof (cases b)
  case (Terminal segments code om full)
  then show ?thesis
    using assms by (auto simp: terminal_clean_iff split: prod.splits dest: keep_segments_safe)
next
  case (Diff d)
  then have "d = d\<lparr>db_path := clean (db_path d), db_old_path := map_option clean (db_old_path d),
       db_language := map_option clean (db_language d),
       db_hunks := map (dh_lines_update (map (dl_text_update clean_line))) (db_hunks d)\<rparr>"
    using assms by simp
  from arg_cong [OF this, of db_path] arg_cong [OF this, of db_old_path]
    arg_cong [OF this, of db_language] arg_cong [OF this, of db_hunks]
  have "clean (db_path d) = db_path d" "map_option clean (db_old_path d) = db_old_path d"
    "map_option clean (db_language d) = db_language d"
    "map (dh_lines_update (map (dl_text_update clean_line))) (db_hunks d) = db_hunks d"
    by simp_all
  with Diff show ?thesis by (simp add: Let_def map_same_take)
qed (use assms in \<open>auto simp: clean_iff map_same_take split: prod.splits dest: head_safe\<close>)

lemma cut_of_clean_uncontrolled: "uncontrolled (block_validate (keep_units k (block_sanitize b)))"
  using sanitize_uncontrolled [of "keep_units k (block_sanitize b)"]
  by (simp add: keep_units_clean sanitize_twice)

subsubsection \<open>What fitting gives\<close>

lemma search_cut_found:
  "P best \<Longrightarrow> (\<And>k c. fits k = Some c \<Longrightarrow> P c) \<Longrightarrow> P (search_cut fits low high best)"
proof (induction fits low high best rule: search_cut.induct)
  case (1 fits low high best)
  show ?case
    using 1 by (subst search_cut.simps) (auto simp: Let_def split: option.splits)
qed

lemma cut_to_Some:
  assumes "cut_to sz b limit = Some c"
  shows "block_len sz c \<le> limit \<and> (\<exists>k. c = keep_units k b)"
proof -
  define fits where "fits = (\<lambda>kept. if block_len sz (keep_units kept b) \<le> limit
    then Some (keep_units kept b) else None)"
  have fit: "fits k = Some x \<Longrightarrow> block_len sz x \<le> limit \<and> (\<exists>k. x = keep_units k b)" for k x
    by (auto simp: fits_def split: if_splits)
  obtain units best where "unit_count b = Some units" "fits 0 = Some best"
    and c: "c = search_cut fits 1 (int units) best"
    using assms unfolding cut_to_def Let_def fits_def [symmetric] by (auto split: option.splits)
  then show ?thesis
    using search_cut_found [of "\<lambda>x. block_len sz x \<le> limit \<and> (\<exists>k. x = keep_units k b)" best fits] fit by blast
qed

text \<open>Blocks in order, each whole, cut or left out.\<close>

inductive fitted :: "'v display_block list \<Rightarrow> 'v display_block list \<Rightarrow> bool" where
  none: "fitted [] []"
| whole: "fitted bs cs \<Longrightarrow> fitted (b # bs) (b # cs)"
| part: "fitted bs cs \<Longrightarrow> fitted (b # bs) (keep_units k b # cs)"
| dropped: "fitted bs cs \<Longrightarrow> fitted (b # bs) cs"

lemma fitted_Nil: "fitted bs []"
  by (induction bs) (auto intro: fitted.intros)

lemma fitted_same: "fitted bs bs"
  by (induction bs) (auto intro: fitted.intros)

lemma fitted_all:
  "fitted bs cs \<Longrightarrow> (\<And>b. b \<in> set bs \<Longrightarrow> P b) \<Longrightarrow> (\<And>b k. P b \<Longrightarrow> P (keep_units k b)) \<Longrightarrow> c \<in> set cs \<Longrightarrow> P c"
  by (induction arbitrary: c rule: fitted.induct) auto

definition compact_len :: "'v sizes \<Rightarrow> 'v display_block list \<Rightarrow> nat" where
  "compact_len sz bs = 2 + sum_list (map (block_len sz) bs) + (length bs - 1)"

lemma known_len_compact: "compact sz \<Longrightarrow> known_len sz bs = compact_len sz bs"
  by (simp add: compact_def known_len_def compact_len_def)

lemma compact_len_snoc:
  "compact_len sz (kept @ [c]) = compact_len sz kept + (if kept \<noteq> [] then 1 else 0) + block_len sz c"
  by (cases kept) (simp_all add: compact_len_def)

lemma fit_loop_cases:
  obtains (stop) "fit_loop sz budget used kept (b # bs) = kept"
  | (take) c where "c = b \<or> (\<exists>k. c = keep_units k b)"
      "used + (if kept \<noteq> [] then 1 else 0) + block_len sz c \<le> budget"
      "fit_loop sz budget used kept (b # bs)
       = fit_loop sz budget (used + ((if kept \<noteq> [] then 1 else 0) + block_len sz c)) (kept @ [c]) bs"
  | (leave) "fit_loop sz budget used kept (b # bs) = fit_loop sz budget used kept bs"
proof -
  define separator :: nat where "separator = (if kept \<noteq> [] then 1 else 0)"
  define remaining where "remaining = budget - (used + separator)"
  define later where "later = foldl saturating_add 0 (map (\<lambda>b. saturating_add (block_len sz b) 1) bs)"
  define chosen where "chosen = (if block_len sz b \<le> remaining then Some b
     else cut_to sz b (if later \<le> remaining then remaining - later else remaining))"
  have step: "fit_loop sz budget used kept (b # bs) =
      (if budget < used + separator then kept
       else case chosen of
          Some c \<Rightarrow> fit_loop sz budget (used + (separator + block_len sz c)) (kept @ [c]) bs
        | None \<Rightarrow> fit_loop sz budget used kept bs)"
    by (simp only: fit_loop.simps Let_def separator_def remaining_def later_def chosen_def)
  have fits: "(c = b \<or> (\<exists>k. c = keep_units k b)) \<and> block_len sz c \<le> remaining" if "chosen = Some c" for c
  proof (cases "block_len sz b \<le> remaining")
    case False
    then have "cut_to sz b (if later \<le> remaining then remaining - later else remaining) = Some c"
      using that by (simp add: chosen_def)
    from cut_to_Some [OF this] show ?thesis by (auto split: if_splits)
  qed (use that in \<open>simp add: chosen_def\<close>)
  consider "budget < used + separator" | "\<not> budget < used + separator" "chosen = None"
    | c where "\<not> budget < used + separator" "chosen = Some c"
    by (cases chosen) auto
  then show thesis
  proof cases
    case 1
    with step stop show ?thesis by simp
  next
    case 2
    with step leave show ?thesis by simp
  next
    case 3
    then have "used + separator + block_len sz c \<le> budget"
      using fits [of c] unfolding remaining_def by linarith
    with 3 step fits [of c] take [of c] show ?thesis by (simp add: separator_def)
  qed
qed

declare fit_loop.simps(2) [simp del]

lemma fit_loop_fitted: "\<exists>cs. fit_loop sz budget used kept bs = kept @ cs \<and> fitted bs cs"
proof (induction bs arbitrary: used kept)
  case (Cons b bs)
  show ?case
  proof (cases rule: fit_loop_cases [of sz budget used kept b bs])
    case (take c)
    with Cons [of "used + ((if kept \<noteq> [] then 1 else 0) + block_len sz c)" "kept @ [c]"]
    obtain cs where "fit_loop sz budget used kept (b # bs) = kept @ c # cs" "fitted bs cs" by auto
    with take(1) show ?thesis by (auto intro: fitted.intros)
  next
    case leave
    with Cons [of used kept] show ?thesis by (metis fitted.dropped)
  qed (simp add: fitted_Nil)
qed (simp add: fitted.none)

lemma fit_loop_len:
  "used = compact_len sz kept \<Longrightarrow> used \<le> max 2 budget \<Longrightarrow>
    compact_len sz (fit_loop sz budget used kept bs) \<le> max 2 budget"
proof (induction bs arbitrary: used kept)
  case (Cons b bs)
  show ?case
  proof (cases rule: fit_loop_cases [of sz budget used kept b bs])
    case (take c)
    have "compact_len sz (fit_loop sz budget (used + ((if kept \<noteq> [] then 1 else 0) + block_len sz c)) (kept @ [c]) bs)
        \<le> max 2 budget"
      using take(2) Cons.prems by (intro Cons.IH) (simp_all add: compact_len_snoc)
    with take(3) show ?thesis by simp
  qed (use Cons in simp_all)
qed simp

lemma fit_budget_fitted: "fitted bs (fit_display_budget sz bs budget)"
  using fit_loop_fitted [of sz budget 2 "[]" bs] by (auto simp: fit_display_budget_def fitted_same)

lemma fit_budget_len: "compact sz \<Longrightarrow> known_len sz (fit_display_budget sz bs budget) \<le> max 2 budget"
  using fit_loop_len [of 2 sz "[]" budget bs]
  by (auto simp: fit_display_budget_def known_len_compact) (simp add: compact_len_def)

lemma map_filter_known [simp]: "List.map_filter known (map Known bs) = bs"
  by (induction bs) (simp_all add: map_filter_simps)

lemma blocks_len_known [simp]: "blocks_len sz (map Known bs) = known_len sz bs"
  by (simp add: blocks_len_def known_len_def comp_def)

lemma in_known: "b \<in> set (List.map_filter known bs) \<longleftrightarrow> Known b \<in> set bs"
proof (induction bs)
  case (Cons x bs)
  then show ?case by (cases x) (auto simp: map_filter_simps)
qed (simp add: map_filter_simps)

text \<open>
  C16. What the daemon stores of a result's display is what a writer may send: the blocks it knows,
  in order, each whole, cut to its first units or left out, in no more than the budget; the check
  never fails for the size or for a control character, whatever a runtime or a plugin sent, and it
  passes when the blocks that were sent had no other fault.
\<close>

theorem stored_display_valid:
  assumes "compact sz"
  shows "blocks_len sz (fit_result_display sz bs) \<le> DISPLAY_BUDGET_BYTES
    \<and> (\<exists>cs. fit_result_display sz bs = map Known cs
        \<and> fitted (map block_sanitize (List.map_filter known bs)) cs)
    \<and> validate_display sz (fit_result_display sz bs) \<noteq> Inl TooLarge
    \<and> validate_display sz (fit_result_display sz bs) \<noteq> Inl (ControlCharacter what)
    \<and> ((\<forall>b. Known b \<in> set bs \<longrightarrow> block_validate (block_sanitize b) = Inr ())
        \<longrightarrow> validate_display sz (fit_result_display sz bs) = Inr ())"
proof -
  define cs where "cs = fit_display_budget sz (map block_sanitize (List.map_filter known bs)) DISPLAY_BUDGET_BYTES"
  have out: "fit_result_display sz bs = map Known cs"
    by (simp add: fit_result_display_def cs_def)
  have fit: "fitted (map block_sanitize (List.map_filter known bs)) cs"
    by (simp add: cs_def fit_budget_fitted)
  have len: "known_len sz cs \<le> DISPLAY_BUDGET_BYTES"
    using fit_budget_len [OF assms, of _ DISPLAY_BUDGET_BYTES]
    by (simp add: cs_def DISPLAY_BUDGET_BYTES_def)
  have clean: "block_sanitize c = c" if "c \<in> set cs" for c
  proof (rule fitted_all [OF fit _ _ that])
    fix b assume "b \<in> set (map block_sanitize (List.map_filter known bs))"
    then show "block_sanitize b = b" by (auto simp: sanitize_twice)
  qed (rule keep_units_clean)
  have free: "uncontrolled (block_validate c)" if "c \<in> set cs" for c
    using sanitize_uncontrolled [of c] clean [OF that] by simp
  have checks: "validate_display sz (map Known cs) = all_checks (map block_validate cs @ [Inr ()])"
    using len by (simp add: validate_display_def ensure_def)
  have uncontrolled_all: "uncontrolled (validate_display sz (map Known cs))"
    unfolding checks by (rule uncontrolled_checks) (auto dest: free)
  moreover have "validate_display sz (map Known cs) = Inr ()"
    if valid: "\<forall>b. Known b \<in> set bs \<longrightarrow> block_validate (block_sanitize b) = Inr ()"
  proof -
    have "block_validate c = Inr ()" if "c \<in> set cs" for c
    proof (rule fitted_all [OF fit _ _ that])
      fix b assume "b \<in> set (map block_sanitize (List.map_filter known bs))"
      with valid show "block_validate b = Inr ()" by (auto simp: in_known)
    qed (rule keep_units_valid)
    then show ?thesis unfolding checks by (auto simp: all_checks_Inr)
  qed
  ultimately show ?thesis
    using out fit len by (auto simp: uncontrolled_def)
qed

text \<open>The bytes of the texts that a live display grows by, and lengths for examples.\<close>

fun text_bytes :: "'v display_block \<Rightarrow> nat" where
  "text_bytes (Text body _) = byte_len body"
| "text_bytes (Terminal segments _ _ _) = sum_list (map (\<lambda>s. byte_len (ts_text s)) segments)"
| "text_bytes _ = 0"

definition sample_sizes :: "nat sizes" where
  "sample_sizes = \<lparr>block_len = (\<lambda>b. text_bytes b + 24), value_len = (\<lambda>v. v),
     array_len = (\<lambda>ls. 2 + sum_list ls + (length ls - 1))\<rparr>"

lemma sample_compact: "compact sample_sizes"
  by (simp add: compact_def sample_sizes_def)

theorem stored_display_valid_witness:
  "validate_display sample_sizes (fit_result_display sample_sizes
     [Known (Text [97, 27, 98] None), Unknown [120] 7]) = Inr ()"
  using stored_display_valid [OF sample_compact, of "[Known (Text [97, 27, 98] None), Unknown [120] 7]"]
  by simp

subsection \<open>Live displays\<close>

datatype 'v display_delta =
    Append nat utext "terminal_stream option"
  | Replace "'v blocks"

datatype delta_error = NoSuchBlock nat | NotAppendable nat | StreamOnText

definition append_segment :: "terminal_stream \<Rightarrow> utext \<Rightarrow> terminal_segment list \<Rightarrow> terminal_segment list" where
  "append_segment stream t segments =
     (if segments \<noteq> [] \<and> ts_stream (last segments) = stream
      then butlast segments @ [(last segments)\<lparr>ts_text := ts_text (last segments) @ t\<rparr>]
      else segments @ [\<lparr>ts_stream = stream, ts_text = t\<rparr>])"

fun apply_delta :: "'v display_delta \<Rightarrow> 'v blocks \<Rightarrow> delta_error + 'v blocks" where
  "apply_delta (Replace replacement) bs = Inr replacement"
| "apply_delta (Append index t stream) bs =
     (if index = length bs
      then Inr (bs @ [Known (case stream of
              Some s \<Rightarrow> Terminal [\<lparr>ts_stream = s, ts_text = t\<rparr>] None None None
            | None \<Rightarrow> Text t None)])
      else case nth_opt bs index of
          None \<Rightarrow> Inl (NoSuchBlock index)
        | Some (Known (Text body om)) \<Rightarrow>
            if stream \<noteq> None then Inl StreamOnText else Inr (bs[index := Known (Text (body @ t) om)])
        | Some (Known (Terminal segments code om full)) \<Rightarrow>
            Inr (bs[index := Known (Terminal
              (append_segment (case stream of Some s \<Rightarrow> s | None \<Rightarrow> Stdout) t segments) code om full)])
        | Some _ \<Rightarrow> Inl (NotAppendable index))"

definition MAX_APPEND_BYTES :: nat where
  "MAX_APPEND_BYTES = 1024"

fun append_text :: "'v display_delta \<Rightarrow> utext option" where
  "append_text (Append _ t _) = Some t"
| "append_text (Replace _) = None"

fun delta_validate :: "'v sizes \<Rightarrow> 'v display_delta \<Rightarrow> block_error + unit" where
  "delta_validate sz (Append _ t stream) =
     all_checks
       [ensure (if stream \<noteq> None then is_terminal_safe t else is_display_safe t) (ControlCharacter ''append text''),
        ensure (byte_len t \<le> MAX_APPEND_BYTES) TooLarge]"
| "delta_validate sz (Replace bs) = validate_display sz bs"

record 'v live_display =
  ld_blocks :: "'v blocks"
  ld_used :: nat

definition live_empty :: "'v live_display" where
  "live_empty = \<lparr>ld_blocks = [], ld_used = 0\<rparr>"

text \<open>The delta cut to the room left, with its cost; \<open>None\<close> when nothing of it fits.\<close>

fun fit_delta :: "'v sizes \<Rightarrow> nat \<Rightarrow> 'v display_delta \<Rightarrow> ('v display_delta \<times> nat) option" where
  "fit_delta sz room (Append index t stream) =
     (let t = take_bytes (boundary_before t (min (byte_len t) room)) t
      in if t = [] then None else Some (Append index t stream, byte_len t))"
| "fit_delta sz room (Replace bs) =
     (let bs = (if blocks_len sz bs \<le> room then bs
                else map Known (fit_display_budget sz (List.map_filter known bs) room));
          cost = blocks_len sz bs
      in if cost > room then None else Some (Replace bs, cost))"

definition admit :: "'v sizes \<Rightarrow> 'v display_delta \<Rightarrow> 'v live_display \<Rightarrow>
    delta_error + 'v display_delta option \<times> 'v live_display" where
  "admit sz delta live =
     (let room = DISPLAY_BUDGET_BYTES - ld_used live
      in case fit_delta sz room delta of
           None \<Rightarrow> Inr (None, live)
         | Some (delta, cost) \<Rightarrow>
             (case apply_delta delta (ld_blocks live) of
                Inl e \<Rightarrow> Inl e
              | Inr bs \<Rightarrow> Inr (Some delta, \<lparr>ld_blocks = bs, ld_used = ld_used live + cost\<rparr>)))"

text \<open>A reader's display: what does not apply changes nothing.\<close>

definition live_next :: "'v sizes \<Rightarrow> 'v live_display \<Rightarrow> 'v display_delta \<Rightarrow> 'v live_display" where
  "live_next sz live delta = (case admit sz delta live of Inl _ \<Rightarrow> live | Inr (_, live') \<Rightarrow> live')"

text \<open>A display over several deltas, with the deltas as applied, which are sent on to readers.\<close>

fun relay :: "'v sizes \<Rightarrow> 'v live_display \<Rightarrow> 'v display_delta list \<Rightarrow> 'v live_display \<times> 'v display_delta list" where
  "relay sz live [] = (live, [])"
| "relay sz live (d # ds) =
     (case admit sz d live of
        Inr (Some sent, live') \<Rightarrow> (let (last, rest) = relay sz live' ds in (last, sent # rest))
      | _ \<Rightarrow> relay sz live ds)"

fun opened_bytes :: "('v display_block, 'v) opened \<Rightarrow> nat" where
  "opened_bytes (Known b) = text_bytes b"
| "opened_bytes (Unknown _ _) = 0"

definition shown_bytes :: "'v blocks \<Rightarrow> nat" where
  "shown_bytes bs = sum_list (map opened_bytes bs)"

text \<open>The JSON of a block holds its text.\<close>

definition covers :: "'v sizes \<Rightarrow> bool" where
  "covers sz \<longleftrightarrow> (\<forall>b. text_bytes b \<le> block_len sz b)"

definition live_ok :: "'v live_display \<Rightarrow> bool" where
  "live_ok live \<longleftrightarrow> shown_bytes (ld_blocks live) \<le> ld_used live \<and> ld_used live \<le> DISPLAY_BUDGET_BYTES"

lemma cut_text: "take_bytes (boundary_before t n) t = take_bytes n t"
proof -
  have "take_bytes (byte_len s) (s @ u) = s" for s u
    by (induction s) (auto simp: take_bytes_empty)
  moreover obtain u where "t = take_bytes n t @ u"
    using take_bytes_prefix [of n t] by (auto elim: prefixE)
  ultimately show ?thesis by (metis boundary_before_take)
qed

lemma cut_text_min: "take_bytes (min (byte_len t) room) t = take_bytes room t"
  by (cases "byte_len t \<le> room") (simp_all add: take_bytes_all min_def)

lemma fit_append:
  "fit_delta sz room (Append index t stream)
   = (if take_bytes room t = [] then None
      else Some (Append index (take_bytes room t) stream, byte_len (take_bytes room t)))"
  by (simp add: cut_text cut_text_min Let_def)

declare fit_delta.simps(1) [simp del] fit_append [simp]

lemma fit_delta_again:
  "fit_delta sz room d = Some (d', cost) \<Longrightarrow> fit_delta sz room d' = Some (d', cost) \<and> cost \<le> room"
proof (cases d)
  case (Append index t stream)
  assume "fit_delta sz room d = Some (d', cost)"
  with Append have "d' = Append index (take_bytes room t) stream" "cost = byte_len (take_bytes room t)"
    "take_bytes room t \<noteq> []"
    by (auto split: if_splits)
  then show ?thesis
    using take_bytes_le [of room t] by (simp add: take_bytes_all)
next
  case (Replace bs)
  assume "fit_delta sz room d = Some (d', cost)"
  with Replace show ?thesis by (auto simp: Let_def split: if_splits)
qed

lemma admit_Some:
  "admit sz d live = Inr (Some s, l) \<longleftrightarrow>
    (\<exists>cost bs. fit_delta sz (DISPLAY_BUDGET_BYTES - ld_used live) d = Some (s, cost)
      \<and> apply_delta s (ld_blocks live) = Inr bs \<and> l = \<lparr>ld_blocks = bs, ld_used = ld_used live + cost\<rparr>)"
  by (auto simp: admit_def split: option.splits sum.splits)

lemma relay_admits_again:
  "relay sz live ds = (live', sent) \<Longrightarrow> relay sz live sent = (live', sent) \<and> foldl (live_next sz) live sent = live'"
proof (induction ds arbitrary: live sent)
  case (Cons d ds)
  show ?case
  proof (cases "\<exists>s l. admit sz d live = Inr (Some s, l)")
    case True
    then obtain s l where admitted: "admit sz d live = Inr (Some s, l)" by blast
    then obtain rest where rest: "relay sz l ds = (live', rest)" "sent = s # rest"
      using Cons.prems by (auto split: prod.splits)
    have "admit sz s live = Inr (Some s, l)"
      using admitted fit_delta_again unfolding admit_Some by metis
    then show ?thesis
      using Cons.IH [OF rest(1)] rest(2) by (simp add: live_next_def)
  next
    case False
    then have "relay sz live (d # ds) = relay sz live ds"
      by (auto split: sum.splits option.splits prod.splits)
    with Cons show ?thesis by simp
  qed
qed simp

lemma shown_bytes_simps [simp]:
  "shown_bytes [] = 0" "shown_bytes (b # bs) = opened_bytes b + shown_bytes bs"
  "shown_bytes (bs @ cs) = shown_bytes bs + shown_bytes cs"
  by (simp_all add: shown_bytes_def)

lemma shown_bytes_update:
  "i < length bs \<Longrightarrow> opened_bytes b = opened_bytes (bs ! i) + n \<Longrightarrow> shown_bytes (bs[i := b]) = shown_bytes bs + n"
  by (induction bs arbitrary: i) (auto split: nat.splits)

lemma append_segment_bytes:
  "sum_list (map (\<lambda>s. byte_len (ts_text s)) (append_segment stream t segments))
   = sum_list (map (\<lambda>s. byte_len (ts_text s)) segments) + byte_len t"
proof (cases "segments = []")
  case False
  then have "sum_list (map (\<lambda>s. byte_len (ts_text s)) segments)
      = sum_list (map (\<lambda>s. byte_len (ts_text s)) (butlast segments)) + byte_len (ts_text (last segments))"
    by (induction segments) auto
  then show ?thesis by (simp add: append_segment_def)
qed (simp add: append_segment_def)

lemma apply_append_bytes:
  assumes "apply_delta (Append i t stream) bs = Inr bs'"
  shows "shown_bytes bs' = shown_bytes bs + byte_len t"
  using assms
  by (auto simp: append_segment_bytes nth_opt_def split: if_splits option.splits opened.splits
      display_block.splits intro!: shown_bytes_update)

lemma shown_le_len:
  assumes "compact sz" and "covers sz"
  shows "shown_bytes bs \<le> blocks_len sz bs"
proof -
  have "opened_bytes b \<le> opened_len sz b" for b
    using assms(2) by (cases b) (simp_all add: covers_def)
  then have "shown_bytes bs \<le> sum_list (map (opened_len sz) bs)"
    by (simp add: shown_bytes_def sum_list_mono)
  then show ?thesis using assms(1) by (simp add: compact_def blocks_len_def)
qed

lemma live_ok_admit:
  assumes "compact sz" and "covers sz" and "live_ok live" and "admit sz d live = Inr (Some s, l)"
  shows "live_ok l"
proof -
  from assms(4) obtain cost bs where fit: "fit_delta sz (DISPLAY_BUDGET_BYTES - ld_used live) d = Some (s, cost)"
    and bs: "apply_delta s (ld_blocks live) = Inr bs" and l: "l = \<lparr>ld_blocks = bs, ld_used = ld_used live + cost\<rparr>"
    unfolding admit_Some by blast
  note again = fit_delta_again [OF fit]
  have "shown_bytes bs \<le> ld_used live + cost"
  proof (cases s)
    case (Append i t stream)
    then have "cost = byte_len t"
      using again take_bytes_le by (auto split: if_splits)
    then show ?thesis
      using apply_append_bytes [of i t stream "ld_blocks live" bs] bs Append assms(3) by (simp add: live_ok_def)
  next
    case (Replace cs)
    then have "cost = blocks_len sz cs" "bs = cs"
      using again bs by (auto simp: Let_def split: if_splits)
    then show ?thesis using shown_le_len [OF assms(1,2), of cs] by simp
  qed
  moreover have "cost \<le> DISPLAY_BUDGET_BYTES - ld_used live" "ld_used live \<le> DISPLAY_BUDGET_BYTES"
    using again assms(3) by (simp_all add: live_ok_def)
  ultimately show ?thesis unfolding live_ok_def l by simp
qed

lemma relay_ok:
  assumes "compact sz" and "covers sz"
  shows "live_ok live \<Longrightarrow> live_ok (fst (relay sz live ds))"
proof (induction ds arbitrary: live)
  case (Cons d ds)
  show ?case
  proof (cases "\<exists>s l. admit sz d live = Inr (Some s, l)")
    case True
    then obtain s l where admitted: "admit sz d live = Inr (Some s, l)" by blast
    from Cons.IH [OF live_ok_admit [OF assms Cons.prems this]] show ?thesis
      by (simp add: admitted case_prod_beta)
  next
    case False
    then have "relay sz live (d # ds) = relay sz live ds"
      by (auto split: sum.splits option.splits prod.splits)
    with Cons show ?thesis by simp
  qed
qed simp

lemma relay_follower:
  "relay sz live ds = (live', sent) \<Longrightarrow>
    foldl (\<lambda>bs d. case apply_delta d bs of Inr bs' \<Rightarrow> bs' | Inl _ \<Rightarrow> bs) (ld_blocks live) sent = ld_blocks live'"
proof (induction ds arbitrary: live sent)
  case (Cons d ds)
  show ?case
  proof (cases "\<exists>s l. admit sz d live = Inr (Some s, l)")
    case True
    then obtain s l where admitted: "admit sz d live = Inr (Some s, l)" by blast
    then obtain rest where rest: "relay sz l ds = (live', rest)" "sent = s # rest"
      using Cons.prems by (auto split: prod.splits)
    from admitted have "apply_delta s (ld_blocks live) = Inr (ld_blocks l)"
      unfolding admit_Some by auto
    then show ?thesis using Cons.IH [OF rest(1)] rest(2) by simp
  next
    case False
    then have "relay sz live (d # ds) = relay sz live ds"
      by (auto split: sum.splits option.splits prod.splits)
    with Cons show ?thesis by simp
  qed
qed simp

text \<open>
  C17. Readers of a call's progress stay in step. However many deltas a live display takes, its
  deltas cost at most the budget and its texts are no longer than that. A reader that applies the
  deltas that were sent on has the same blocks, and a reader that admits them itself, as the
  daemon does, cuts none of them again and ends in the same state.
\<close>

theorem live_readers_in_step:
  assumes "compact sz" and "covers sz" and "relay sz live_empty ds = (live, sent)"
  shows "shown_bytes (ld_blocks live) \<le> ld_used live \<and> ld_used live \<le> DISPLAY_BUDGET_BYTES
    \<and> foldl (\<lambda>bs d. case apply_delta d bs of Inr bs' \<Rightarrow> bs' | Inl _ \<Rightarrow> bs) [] sent = ld_blocks live
    \<and> relay sz live_empty sent = (live, sent) \<and> foldl (live_next sz) live_empty sent = live"
proof -
  have "live_ok (live_empty :: 'a live_display)" by (simp add: live_ok_def live_empty_def)
  from relay_ok [OF assms(1,2) this, of ds] have "live_ok live" by (simp add: assms(3))
  then show ?thesis
    using relay_follower [OF assms(3)] relay_admits_again [OF assms(3)]
    by (simp add: live_ok_def live_empty_def)
qed

theorem live_readers_in_step_witness:
  "foldl (live_next sample_sizes) live_empty [Append 0 [97] None, Append 0 [98] None]
   = \<lparr>ld_blocks = [Known (Text [97, 98] None)], ld_used = 2\<rparr>"
proof -
  have "relay sample_sizes live_empty [Append 0 [97] None, Append 1 [] None, Append 0 [98] None]
      = (\<lparr>ld_blocks = [Known (Text [97, 98] None)], ld_used = 2\<rparr>, [Append 0 [97] None, Append 0 [98] None])"
    by (simp add: admit_def live_empty_def utf8_len_def DISPLAY_BUDGET_BYTES_def nth_opt_def)
  moreover have "covers sample_sizes"
    by (simp add: covers_def sample_sizes_def)
  ultimately show ?thesis using live_readers_in_step [OF sample_compact] by blast
qed

text \<open>
  What is sent on may fail the check that a delta must pass: an append is cut between characters,
  which may be in the middle of a colour sequence.
\<close>

lemma admitted_append_may_be_invalid:
  defines "d \<equiv> Append 0 [27, 91, 109] (Some Stdout)"
  defines "live \<equiv> \<lparr>ld_blocks = [Known (Terminal [] None None None)], ld_used = DISPLAY_BUDGET_BYTES - 1\<rparr>"
  shows "delta_validate sz d = Inr () \<and> (\<exists>s l. admit sz d live = Inr (Some s, l) \<and> delta_validate sz s \<noteq> Inr ())"
proof -
  have "is_terminal_safe [27, 91, 109]"
    using terminal_text.colour [of "[]" "[]"] terminal_text.empty by (simp add: terminal_safe_iff)
  moreover have "\<not> is_terminal_safe [27]"
    by (auto simp: terminal_safe_iff unsafe_character_def control_def elim: terminal_text.cases)
  ultimately show ?thesis
    by (simp add: d_def live_def admit_def all_checks_Inr DISPLAY_BUDGET_BYTES_def utf8_len_def
        MAX_APPEND_BYTES_def append_segment_def nth_opt_def)
qed

subsection \<open>What a client is sent\<close>

definition FIRST_STABLE_MINOR :: nat where "FIRST_STABLE_MINOR = 0"

definition DISPLAY_BLOCK_SINCE :: "(string \<times> nat) list" where
  "DISPLAY_BLOCK_SINCE =
     [(''text'', FIRST_STABLE_MINOR), (''markdown'', FIRST_STABLE_MINOR), (''code'', FIRST_STABLE_MINOR),
      (''file_excerpt'', FIRST_STABLE_MINOR), (''diff'', FIRST_STABLE_MINOR), (''terminal'', FIRST_STABLE_MINOR),
      (''key_value'', FIRST_STABLE_MINOR), (''table'', FIRST_STABLE_MINOR), (''json'', FIRST_STABLE_MINOR),
      (''media'', FIRST_STABLE_MINOR), (''link'', FIRST_STABLE_MINOR), (''session_ref'', FIRST_STABLE_MINOR),
      (''plan'', 17), (''asset'', 67)]"

definition kind_since :: "string \<Rightarrow> nat option" where
  "kind_since k = map_option snd (find (\<lambda>(known, _). known = k) DISPLAY_BLOCK_SINCE)"

definition downgrade_from :: "'v formatters \<Rightarrow> nat option \<Rightarrow> nat \<Rightarrow> 'v display_block \<Rightarrow> 'v display_block" where
  "downgrade_from fm since client_minor b =
     (case since of
        Some n \<Rightarrow> if n > client_minor then Text (to_text fm b) None else b
      | None \<Rightarrow> b)"

definition downgrade :: "'v formatters \<Rightarrow> nat \<Rightarrow> 'v display_block \<Rightarrow> 'v display_block" where
  "downgrade fm client_minor b = downgrade_from fm (kind_since (kind b)) client_minor b"

record display_audience =
  client_minor :: nat
  since :: "string \<Rightarrow> nat option"

definition audience_new :: "nat \<Rightarrow> display_audience" where
  "audience_new minor = \<lparr>client_minor = minor, since = kind_since\<rparr>"

definition newer :: "display_audience \<Rightarrow> 'v display_block \<Rightarrow> bool" where
  "newer a b \<longleftrightarrow> (case since a (kind b) of Some n \<Rightarrow> n > client_minor a | None \<Rightarrow> False)"

text \<open>\<open>None\<close>: the blocks unchanged.\<close>

definition audience_blocks :: "'v formatters \<Rightarrow> display_audience \<Rightarrow> 'v blocks \<Rightarrow> 'v blocks option" where
  "audience_blocks fm a bs =
     (if list_ex (\<lambda>b. case b of Known b \<Rightarrow> newer a b | Unknown _ _ \<Rightarrow> True) bs
      then Some (List.map_filter (\<lambda>b. case b of
            Known b \<Rightarrow> Some (Known (downgrade_from fm (since a (kind b)) (client_minor a) b))
          | Unknown _ _ \<Rightarrow> None) bs)
      else None)"

definition received :: "'v formatters \<Rightarrow> display_audience \<Rightarrow> 'v blocks \<Rightarrow> 'v blocks" where
  "received fm a bs = (case audience_blocks fm a bs of None \<Rightarrow> bs | Some cs \<Rightarrow> cs)"

lemma downgrade_not_newer: "\<not> newer a b \<Longrightarrow> downgrade_from fm (since a (kind b)) (client_minor a) b = b"
  by (auto simp: downgrade_from_def newer_def split: option.splits)

text \<open>Both branches are one map over the blocks that are known.\<close>

lemma received_map:
  "received fm a bs
   = map (\<lambda>b. Known (downgrade_from fm (since a (kind b)) (client_minor a) b)) (List.map_filter known bs)"
proof (cases "list_ex (\<lambda>b. case b of Known b \<Rightarrow> newer a b | Unknown _ _ \<Rightarrow> True) bs")
  case True
  have "List.map_filter (\<lambda>b. case b of
            Known b \<Rightarrow> Some (Known (downgrade_from fm (since a (kind b)) (client_minor a) b))
          | Unknown _ _ \<Rightarrow> None) cs
      = map (\<lambda>b. Known (downgrade_from fm (since a (kind b)) (client_minor a) b)) (List.map_filter known cs)" for cs
    by (induction cs) (auto simp: map_filter_simps split: opened.split)
  with True show ?thesis by (simp add: received_def audience_blocks_def)
next
  case False
  then have "bs = map (\<lambda>b. Known (downgrade_from fm (since a (kind b)) (client_minor a) b)) (List.map_filter known bs)"
    by (induction bs) (auto simp: map_filter_simps downgrade_not_newer split: opened.splits)
  with False show ?thesis by (simp add: received_def audience_blocks_def)
qed

text \<open>
  C18. A client is sent only what it can read. Of any display it receives one block for each block
  of a known kind, in order, none of a kind newer than its version, the ones that are not newer
  unchanged; and where the blocks are valid, and their identifiers and JSON have no control
  characters, so is every block it receives, those that were turned into text included.
\<close>

theorem client_reads_what_it_receives:
  assumes "since a ''text'' = None \<or> (\<exists>n. since a ''text'' = Some n \<and> n \<le> client_minor a)"
    and "formatters_ok fm"
    and "\<And>b. Known b \<in> set bs \<Longrightarrow> block_validate b = Inr () \<and> plain_parts fm b"
  shows "length (received fm a bs) = length (List.map_filter known bs)
    \<and> (\<forall>b\<in>set (received fm a bs). \<exists>c. b = Known c \<and> \<not> newer a c \<and> block_validate c = Inr ())
    \<and> (\<forall>i < length (List.map_filter known bs). newer a (List.map_filter known bs ! i)
        \<or> received fm a bs ! i = Known (List.map_filter known bs ! i))"
proof -
  let ?down = "\<lambda>b. downgrade_from fm (since a (kind b)) (client_minor a) b"
  have text_read: "\<not> newer a (Text t None)" for t
    using assms(1) by (auto simp: newer_def)
  have valid: "\<not> newer a (?down b) \<and> block_validate (?down b) = Inr ()" if "Known b \<in> set bs" for b
  proof (cases "newer a b")
    case True
    then have "?down b = Text (to_text fm b) None"
      by (auto simp: newer_def downgrade_from_def split: option.splits)
    then show ?thesis
      using text_read to_text_safe [of b fm] assms(2,3) that by simp
  next
    case False
    then show ?thesis using assms(3) [OF that] by (simp add: downgrade_not_newer)
  qed
  then show ?thesis
    by (auto simp: received_map in_known) (metis downgrade_not_newer)
qed

lemma text_is_stable: "kind_since ''text'' = Some 0"
  by (simp add: kind_since_def DISPLAY_BLOCK_SINCE_def FIRST_STABLE_MINOR_def)

theorem client_reads_what_it_receives_witness:
  "\<exists>c. received \<lparr>pretty_json = (\<lambda>v :: nat. []), quotient_text = (\<lambda>_ _ _. []), debug_text = (\<lambda>_. [])\<rparr>
     (audience_new 16) [Known (Plan []), Unknown [120] 7] = [Known c] \<and> \<not> newer (audience_new 16) c"
proof -
  let ?fm = "\<lparr>pretty_json = (\<lambda>v :: nat. []), quotient_text = (\<lambda>_ _ _. []), debug_text = (\<lambda>_. [])\<rparr>"
  let ?bs = "[Known (Plan []), Unknown [120] (7 :: nat)]"
  have "formatters_ok ?fm" by (simp add: formatters_ok_def)
  from client_reads_what_it_receives [of "audience_new 16", OF _ this, of ?bs]
  have "length (received ?fm (audience_new 16) ?bs) = 1"
    "\<forall>b\<in>set (received ?fm (audience_new 16) ?bs). \<exists>c. b = Known c \<and> \<not> newer (audience_new 16) c"
    by (auto simp: audience_new_def text_is_stable map_filter_simps)
  then show ?thesis by (cases "received ?fm (audience_new 16) ?bs") auto
qed

subsection \<open>Presentations of a call\<close>

definition TOOL_HINTS :: "string list" where
  "TOOL_HINTS = [''shell'', ''file_read'', ''file_write'', ''file_edit'', ''fetch'', ''search'', ''delegate'',
     ''message'', ''skill'', ''goal'', ''figure'', ''generic'']"

text \<open>\<open>ToolHint::new\<close>, of the macro \<open>snake_label\<close>.\<close>

definition tool_hint :: "string \<Rightarrow> string option" where
  "tool_hint label =
     (if label \<noteq> [] \<and> length label \<le> 32
         \<and> list_all (\<lambda>(index, b). is_ascii_lowercase b \<or> index > 0 \<and> (is_ascii_digit b \<or> b = CHR ''_''))
             (enumerate 0 label)
      then Some label else None)"

definition rendered :: "string \<Rightarrow> string" where
  "rendered hint = (if hint \<in> set TOOL_HINTS then hint else ''generic'')"

record 'v prepared_presentation =
  pp_title :: utext
  pp_hint :: "string option"
  pp_primary_argument :: "utext option"
  pp_arguments :: "'v blocks"
  pp_preview :: "'v blocks"

definition prepared_new :: "utext \<Rightarrow> utext option \<Rightarrow> 'v prepared_presentation" where
  "prepared_new title primary = \<lparr>pp_title = title, pp_hint = None, pp_primary_argument = primary,
     pp_arguments = [], pp_preview = []\<rparr>"

definition with_hint :: "string \<Rightarrow> 'v prepared_presentation \<Rightarrow> 'v prepared_presentation" where
  "with_hint hint p = p\<lparr>pp_hint := tool_hint hint\<rparr>"

definition with_arguments :: "'v display_block list \<Rightarrow> 'v prepared_presentation \<Rightarrow> 'v prepared_presentation" where
  "with_arguments bs p = p\<lparr>pp_arguments := pp_arguments p @ map Known bs\<rparr>"

definition with_preview :: "'v display_block list \<Rightarrow> 'v prepared_presentation \<Rightarrow> 'v prepared_presentation" where
  "with_preview bs p = p\<lparr>pp_preview := pp_preview p @ map Known bs\<rparr>"

definition presentation_fit :: "'v sizes \<Rightarrow> 'v prepared_presentation \<Rightarrow> utext list \<times> 'v prepared_presentation" where
  "presentation_fit sz p =
     (let (arguments, unknown) = take_unknown_blocks (pp_arguments p);
          (preview, more) = take_unknown_blocks (pp_preview p)
      in (unknown @ more, p\<lparr>pp_arguments := fit_result_display sz arguments,
            pp_preview := fit_result_display sz preview\<rparr>))"

record 't tool_identity =
  ti_name :: utext
  ti_published_name :: utext
  ti_source :: "'t option"

record ('v, 't) tool_presentation =
  tp_title :: utext
  tp_hint :: "string option"
  tp_tool :: "'t tool_identity"
  tp_primary_argument :: "utext option"
  tp_arguments :: "'v blocks"
  tp_preview :: "'v blocks"

definition presentation_new :: "'v prepared_presentation \<Rightarrow> 't tool_identity \<Rightarrow> ('v, 't) tool_presentation" where
  "presentation_new p tool = \<lparr>tp_title = pp_title p, tp_hint = pp_hint p, tp_tool = tool,
     tp_primary_argument = pp_primary_argument p, tp_arguments = pp_arguments p, tp_preview = pp_preview p\<rparr>"

definition presentation_validate :: "'v sizes \<Rightarrow> ('v, 't) tool_presentation \<Rightarrow> block_error + unit" where
  "presentation_validate sz p =
     all_checks [validate_display sz (tp_arguments p), validate_display sz (tp_preview p)]"

lemma take_unknown_kept: "List.map_filter known (fst (take_unknown_blocks bs)) = List.map_filter known bs"
  by (induction bs rule: take_unknown_blocks.induct) (auto simp: map_filter_simps split: prod.splits)

text \<open>Dropping the unknown blocks first, for their tags, changes nothing of what is fit.\<close>

lemma presentation_fit_arguments:
  "pp_arguments (snd (presentation_fit sz p)) = fit_result_display sz (pp_arguments p)"
  "pp_preview (snd (presentation_fit sz p)) = fit_result_display sz (pp_preview p)"
  using take_unknown_kept [of "pp_arguments p"] take_unknown_kept [of "pp_preview p"]
  by (simp_all add: presentation_fit_def fit_result_display_def case_prod_beta)

end
