(* ===== verification/In_Flight.thy ===== *)
theory In_Flight
  imports Display_Fit
begin

text \<open>
  Live-only output that is still in flight (\<open>crates/engine_store/src/session/in_flight.rs\<close>), which
  a reader that joins in the middle of a run is given first. Of the events' payloads
  (\<open>EventPayload\<close>, \<open>crates/protocol/src/event.rs\<close>) those are told apart that the code looks at,
  with the fields it reads; a model's reference is an opaque text.
\<close>

type_synonym run = nat
type_synonym attempt_id = nat
type_synonym call_id = nat
type_synonym agent_invocation = nat

record acp_context_usage =
  cu_used :: u64
  cu_size :: "u64 option"

datatype 'v event_payload =
    TextDelta attempt_id utext
  | ReasoningDelta attempt_id utext
  | ToolCallProgress call_id utext "('v display_delta, 'v) opened option"
  | InternalAgentTextDelta agent_invocation utext
  | NativeCompactionStarted utext
  | NativeCompactionFinished utext
  | AcpLiveUpdate "(call_id \<times> 'v prepared_presentation) option" "acp_context_usage option"
  | ModelTurnCommitted attempt_id
  | AttemptAbandoned attempt_id
  | ToolCallTerminated call_id
  | InternalAgentFinished agent_invocation
  | RunFinished
  | OtherPayload utext

fun is_transient :: "'v event_payload \<Rightarrow> bool" where
  "is_transient (TextDelta _ _) = True"
| "is_transient (ReasoningDelta _ _) = True"
| "is_transient (InternalAgentTextDelta _ _) = True"
| "is_transient (NativeCompactionStarted _) = True"
| "is_transient (NativeCompactionFinished _) = True"
| "is_transient (ToolCallProgress _ _ _) = True"
| "is_transient (AcpLiveUpdate _ _) = True"
| "is_transient _ = False"

subsection \<open>What is kept\<close>

record in_flight_attempt =
  ia_run :: "run option"
  ia_attempt :: attempt_id
  ia_chunks :: "(bool \<times> utext) list"

record 'v in_flight_tool =
  it_run :: "run option"
  it_call :: call_id
  it_message :: utext
  it_display :: "'v live_display"

record in_flight_agent =
  ig_run :: "run option"
  ig_invocation :: agent_invocation
  ig_text :: utext

record 'v in_flight =
  if_attempts :: "in_flight_attempt list"
  if_tools :: "'v in_flight_tool list"
  if_agents :: "in_flight_agent list"
  if_compaction :: "(run option \<times> 'v event_payload) option"
  if_context :: "(run option \<times> acp_context_usage) option"
  if_presentations :: "(run option \<times> call_id \<times> 'v prepared_presentation) list"

definition in_flight_empty :: "'v in_flight" where
  "in_flight_empty = \<lparr>if_attempts = [], if_tools = [], if_agents = [], if_compaction = None,
     if_context = None, if_presentations = []\<rparr>"

text \<open>Changing the first element of a list that a test finds, or pushing a new one.\<close>

definition find_or_push :: "('a \<Rightarrow> bool) \<Rightarrow> 'a \<Rightarrow> ('a \<Rightarrow> 'a) \<Rightarrow> 'a list \<Rightarrow> 'a list" where
  "find_or_push P new f xs =
     (case position P xs of Some i \<Rightarrow> xs[i := f (xs ! i)] | None \<Rightarrow> xs @ [f new])"

definition push_chunk :: "bool \<Rightarrow> utext \<Rightarrow> (bool \<times> utext) list \<Rightarrow> (bool \<times> utext) list" where
  "push_chunk reasoning t chunks =
     (if chunks \<noteq> [] \<and> fst (last chunks) = reasoning
      then butlast chunks @ [(reasoning, snd (last chunks) @ t)]
      else chunks @ [(reasoning, t)])"

definition append_chunk :: "run option \<Rightarrow> attempt_id \<Rightarrow> bool \<Rightarrow> utext \<Rightarrow> 'v in_flight \<Rightarrow> 'v in_flight" where
  "append_chunk r attempt reasoning t s =
     s\<lparr>if_attempts := find_or_push (\<lambda>a. ia_attempt a = attempt)
         \<lparr>ia_run = r, ia_attempt = attempt, ia_chunks = []\<rparr>
         (ia_chunks_update (push_chunk reasoning t)) (if_attempts s)\<rparr>"

definition tool_progress :: "'v sizes \<Rightarrow> utext \<Rightarrow> ('v display_delta, 'v) opened option \<Rightarrow>
    'v in_flight_tool \<Rightarrow> 'v in_flight_tool" where
  "tool_progress sz message display tool =
     (let tool = tool\<lparr>it_message := message\<rparr>
      in case display of
           Some (Known delta) \<Rightarrow> tool\<lparr>it_display := live_next sz (it_display tool) delta\<rparr>
         | _ \<Rightarrow> tool)"

definition record_presentation :: "run option \<Rightarrow> call_id \<times> 'v prepared_presentation \<Rightarrow> 'v in_flight \<Rightarrow> 'v in_flight" where
  "record_presentation r presented s =
     s\<lparr>if_presentations := find_or_push (\<lambda>(_, held). fst held = fst presented) (r, presented)
         (\<lambda>(owner, _). (owner, presented)) (if_presentations s)\<rparr>"

fun record_output :: "'v sizes \<Rightarrow> run option \<Rightarrow> 'v event_payload \<Rightarrow> 'v in_flight \<Rightarrow> 'v in_flight" where
  "record_output sz r (TextDelta attempt t) s = append_chunk r attempt False t s"
| "record_output sz r (ReasoningDelta attempt t) s = append_chunk r attempt True t s"
| "record_output sz r (ToolCallProgress call message display) s =
     s\<lparr>if_tools := find_or_push (\<lambda>tool. it_call tool = call)
         \<lparr>it_run = r, it_call = call, it_message = message, it_display = live_empty\<rparr>
         (tool_progress sz message display) (if_tools s)\<rparr>"
| "record_output sz r (InternalAgentTextDelta invocation t) s =
     s\<lparr>if_agents := find_or_push (\<lambda>agent. ig_invocation agent = invocation)
         \<lparr>ig_run = r, ig_invocation = invocation, ig_text = []\<rparr>
         (ig_text_update (\<lambda>old. old @ t)) (if_agents s)\<rparr>"
| "record_output sz r (NativeCompactionStarted model) s = s\<lparr>if_compaction := Some (r, NativeCompactionStarted model)\<rparr>"
| "record_output sz r (NativeCompactionFinished model) s = s\<lparr>if_compaction := None\<rparr>"
| "record_output sz r (AcpLiveUpdate presentation context) s =
     (let s = (case context of Some c \<Rightarrow> s\<lparr>if_context := Some (r, c)\<rparr> | None \<Rightarrow> s)
      in case presentation of Some p \<Rightarrow> record_presentation r p s | None \<Rightarrow> s)"
| "record_output sz r _ s = s"

subsection \<open>What ends it\<close>

definition owned_by :: "run \<Rightarrow> (run option \<times> 'a) option \<Rightarrow> bool" where
  "owned_by r slot \<longleftrightarrow> (case slot of Some (owner, _) \<Rightarrow> owner = Some r | None \<Rightarrow> False)"

definition end_run :: "run \<Rightarrow> 'v in_flight \<Rightarrow> 'v in_flight" where
  "end_run r s =
     \<lparr>if_attempts = filter (\<lambda>a. ia_run a \<noteq> Some r) (if_attempts s),
      if_tools = filter (\<lambda>tool. it_run tool \<noteq> Some r) (if_tools s),
      if_agents = filter (\<lambda>agent. ig_run agent \<noteq> Some r) (if_agents s),
      if_compaction = (if owned_by r (if_compaction s) then None else if_compaction s),
      if_context = (if owned_by r (if_context s) then None else if_context s),
      if_presentations = filter (\<lambda>(owner, _). owner \<noteq> Some r) (if_presentations s)\<rparr>"

fun settle :: "run option \<Rightarrow> 'v event_payload \<Rightarrow> 'v in_flight \<Rightarrow> 'v in_flight" where
  "settle r (ModelTurnCommitted attempt) s = s\<lparr>if_attempts := filter (\<lambda>a. ia_attempt a \<noteq> attempt) (if_attempts s)\<rparr>"
| "settle r (AttemptAbandoned attempt) s = s\<lparr>if_attempts := filter (\<lambda>a. ia_attempt a \<noteq> attempt) (if_attempts s)\<rparr>"
| "settle r (ToolCallTerminated call) s =
     s\<lparr>if_tools := filter (\<lambda>tool. it_call tool \<noteq> call) (if_tools s),
       if_presentations := filter (\<lambda>(_, held). fst held \<noteq> call) (if_presentations s)\<rparr>"
| "settle r (InternalAgentFinished invocation) s =
     s\<lparr>if_agents := filter (\<lambda>agent. ig_invocation agent \<noteq> invocation) (if_agents s)\<rparr>"
| "settle r RunFinished s = (case r of Some run \<Rightarrow> end_run run s | None \<Rightarrow> s)"
| "settle r _ s = s"

subsection \<open>Giving it to a reader\<close>

type_synonym 'v live_output = "run option \<times> 'v event_payload"

definition attempt_replay :: "in_flight_attempt \<Rightarrow> 'v live_output list" where
  "attempt_replay a =
     map (\<lambda>(reasoning, t). (ia_run a,
       if reasoning then ReasoningDelta (ia_attempt a) t else TextDelta (ia_attempt a) t)) (ia_chunks a)"

definition tool_replay :: "'v in_flight_tool \<Rightarrow> 'v live_output" where
  "tool_replay tool = (it_run tool, ToolCallProgress (it_call tool) (it_message tool)
     (if ld_blocks (it_display tool) \<noteq> [] then Some (Known (Replace (ld_blocks (it_display tool)))) else None))"

definition acp_live_state :: "'v in_flight \<Rightarrow> 'v live_output list" where
  "acp_live_state s =
     map (\<lambda>(r, presented). (r, AcpLiveUpdate (Some presented) None)) (if_presentations s)
     @ (case if_context s of Some (r, context) \<Rightarrow> [(r, AcpLiveUpdate None (Some context))] | None \<Rightarrow> [])"

definition replay :: "'v in_flight \<Rightarrow> 'v live_output list" where
  "replay s =
     concat (map attempt_replay (if_attempts s))
     @ map tool_replay (if_tools s)
     @ (case if_compaction s of Some started \<Rightarrow> [started] | None \<Rightarrow> [])
     @ map (\<lambda>agent. (ig_run agent, InternalAgentTextDelta (ig_invocation agent) (ig_text agent))) (if_agents s)
     @ acp_live_state s"

subsection \<open>How it is used\<close>

text \<open>The calls of a session's store: outputs, durable events, and the clear of a revert.\<close>

datatype 'v in_flight_call =
    Recorded "run option" "'v event_payload"
  | Settled "run option" "'v event_payload"
  | Cleared

fun in_flight_step :: "'v sizes \<Rightarrow> 'v in_flight \<Rightarrow> 'v in_flight_call \<Rightarrow> 'v in_flight" where
  "in_flight_step sz s (Recorded r p) = record_output sz r p s"
| "in_flight_step sz s (Settled r p) = settle r p s"
| "in_flight_step sz s Cleared = in_flight_empty"

definition chunks_ok :: "(bool \<times> utext) list \<Rightarrow> bool" where
  "chunks_ok chunks \<longleftrightarrow> chunks \<noteq> [] \<and> distinct_adj (map fst chunks)"

definition in_flight_ok :: "'v in_flight \<Rightarrow> bool" where
  "in_flight_ok s \<longleftrightarrow>
     distinct (map ia_attempt (if_attempts s)) \<and> (\<forall>a\<in>set (if_attempts s). chunks_ok (ia_chunks a))
     \<and> distinct (map it_call (if_tools s)) \<and> distinct (map ig_invocation (if_agents s))
     \<and> distinct (map (fst \<circ> snd) (if_presentations s))
     \<and> (case if_compaction s of None \<Rightarrow> True | Some (_, p) \<Rightarrow> \<exists>model. p = NativeCompactionStarted model)"

lemma find_or_push_new: "(\<And>x. x \<in> set xs \<Longrightarrow> \<not> P x) \<Longrightarrow> find_or_push P new f xs = xs @ [f new]"
  by (simp add: find_or_push_def position_None [THEN iffD2])

lemma find_or_push_key:
  "k \<notin> key ` set xs \<Longrightarrow> find_or_push (\<lambda>x. key x = k) new f xs = xs @ [f new]"
  by (auto intro!: find_or_push_new)

lemma find_or_push_last:
  "(\<And>x. x \<in> set xs \<Longrightarrow> \<not> P x) \<Longrightarrow> P x \<Longrightarrow> find_or_push P new f (xs @ [x]) = xs @ [f x]"
proof -
  assume "\<And>x. x \<in> set xs \<Longrightarrow> \<not> P x" "P x"
  then have "position P (xs @ [x]) = Some (length xs)"
    by (induction xs) auto
  then show ?thesis by (simp add: find_or_push_def)
qed

lemma find_or_push_last_key:
  "k \<notin> key ` set xs \<Longrightarrow> key x = k \<Longrightarrow> find_or_push (\<lambda>x. key x = k) new f (xs @ [x]) = xs @ [f x]"
  by (rule find_or_push_last) (auto simp: image_iff)

lemma find_or_push_distinct:
  assumes "distinct (map key xs)" and "\<And>x. P x \<longleftrightarrow> key x = k" and "\<And>x. key x = k \<Longrightarrow> key (f x) = k"
    and "key new = k"
  shows "distinct (map key (find_or_push P new f xs))"
proof (cases "position P xs")
  case None
  then have "\<forall>x\<in>set xs. key x \<noteq> k"
    using assms(2) by (simp add: position_None)
  with None assms show ?thesis by (auto simp: find_or_push_def)
next
  case (Some i)
  then have "map key (xs[i := f (xs ! i)]) = map key xs"
    using position_Some [OF Some] assms(2,3) by (simp add: map_update list_update_same_conv)
  with Some assms(1) show ?thesis by (simp add: find_or_push_def)
qed

lemma find_or_push_all:
  "(\<And>x. x \<in> set xs \<Longrightarrow> Q x) \<Longrightarrow> Q (f new) \<Longrightarrow> (\<And>x. Q x \<Longrightarrow> Q (f x)) \<Longrightarrow> y \<in> set (find_or_push P new f xs) \<Longrightarrow> Q y"
  by (auto simp: find_or_push_def dest: position_Some dest!: subsetD [OF set_update_subset_insert] split: option.splits)

lemma push_chunk_ok: "chunks_ok chunks \<Longrightarrow> chunks_ok (push_chunk reasoning t chunks)"
proof (cases chunks rule: rev_cases)
  case (snoc cs c)
  assume "chunks_ok chunks"
  with snoc show ?thesis
    by (cases "fst c = reasoning") (auto simp: chunks_ok_def push_chunk_def distinct_adj_append_iff)
qed (simp add: chunks_ok_def)

lemma push_chunk_first: "chunks_ok (push_chunk reasoning t [])"
  by (simp add: chunks_ok_def push_chunk_def)

lemma tool_progress_call [simp]: "it_call (tool_progress sz message display tool) = it_call tool"
  by (auto simp: tool_progress_def Let_def split: option.split opened.split)

lemma ok_context [simp]: "in_flight_ok (s\<lparr>if_context := c\<rparr>) = in_flight_ok s"
  by (simp add: in_flight_ok_def)

lemma record_output_ok:
  assumes "in_flight_ok s"
  shows "in_flight_ok (record_output sz r p s)"
proof -
  have attempts: "in_flight_ok (append_chunk r attempt reasoning t s)" for attempt reasoning t
    using assms
    by (auto simp: append_chunk_def in_flight_ok_def
        intro!: find_or_push_distinct [where k = attempt]
        elim!: find_or_push_all [rotated 3] intro: push_chunk_ok push_chunk_first)
  have presented: "in_flight_ok (record_presentation r p s')" if "in_flight_ok s'" for p s'
    using that
    by (auto simp: record_presentation_def in_flight_ok_def
        intro!: find_or_push_distinct [where key = "fst \<circ> snd" and k = "fst p"])
  show ?thesis
  proof (cases p)
    case (ToolCallProgress call message display)
    then show ?thesis
      using assms by (auto simp: in_flight_ok_def intro!: find_or_push_distinct [where k = call])
  next
    case (InternalAgentTextDelta invocation t)
    then show ?thesis
      using assms by (auto simp: in_flight_ok_def intro!: find_or_push_distinct [where k = invocation])
  next
    case (AcpLiveUpdate presentation usage)
    then show ?thesis
      using assms presented by (auto simp: Let_def split: option.splits)
  next
    case (NativeCompactionStarted model)
    then show ?thesis using assms by (simp add: in_flight_ok_def)
  next
    case (NativeCompactionFinished model)
    then show ?thesis using assms by (simp add: in_flight_ok_def)
  qed (use assms attempts in simp_all)
qed

lemma filter_distinct_map: "distinct (map key xs) \<Longrightarrow> distinct (map key (filter P xs))"
  by (induction xs) auto

lemma settle_ok: "in_flight_ok s \<Longrightarrow> in_flight_ok (settle r p s)"
proof -
  assume "in_flight_ok s"
  moreover have "in_flight_ok (end_run run s)" if "in_flight_ok s" for run
    using that by (auto simp: in_flight_ok_def end_run_def filter_distinct_map split: option.splits)
  ultimately show ?thesis
    by (cases p) (auto simp: in_flight_ok_def filter_distinct_map split: option.splits)
qed

lemma in_flight_empty_ok: "in_flight_ok in_flight_empty"
  by (simp add: in_flight_ok_def in_flight_empty_def)

interpretation in_flights: event_fold in_flight_empty "in_flight_step sz" in_flight_ok for sz
proof
  show "in_flight_ok in_flight_empty" by (rule in_flight_empty_ok)
  show "in_flight_ok (in_flight_step sz s e)" if "in_flight_ok s" for s and e :: "'a in_flight_call"
    using that by (cases e) (simp_all add: record_output_ok settle_ok in_flight_empty_ok)
qed

subsection \<open>A reader that is given the replay\<close>

definition take_in :: "'v sizes \<Rightarrow> 'v in_flight \<Rightarrow> 'v live_output list \<Rightarrow> 'v in_flight" where
  "take_in sz s outs = foldl (\<lambda>s (r, p). record_output sz r p s) s outs"

lemma take_in_simps [simp]:
  "take_in sz s [] = s" "take_in sz s ((r, p) # outs) = take_in sz (record_output sz r p s) outs"
  "take_in sz s (outs @ outs') = take_in sz (take_in sz s outs) outs'"
  by (simp_all add: take_in_def)

text \<open>One attempt: its first chunk makes it, and the others, of alternating kinds, are added.\<close>

lemma take_in_chunks:
  assumes "attempt \<notin> ia_attempt ` set others" and "chunks_ok (pre @ chunks)" and "pre \<noteq> []"
  shows "take_in sz (s\<lparr>if_attempts := others @ [\<lparr>ia_run = r, ia_attempt = attempt, ia_chunks = pre\<rparr>]\<rparr>)
      (map (\<lambda>(reasoning, t). (r, if reasoning then ReasoningDelta attempt t else TextDelta attempt t)) chunks)
    = s\<lparr>if_attempts := others @ [\<lparr>ia_run = r, ia_attempt = attempt, ia_chunks = pre @ chunks\<rparr>]\<rparr>"
  using assms(2,3)
proof (induction chunks arbitrary: pre)
  case (Cons c chunks)
  obtain reasoning t where c: "c = (reasoning, t)" by fastforce
  have "fst (last pre) \<noteq> reasoning"
    using Cons.prems c by (cases pre rule: rev_cases) (auto simp: chunks_ok_def distinct_adj_append_iff)
  then have "push_chunk reasoning t pre = pre @ [(reasoning, t)]"
    by (simp add: push_chunk_def)
  then have "append_chunk r attempt reasoning t
      (s\<lparr>if_attempts := others @ [\<lparr>ia_run = r, ia_attempt = attempt, ia_chunks = pre\<rparr>]\<rparr>)
    = s\<lparr>if_attempts := others @ [\<lparr>ia_run = r, ia_attempt = attempt, ia_chunks = pre @ [c]\<rparr>]\<rparr>"
    using assms(1) by (simp add: append_chunk_def c find_or_push_last_key)
  then show ?case
    using Cons.IH [of "pre @ [c]"] Cons.prems by (cases reasoning) (simp_all add: c)
qed simp

lemma take_in_attempt:
  assumes "ia_attempt a \<notin> ia_attempt ` set (if_attempts s)" and "chunks_ok (ia_chunks a)"
  shows "take_in sz s (attempt_replay a) = s\<lparr>if_attempts := if_attempts s @ [a]\<rparr>"
proof -
  obtain reasoning t chunks where chunks: "ia_chunks a = (reasoning, t) # chunks"
    using assms(2) by (cases "ia_chunks a") (auto simp: chunks_ok_def)
  have "append_chunk (ia_run a) (ia_attempt a) reasoning t s
      = s\<lparr>if_attempts := if_attempts s @ [\<lparr>ia_run = ia_run a, ia_attempt = ia_attempt a, ia_chunks = [(reasoning, t)]\<rparr>]\<rparr>"
    using assms(1) by (simp add: append_chunk_def find_or_push_key push_chunk_def)
  then have "take_in sz s (attempt_replay a) = s\<lparr>if_attempts := if_attempts s
      @ [\<lparr>ia_run = ia_run a, ia_attempt = ia_attempt a, ia_chunks = ia_chunks a\<rparr>]\<rparr>"
    using take_in_chunks [where others = "if_attempts s" and attempt = "ia_attempt a"
        and pre = "[(reasoning, t)]" and chunks = chunks and sz = sz and s = s and r = "ia_run a"] assms chunks
    by (cases reasoning) (simp_all add: attempt_replay_def)
  then show ?thesis by simp
qed

lemma take_in_attempts:
  assumes "distinct (map ia_attempt (if_attempts s @ attempts))" and "\<forall>a\<in>set attempts. chunks_ok (ia_chunks a)"
  shows "take_in sz s (concat (map attempt_replay attempts)) = s\<lparr>if_attempts := if_attempts s @ attempts\<rparr>"
  using assms
proof (induction attempts arbitrary: s)
  case (Cons a attempts)
  have "take_in sz s (attempt_replay a) = s\<lparr>if_attempts := if_attempts s @ [a]\<rparr>"
    using Cons.prems by (intro take_in_attempt) auto
  then show ?case
    using Cons.IH [of "s\<lparr>if_attempts := if_attempts s @ [a]\<rparr>"] Cons.prems by simp
qed simp

text \<open>A tool as a reader of the replay has it.\<close>

definition rejoined :: "'v sizes \<Rightarrow> 'v in_flight_tool \<Rightarrow> 'v in_flight_tool" where
  "rejoined sz tool = tool\<lparr>it_display :=
     (if ld_blocks (it_display tool) = [] then live_empty
      else live_next sz live_empty (Replace (ld_blocks (it_display tool))))\<rparr>"

lemma take_in_tools:
  assumes "distinct (map it_call (if_tools s @ tools))"
  shows "take_in sz s (map tool_replay tools) = s\<lparr>if_tools := if_tools s @ map (rejoined sz) tools\<rparr>"
  using assms
proof (induction tools arbitrary: s)
  case (Cons tool tools)
  have "take_in sz s [tool_replay tool] = s\<lparr>if_tools := if_tools s @ [rejoined sz tool]\<rparr>"
    using Cons.prems
    by (simp add: tool_replay_def find_or_push_key tool_progress_def rejoined_def)
  then show ?case
    using Cons.IH [of "s\<lparr>if_tools := if_tools s @ [rejoined sz tool]\<rparr>"] Cons.prems
    by (simp add: take_in_def rejoined_def)
qed simp

lemma take_in_agents:
  assumes "distinct (map ig_invocation (if_agents s @ agents))"
  shows "take_in sz s (map (\<lambda>agent. (ig_run agent, InternalAgentTextDelta (ig_invocation agent) (ig_text agent))) agents)
    = s\<lparr>if_agents := if_agents s @ agents\<rparr>"
  using assms
proof (induction agents arbitrary: s)
  case (Cons a agents)
  then show ?case
    using Cons.IH [of "s\<lparr>if_agents := if_agents s @ [a]\<rparr>"] by (simp add: find_or_push_key)
qed simp

lemma take_in_presentations:
  assumes "distinct (map (fst \<circ> snd) (if_presentations s @ ps))"
  shows "take_in sz s (map (\<lambda>(r, presented). (r, AcpLiveUpdate (Some presented) None)) ps)
    = s\<lparr>if_presentations := if_presentations s @ ps\<rparr>"
  using assms
proof (induction ps arbitrary: s)
  case (Cons p ps)
  obtain r call presented where p: "p = (r, call, presented)" by (cases p) auto
  have "\<forall>x\<in>set (if_presentations s). fst (snd x) \<noteq> call"
    using Cons.prems by (auto simp: p)
  then have "record_presentation r (call, presented) s = s\<lparr>if_presentations := if_presentations s @ [p]\<rparr>"
    by (simp add: record_presentation_def find_or_push_new p split_beta)
  then show ?case
    using Cons.IH [of "s\<lparr>if_presentations := if_presentations s @ [p]\<rparr>"] Cons.prems by (simp add: p)
qed simp

lemma take_in_replay:
  assumes "in_flight_ok s"
  shows "take_in sz in_flight_empty (replay s) = s\<lparr>if_tools := map (rejoined sz) (if_tools s)\<rparr>"
  using assms
  by (auto simp: replay_def acp_live_state_def in_flight_ok_def in_flight_empty_def take_in_attempts
      take_in_tools take_in_agents take_in_presentations split: option.split)

text \<open>The live display of a tool, as a reader sees it: without what it cost.\<close>

definition as_seen :: "'v in_flight \<Rightarrow> 'v in_flight" where
  "as_seen s = if_tools_update (map (it_display_update (ld_used_update (\<lambda>_. 0)))) s"

definition displays_fit :: "'v sizes \<Rightarrow> 'v in_flight \<Rightarrow> bool" where
  "displays_fit sz s \<longleftrightarrow> list_all (\<lambda>tool. blocks_len sz (ld_blocks (it_display tool)) \<le> DISPLAY_BUDGET_BYTES) (if_tools s)"

lemma live_replaced:
  assumes "blocks_len sz bs \<le> DISPLAY_BUDGET_BYTES"
  shows "live_next sz live_empty (Replace bs) = \<lparr>ld_blocks = bs, ld_used = blocks_len sz bs\<rparr>"
  using assms by (simp add: live_next_def admit_def live_empty_def)

lemma rejoined_seen:
  assumes "blocks_len sz (ld_blocks (it_display tool)) \<le> DISPLAY_BUDGET_BYTES"
  shows "it_display_update (ld_used_update (\<lambda>_. 0)) (rejoined sz tool)
    = it_display_update (ld_used_update (\<lambda>_. 0)) tool"
proof -
  have "ld_used_update (\<lambda>_. 0) live_empty = ld_used_update (\<lambda>_. 0) (it_display tool)"
    if "ld_blocks (it_display tool) = []"
    using that by (cases "it_display tool") (simp add: live_empty_def)
  moreover have "ld_used_update (\<lambda>_. 0) (live_next sz live_empty (Replace (ld_blocks (it_display tool))))
      = ld_used_update (\<lambda>_. 0) (it_display tool)"
    unfolding live_replaced [OF assms] by (cases "it_display tool") simp
  ultimately show ?thesis by (cases tool) (auto simp: rejoined_def)
qed

text \<open>
  C15. A reader that joins in the middle of a run misses nothing, as long as the JSON of each live
  display fits its budget (\<open>displays_fit\<close>; \<open>late_reader_cut\<close> shows that without it the display may be
  cut for the reader). However outputs, durable events and reverts came, a reader that is given the
  replay and takes it in as live output is then in the state of one that was there all along, up to
  the costs counted for its displays.
\<close>

theorem replay_rebuilds_in_flight:
  assumes "displays_fit sz (in_flights.run sz calls)"
  shows "as_seen (take_in sz in_flight_empty (replay (in_flights.run sz calls)))
    = as_seen (in_flights.run sz calls)"
proof -
  let ?s = "in_flights.run sz calls"
  have "take_in sz in_flight_empty (replay ?s) = ?s\<lparr>if_tools := map (rejoined sz) (if_tools ?s)\<rparr>"
    by (rule take_in_replay [OF in_flights.inv_run])
  moreover have "map (it_display_update (ld_used_update (\<lambda>_. 0))) (map (rejoined sz) (if_tools ?s))
      = map (it_display_update (ld_used_update (\<lambda>_. 0))) (if_tools ?s)"
    using assms by (auto simp: displays_fit_def list_all_iff rejoined_seen)
  ultimately show ?thesis by (simp add: as_seen_def)
qed

theorem replay_rebuilds_in_flight_witness:
  "\<exists>s. s = in_flights.run sample_sizes [Recorded (Some 1) (ReasoningDelta 5 [97]),
        Recorded (Some 1) (ReasoningDelta 5 [98]), Recorded (Some 1) (TextDelta 5 [99])]
    \<and> replay s = [(Some 1, ReasoningDelta 5 [97, 98]), (Some 1, TextDelta 5 [99])]
    \<and> as_seen (take_in sample_sizes in_flight_empty (replay s)) = as_seen s"
proof -
  let ?calls = "[Recorded (Some 1) (ReasoningDelta 5 [97]),
        Recorded (Some 1) (ReasoningDelta 5 [98]), Recorded (Some 1) (TextDelta 5 [99])]"
  define s where "s = in_flights.run sample_sizes ?calls"
  have s: "s = in_flight_empty\<lparr>if_attempts :=
      [\<lparr>ia_run = Some 1, ia_attempt = 5, ia_chunks = [(True, [97, 98]), (False, [99])]\<rparr>]\<rparr>"
    unfolding s_def in_flights.run_def
    by (simp add: append_chunk_def find_or_push_def push_chunk_def in_flight_empty_def)
  then have "displays_fit sample_sizes s"
    by (simp add: displays_fit_def in_flight_empty_def)
  from replay_rebuilds_in_flight [OF this [unfolded s_def], folded s_def]
  have "as_seen (take_in sample_sizes in_flight_empty (replay s)) = as_seen s" .
  moreover have "replay s = [(Some 1, ReasoningDelta 5 [97, 98]), (Some 1, TextDelta 5 [99])]"
    by (simp add: s in_flight_empty_def replay_def attempt_replay_def acp_live_state_def)
  ultimately show ?thesis using s_def by blast
qed

text \<open>
  The end of a run ends its output and no other's: once a run has finished, nothing of it is
  replayed, and what is replayed of other runs, or of none, is what was.
\<close>

theorem finished_run_not_replayed:
  "replay (settle (Some r) RunFinished s) = filter (\<lambda>(owner, _). owner \<noteq> Some r) (replay s)"
proof -
  have "concat (map attempt_replay (filter (\<lambda>a. ia_run a \<noteq> Some r) attempts))
      = filter (\<lambda>(owner, _). owner \<noteq> Some r) (concat (map attempt_replay attempts) :: 'a live_output list)"
    for attempts
  proof (induction attempts)
    case (Cons a attempts)
    have "filter (\<lambda>(owner, _). owner \<noteq> Some r) (attempt_replay a)
        = (if ia_run a \<noteq> Some r then attempt_replay a else [] :: 'a live_output list)"
      by (auto simp: attempt_replay_def filter_map comp_def case_prod_beta')
    with Cons show ?case by (cases "ia_run a = Some r") simp_all
  qed simp
  moreover have "map tool_replay (filter (\<lambda>tool. it_run tool \<noteq> Some r) tools)
      = filter (\<lambda>(owner, _). owner \<noteq> Some r) (map tool_replay tools)" for tools :: "'a in_flight_tool list"
    by (simp add: filter_map comp_def tool_replay_def)
  ultimately show ?thesis
    by (auto simp: end_run_def replay_def acp_live_state_def owned_by_def filter_map comp_def case_prod_beta'
        split: option.splits)
qed

text \<open>
  Where the JSON is longer, as a text of line breaks is, which cost one byte each and are written
  as two, the reader gets less than the others have.
\<close>

lemma late_reader_cut:
  assumes "compact sz" and "DISPLAY_BUDGET_BYTES < known_len sz bs"
  shows "ld_blocks (live_next sz live_empty (Replace (map Known bs))) \<noteq> map Known bs"
proof -
  have "known_len sz (fit_display_budget sz bs DISPLAY_BUDGET_BYTES) \<le> DISPLAY_BUDGET_BYTES"
    using fit_budget_len [OF assms(1), of bs DISPLAY_BUDGET_BYTES] by (simp add: DISPLAY_BUDGET_BYTES_def)
  then have "fit_display_budget sz bs DISPLAY_BUDGET_BYTES \<noteq> bs"
    using assms(2) by auto
  moreover have "bs \<noteq> []"
    using assms by (auto simp: known_len_def compact_def DISPLAY_BUDGET_BYTES_def)
  ultimately show ?thesis
    using assms(2) by (auto simp: live_next_def admit_def live_empty_def Let_def inj_map_eq_map inj_def)
qed

lemma line_breaks_exceed_budget:
  assumes "compact sz" and "\<And>t. 2 * byte_len t \<le> block_len sz (Text t None)"
  shows "\<exists>bs. ld_blocks (live_next sz live_empty (Append 0 (replicate 40000 10) None)) = map Known bs
    \<and> DISPLAY_BUDGET_BYTES < known_len sz bs"
proof -
  define t :: utext where "t = replicate 40000 10"
  have len: "byte_len (replicate n 10) = n" for n
    by (induction n) (simp_all add: utf8_len_def)
  then have bytes: "byte_len t = 40000" by (simp add: t_def)
  then have "take_bytes DISPLAY_BUDGET_BYTES t = t" "t \<noteq> []"
    by (simp_all add: take_bytes_all DISPLAY_BUDGET_BYTES_def) (auto simp: t_def)
  then have "ld_blocks (live_next sz live_empty (Append 0 t None)) = map Known [Text t None]"
    by (simp add: live_next_def admit_def live_empty_def)
  moreover have "DISPLAY_BUDGET_BYTES < known_len sz [Text t None]"
    using assms(2) [of t] assms(1) bytes by (simp add: known_len_def compact_def DISPLAY_BUDGET_BYTES_def)
  ultimately show ?thesis unfolding t_def by blast
qed

end
