(* ===== verification/Durability.thy ===== *)
theory Durability
  imports Prelude
begin

text \<open>
  When the records of a session's log reach the disk
  (\<open>crates/engine_store/src/events/durability.rs\<close>). Each method is split where it lets go of the
  state's lock to sync: the part before gives the work, the part after takes its outcome. What the
  file system answers to each sync is an argument. A file or folder is known by a number; the
  duplicate of the writer's descriptor is there or not.
\<close>

type_synonym file_path = nat

datatype io_error = IoError

record durability =
  du_written :: nat
  du_synced :: nat
  du_settled :: nat
  du_syncing :: bool
  du_file :: bool
  du_directory :: "file_path option"
  du_blobs :: "file_path list"
  du_blob_directory :: "file_path option"
  du_synced_blobs :: "file_path set"

definition durability_new :: durability where
  "durability_new =
     \<lparr>du_written = 0, du_synced = 0, du_settled = 0, du_syncing = False, du_file = False,
      du_directory = None, du_blobs = [], du_blob_directory = None, du_synced_blobs = {}\<rparr>"

text \<open>\<open>folder\<close> is the log's own folder; the descriptor is duplicated first.\<close>

definition attach :: "file_path option \<Rightarrow> bool \<Rightarrow> bool \<Rightarrow> durability \<Rightarrow> io_error + durability" where
  "attach folder cloned created d =
     (if \<not> cloned then Inl IoError
      else Inr (d\<lparr>du_file := True, du_directory := (if created then folder else du_directory d)\<rparr>))"

definition written :: "durability \<Rightarrow> (nat \<times> bool) \<times> durability" where
  "written d =
     (let d = d\<lparr>du_written := du_written d + 1\<rparr> in ((du_written d, du_directory d \<noteq> None), d))"

fun name_blob :: "file_path \<times> bool \<Rightarrow> durability \<Rightarrow> bool \<times> durability" where
  "name_blob (blob, stored) d =
     (if \<not> stored \<and> blob \<in> du_synced_blobs d then (False, d)
      else (let d = (if stored then d\<lparr>du_synced_blobs := du_synced_blobs d - {blob}\<rparr> else d)
            in (True, if blob \<in> set (du_blobs d) then d else d\<lparr>du_blobs := du_blobs d @ [blob]\<rparr>)))"

fun name_each :: "(file_path \<times> bool) list \<Rightarrow> bool \<times> durability \<Rightarrow> bool \<times> durability" where
  "name_each [] acc = acc"
| "name_each (b # bs) (any, d) =
     (let (named, d') = name_blob b d in name_each bs (any \<or> named, d'))"

definition names_blobs :: "file_path \<Rightarrow> (file_path \<times> bool) list \<Rightarrow> durability \<Rightarrow> durability" where
  "names_blobs directory blobs d =
     (let (any, d') = name_each blobs (False, d)
      in if any then d'\<lparr>du_blob_directory := Some directory\<rparr> else d')"

definition latest :: "durability \<Rightarrow> nat" where
  "latest d = du_written d"

definition is_settled :: "nat \<Rightarrow> durability \<Rightarrow> bool" where
  "is_settled commit d \<longleftrightarrow> commit \<le> du_settled d"

subsection \<open>The blobs of a sync\<close>

record blobs_taken =
  bl_paths :: "file_path list"
  bl_directory :: "file_path option"

definition take_blobs :: "durability \<Rightarrow> blobs_taken \<times> durability" where
  "take_blobs d =
     (\<lparr>bl_paths = du_blobs d, bl_directory = du_blob_directory d\<rparr>, d\<lparr>du_blobs := [], du_blob_directory := None\<rparr>)"

definition blobs_synced :: "blobs_taken \<Rightarrow> durability \<Rightarrow> durability" where
  "blobs_synced b d = d\<lparr>du_synced_blobs := du_synced_blobs d \<union> set (bl_paths b)\<rparr>"

definition restore_blobs :: "blobs_taken \<Rightarrow> durability \<Rightarrow> durability" where
  "restore_blobs b d =
     d\<lparr>du_blobs := bl_paths b @ du_blobs d,
       du_blob_directory := (if du_blob_directory d = None then bl_directory b else du_blob_directory d)\<rparr>"

text \<open>
  The syncs of the file system, in order up to the first that fails: a blob, a folder, or the log's
  own file.
\<close>

datatype synced_item = BlobItem file_path | FolderItem file_path | LogItem

fun perform :: "(synced_item \<Rightarrow> bool) \<Rightarrow> synced_item list \<Rightarrow> (io_error + unit) \<times> synced_item list" where
  "perform answer [] = (Inr (), [])"
| "perform answer (x # xs) =
     (if answer x then (let (r, synced) = perform answer xs in (r, x # synced)) else (Inl IoError, []))"

definition folder_item :: "file_path option \<Rightarrow> synced_item list" where
  "folder_item d = (case d of Some d \<Rightarrow> [FolderItem d] | None \<Rightarrow> [])"

definition blob_items :: "blobs_taken \<Rightarrow> synced_item list" where
  "blob_items b = map BlobItem (bl_paths b) @ folder_item (bl_directory b)"

definition sync_items :: "bool \<Rightarrow> file_path option \<Rightarrow> blobs_taken \<Rightarrow> synced_item list" where
  "sync_items file directory b =
     blob_items b @ (if file then [LogItem] else []) @ folder_item directory"

subsection \<open>Waiting for a sync\<close>

record sync_job =
  jo_target :: nat
  jo_file :: bool
  jo_directory :: "file_path option"
  jo_blobs :: blobs_taken

datatype turn = Covered | Waits | Syncs sync_job

text \<open>A turn of the loop of \<open>sync_through\<close>, up to the sync or the wait, and what follows the sync.\<close>

definition sync_turn :: "nat \<Rightarrow> durability \<Rightarrow> turn \<times> durability" where
  "sync_turn commit d =
     (if commit \<le> du_synced d then (Covered, d)
      else if du_syncing d then (Waits, d)
      else (let d1 = d\<lparr>du_syncing := True, du_directory := None\<rparr>;
                (b, d2) = take_blobs d1
            in (Syncs \<lparr>jo_target = du_written d, jo_file = du_file d, jo_directory = du_directory d, jo_blobs = b\<rparr>, d2)))"

definition sync_failed :: "sync_job \<Rightarrow> durability \<Rightarrow> durability" where
  "sync_failed j d =
     restore_blobs (jo_blobs j) (if du_directory d = None then d\<lparr>du_directory := jo_directory j\<rparr> else d)"

definition sync_ended :: "sync_job \<Rightarrow> io_error + unit \<Rightarrow> durability \<Rightarrow> durability" where
  "sync_ended j result d =
     (let d = d\<lparr>du_syncing := False, du_settled := max (du_settled d) (jo_target j)\<rparr>
      in case result of
           Inr _ \<Rightarrow> blobs_synced (jo_blobs j) (d\<lparr>du_synced := max (du_synced d) (jo_target j)\<rparr>)
         | Inl _ \<Rightarrow> sync_failed j d)"

subsection \<open>Closing and cutting\<close>

text \<open>The closing writer syncs on its own descriptor.\<close>

definition close_start :: "durability \<Rightarrow> sync_job option \<times> durability" where
  "close_start d =
     (if du_written d \<le> du_synced d then (None, d\<lparr>du_file := False\<rparr>)
      else (let (b, d1) = take_blobs (d\<lparr>du_directory := None\<rparr>)
            in (Some \<lparr>jo_target = du_written d, jo_file = True, jo_directory = du_directory d, jo_blobs = b\<rparr>, d1)))"

definition close_ended :: "sync_job \<Rightarrow> io_error + unit \<Rightarrow> durability \<Rightarrow> durability" where
  "close_ended j result d =
     (case result of
        Inr _ \<Rightarrow>
          (let d = blobs_synced (jo_blobs j) (d\<lparr>du_synced := max (du_synced d) (jo_target j),
                 du_settled := max (du_settled d) (jo_target j)\<rparr>)
           in if du_written d \<le> du_synced d then d\<lparr>du_file := False\<rparr> else d)
      | Inl _ \<Rightarrow> sync_failed j d)"

definition cut_ended :: "blobs_taken \<Rightarrow> io_error + unit \<Rightarrow> durability \<Rightarrow> durability" where
  "cut_ended b result d =
     (case result of
        Inl _ \<Rightarrow> restore_blobs b d
      | Inr _ \<Rightarrow> (blobs_synced b d)\<lparr>du_synced := du_written d, du_settled := du_written d\<rparr>)"

subsection \<open>A log that is written and synced\<close>

text \<open>
  The callers of \<open>sync_through\<close>, the work they and a closing writer or a cut have in hand, and what
  is on the disk. A record of the log is known by the blobs it names; a revert cuts records from
  the file, not from this account. The writer's lock and the append lock keep appends out of a
  close and a cut.
\<close>

type_synonym caller = nat

datatype phase = Idle | Calling nat | Waiting nat | Syncing nat | Returned nat bool

datatype work = Sync caller nat sync_job | Close sync_job | Cut blobs_taken

type_synonym outcome = "io_error + unit"

record log_system =
  ls_state :: durability
  ls_exists :: bool
  ls_open :: bool
  ls_works :: "(work \<times> outcome option) list"
  ls_phase :: "caller \<Rightarrow> phase"
  ls_naming :: "file_path set option"
  ls_names :: "file_path set list"
  ls_disk :: "file_path set"
  ls_durable :: nat
  ls_entry :: bool

definition log_start :: "bool \<Rightarrow> log_system" where
  "log_start existing =
     \<lparr>ls_state = durability_new, ls_exists = existing, ls_open = False, ls_works = [], ls_phase = (\<lambda>_. Idle),
      ls_naming = None, ls_names = [], ls_disk = {}, ls_durable = 0, ls_entry = existing\<rparr>"

fun taken_paths :: "work \<Rightarrow> blobs_taken" where
  "taken_paths (Sync _ _ j) = jo_blobs j"
| "taken_paths (Close j) = jo_blobs j"
| "taken_paths (Cut b) = b"

fun items :: "work \<Rightarrow> synced_item list" where
  "items (Sync _ _ j) = sync_items (jo_file j) (jo_directory j) (jo_blobs j)"
| "items (Close j) = sync_items (jo_file j) (jo_directory j) (jo_blobs j)"
| "items (Cut b) = blob_items b"

text \<open>
  What the syncs leave on the disk: blobs with the entry of their folder, all that is written to the
  file, and the entry of the file.
\<close>

definition put_on_disk :: "file_path \<Rightarrow> file_path \<Rightarrow> synced_item list \<Rightarrow> log_system \<Rightarrow> log_system" where
  "put_on_disk folder blob_folder xs s =
     s\<lparr>ls_disk := ls_disk s \<union> (if FolderItem blob_folder \<in> set xs then {p. BlobItem p \<in> set xs} else {}),
       ls_durable := (if LogItem \<in> set xs then length (ls_names s) else ls_durable s),
       ls_entry := (ls_entry s \<or> FolderItem folder \<in> set xs)\<rparr>"

definition notify_all :: "(caller \<Rightarrow> phase) \<Rightarrow> caller \<Rightarrow> phase" where
  "notify_all ph = (\<lambda>t. case ph t of Waiting c \<Rightarrow> Calling c | p \<Rightarrow> p)"

fun ended :: "work \<Rightarrow> outcome \<Rightarrow> log_system \<Rightarrow> log_system" where
  "ended (Sync t c j) r s =
     s\<lparr>ls_state := sync_ended j r (ls_state s),
       ls_phase := (notify_all (ls_phase s))(t := (case r of Inl _ \<Rightarrow> Returned c False | Inr _ \<Rightarrow> Calling c))\<rparr>"
| "ended (Close j) r s = s\<lparr>ls_state := close_ended j r (ls_state s), ls_phase := notify_all (ls_phase s)\<rparr>"
| "ended (Cut b) r s =
     s\<lparr>ls_state := cut_ended b r (ls_state s),
       ls_phase := (case r of Inl _ \<Rightarrow> ls_phase s | Inr _ \<Rightarrow> notify_all (ls_phase s))\<rparr>"

definition appending :: "log_system \<Rightarrow> bool" where
  "appending s \<longleftrightarrow> list_all (\<lambda>(w, _). case w of Sync _ _ _ \<Rightarrow> True | _ \<Rightarrow> False) (ls_works s)"

text \<open>
  The steps. With \<open>calm\<close> no writer closes and no revert cuts the log while a sync is running, and no
  log is cut whose entry in its folder is still owed.
\<close>

inductive log_step :: "file_path \<Rightarrow> file_path \<Rightarrow> bool \<Rightarrow> log_system \<Rightarrow> log_system \<Rightarrow> bool"
  for folder blob_folder calm where
  open_writer: "appending s \<Longrightarrow> \<not> ls_open s \<Longrightarrow>
    attach (Some folder) cloned (\<not> ls_exists s) (ls_state s) = Inr d \<Longrightarrow>
    log_step folder blob_folder calm s (s\<lparr>ls_state := d, ls_exists := True, ls_open := True\<rparr>)"
| name: "appending s \<Longrightarrow> ls_naming s = None \<Longrightarrow>
    log_step folder blob_folder calm s (s\<lparr>ls_state := names_blobs blob_folder bs (ls_state s),
      ls_naming := Some (fst ` set bs)\<rparr>)"
| append_record: "appending s \<Longrightarrow> ls_open s \<Longrightarrow> ls_naming s = Some ps \<Longrightarrow>
    log_step folder blob_folder calm s (s\<lparr>ls_state := snd (written (ls_state s)), ls_naming := None,
      ls_names := ls_names s @ [ps]\<rparr>)"
| append_failed: "ls_naming s = Some ps \<Longrightarrow> log_step folder blob_folder calm s (s\<lparr>ls_naming := None\<rparr>)"
| call: "c \<le> latest (ls_state s) \<Longrightarrow> ls_phase s t = Idle \<or> (\<exists>c r. ls_phase s t = Returned c r) \<Longrightarrow>
    log_step folder blob_folder calm s (s\<lparr>ls_phase := (ls_phase s)(t := Calling c)\<rparr>)"
| covered: "ls_phase s t = Calling c \<Longrightarrow> sync_turn c (ls_state s) = (Covered, d) \<Longrightarrow>
    log_step folder blob_folder calm s (s\<lparr>ls_state := d, ls_phase := (ls_phase s)(t := Returned c True)\<rparr>)"
| wait: "ls_phase s t = Calling c \<Longrightarrow> sync_turn c (ls_state s) = (Waits, d) \<Longrightarrow>
    log_step folder blob_folder calm s (s\<lparr>ls_state := d, ls_phase := (ls_phase s)(t := Waiting c)\<rparr>)"
| wake: "ls_phase s t = Waiting c \<Longrightarrow>
    log_step folder blob_folder calm s (s\<lparr>ls_phase := (ls_phase s)(t := Calling c)\<rparr>)"
| sync_start: "ls_phase s t = Calling c \<Longrightarrow> sync_turn c (ls_state s) = (Syncs j, d) \<Longrightarrow>
    (calm \<Longrightarrow> ls_works s = []) \<Longrightarrow>
    log_step folder blob_folder calm s (s\<lparr>ls_state := d, ls_phase := (ls_phase s)(t := Syncing c),
      ls_works := (Sync t c j, None) # ls_works s\<rparr>)"
| close_idle: "appending s \<Longrightarrow> ls_open s \<Longrightarrow> ls_naming s = None \<Longrightarrow> close_start (ls_state s) = (None, d) \<Longrightarrow>
    log_step folder blob_folder calm s (s\<lparr>ls_state := d, ls_open := False\<rparr>)"
| close_start: "appending s \<Longrightarrow> ls_open s \<Longrightarrow> ls_naming s = None \<Longrightarrow> close_start (ls_state s) = (Some j, d) \<Longrightarrow>
    (calm \<Longrightarrow> ls_works s = []) \<Longrightarrow>
    log_step folder blob_folder calm s (s\<lparr>ls_state := d, ls_open := False,
      ls_works := (Close j, None) # ls_works s\<rparr>)"
| cut_start: "appending s \<Longrightarrow> \<not> ls_open s \<Longrightarrow> ls_naming s = None \<Longrightarrow> ls_exists s \<Longrightarrow>
    take_blobs (ls_state s) = (b, d) \<Longrightarrow> (calm \<Longrightarrow> ls_works s = [] \<and> du_directory (ls_state s) = None) \<Longrightarrow>
    log_step folder blob_folder calm s (s\<lparr>ls_state := d, ls_durable := length (ls_names s),
      ls_works := (Cut b, None) # ls_works s\<rparr>)"
| sync: "ls_works s = ws @ (w, None) # ws' \<Longrightarrow> perform answer (items w) = (r, xs) \<Longrightarrow>
    log_step folder blob_folder calm s
      (put_on_disk folder blob_folder xs (s\<lparr>ls_works := ws @ (w, Some r) # ws'\<rparr>))"
| ended: "ls_works s = ws @ (w, Some r) # ws' \<Longrightarrow>
    log_step folder blob_folder calm s (ended w r (s\<lparr>ls_works := ws @ ws'\<rparr>))"

inductive log_reached :: "file_path \<Rightarrow> file_path \<Rightarrow> bool \<Rightarrow> log_system \<Rightarrow> bool" for folder blob_folder calm where
  start: "log_reached folder blob_folder calm (log_start existing)"
| step: "log_reached folder blob_folder calm s \<Longrightarrow> log_step folder blob_folder calm s s' \<Longrightarrow>
    log_reached folder blob_folder calm s'"

subsection \<open>What holds of it\<close>

definition named :: "nat \<Rightarrow> log_system \<Rightarrow> file_path set" where
  "named n s = \<Union> (set (take n (ls_names s)))"

fun target :: "log_system \<Rightarrow> work \<Rightarrow> nat" where
  "target s (Sync _ _ j) = jo_target j"
| "target s (Close j) = jo_target j"
| "target s (Cut _) = length (ls_names s)"

definition entry_of :: "work \<Rightarrow> file_path option" where
  "entry_of w = (case w of Sync _ _ j \<Rightarrow> jo_directory j | Close j \<Rightarrow> jo_directory j | Cut _ \<Rightarrow> None)"

definition logs :: "work \<Rightarrow> bool" where
  "logs w \<longleftrightarrow> (case w of Sync _ _ j \<Rightarrow> jo_file j | Close j \<Rightarrow> jo_file j | Cut _ \<Rightarrow> False)"

definition is_sync :: "work \<Rightarrow> bool" where
  "is_sync w \<longleftrightarrow> (case w of Sync _ _ _ \<Rightarrow> True | _ \<Rightarrow> False)"

text \<open>What a sync has to do, and what it did.\<close>

definition work_ok :: "file_path \<Rightarrow> file_path \<Rightarrow> log_system \<Rightarrow> work \<Rightarrow> outcome option \<Rightarrow> bool" where
  "work_ok folder blob_folder s w out \<longleftrightarrow>
     (let paths = set (bl_paths (taken_paths w)) in
        target s w \<le> length (ls_names s)
        \<and> named (target s w) s \<subseteq> ls_disk s \<union> paths
        \<and> (paths \<noteq> {} \<longrightarrow> bl_directory (taken_paths w) = Some blob_folder)
        \<and> bl_directory (taken_paths w) \<in> {None, Some blob_folder} \<and> entry_of w \<in> {None, Some folder}
        \<and> (is_sync w \<or> \<not> ls_open s)
        \<and> (logs w \<or> target s w \<le> ls_durable s) \<and> (ls_entry s \<or> entry_of w = Some folder)
        \<and> (out = Some (Inr ()) \<longrightarrow> paths \<subseteq> ls_disk s \<and> target s w \<le> ls_durable s \<and> ls_entry s))"

definition in_hand :: "log_system \<Rightarrow> file_path set" where
  "in_hand s = (\<Union>x\<in>set (ls_works s). set (bl_paths (taken_paths (fst x))))"

text \<open>The counters, which hold of every run.\<close>

definition counters_ok :: "log_system \<Rightarrow> bool" where
  "counters_ok s \<longleftrightarrow>
     (let d = ls_state s in du_synced d \<le> du_settled d \<and> du_settled d \<le> du_written d
        \<and> du_written d = length (ls_names s) \<and> (\<forall>x \<in> set (ls_works s). target s (fst x) \<le> length (ls_names s))
        \<and> (du_syncing d \<longleftrightarrow> (\<exists>x \<in> set (ls_works s). is_sync (fst x)))
        \<and> length (filter (\<lambda>x. is_sync (fst x)) (ls_works s)) \<le> 1
        \<and> (\<forall>t c. ls_phase s t = Waiting c \<longrightarrow> du_syncing d)
        \<and> (\<forall>t c. ls_phase s t \<in> {Calling c, Waiting c, Syncing c} \<longrightarrow> c \<le> du_written d)
        \<and> (\<forall>t c. ls_phase s t = Returned c True \<longrightarrow> c \<le> du_synced d)
        \<and> (\<forall>t c j r. (Sync t c j, r) \<in> set (ls_works s) \<longrightarrow> ls_phase s t = Syncing c))"

text \<open>What the disk holds, in a calm run.\<close>

definition disk_ok :: "file_path \<Rightarrow> file_path \<Rightarrow> log_system \<Rightarrow> bool" where
  "disk_ok folder blob_folder s \<longleftrightarrow>
     (let d = ls_state s in length (ls_works s) \<le> 1 \<and> ls_durable s \<le> length (ls_names s)
        \<and> (\<forall>w out. (w, out) \<in> set (ls_works s) \<longrightarrow> work_ok folder blob_folder s w out)
        \<and> (du_synced d < du_written d \<or> ls_open s \<longrightarrow> du_file d)
        \<and> named (length (ls_names s)) s \<union> (case ls_naming s of Some ps \<Rightarrow> ps | None \<Rightarrow> {})
            \<subseteq> ls_disk s \<union> set (du_blobs d) \<union> in_hand s
        \<and> du_synced_blobs d \<subseteq> ls_disk s
        \<and> (du_blobs d \<noteq> [] \<longrightarrow> du_blob_directory d = Some blob_folder)
        \<and> du_blob_directory d \<in> {None, Some blob_folder} \<and> du_directory d \<in> {None, Some folder}
        \<and> named (du_synced d) s \<subseteq> ls_disk s \<and> du_synced d \<le> ls_durable s \<and> (0 < du_synced d \<longrightarrow> ls_entry s)
        \<and> (ls_exists s \<and> \<not> ls_entry s \<longrightarrow> du_directory d = Some folder \<or> (\<exists>x \<in> set (ls_works s). entry_of (fst x) = Some folder))
        \<and> (ls_open s \<or> ls_names s \<noteq> [] \<longrightarrow> ls_exists s))"

lemma named_updates [simp]:
  "named n (s\<lparr>ls_state := d\<rparr>) = named n s" "named n (s\<lparr>ls_naming := ps\<rparr>) = named n s"
  "named n (s\<lparr>ls_phase := ph\<rparr>) = named n s" "named n (s\<lparr>ls_works := ws\<rparr>) = named n s"
  "named n (s\<lparr>ls_open := b\<rparr>) = named n s" "named n (s\<lparr>ls_exists := b\<rparr>) = named n s"
  "named n (s\<lparr>ls_durable := k\<rparr>) = named n s" "named n (s\<lparr>ls_disk := ps'\<rparr>) = named n s"
  "named n (s\<lparr>ls_entry := b\<rparr>) = named n s"
  by (simp_all add: named_def)

lemma named_appended: "n \<le> length (ls_names s) \<Longrightarrow> named n (s\<lparr>ls_names := ls_names s @ [ps]\<rparr>) = named n s"
  by (simp add: named_def)

lemma named_mono: "m \<le> n \<Longrightarrow> named m s \<subseteq> named n s"
  unfolding named_def using set_take_subset_set_take [of m n "ls_names s"] by blast

lemma named_cong: "ls_names s' = ls_names s \<Longrightarrow> named n s' = named n s"
  by (simp add: named_def)

lemma perform_all: "perform answer xs = (Inr u, ys) \<Longrightarrow> ys = xs"
  by (induction xs arbitrary: ys) (auto split: if_splits prod.splits)

lemma perform_some: "perform answer xs = (r, ys) \<Longrightarrow> set ys \<subseteq> set xs"
  by (induction xs arbitrary: ys) (auto split: if_splits prod.splits)

subsubsection \<open>The counters\<close>

lemma name_each_keeps:
  "name_each bs (any, d) = (any', d') \<Longrightarrow>
    d' = d\<lparr>du_blobs := du_blobs d', du_synced_blobs := du_synced_blobs d'\<rparr>
    \<and> du_synced_blobs d' \<subseteq> du_synced_blobs d \<and> set (du_blobs d) \<subseteq> set (du_blobs d')
    \<and> fst ` set bs \<subseteq> set (du_blobs d') \<union> du_synced_blobs d
    \<and> (any \<longrightarrow> any') \<and> (du_blobs d' \<noteq> du_blobs d \<longrightarrow> any')"
proof (induction bs arbitrary: any d)
  case (Cons b bs)
  obtain blob stored where b: "b = (blob, stored)" by fastforce
  obtain named d1 where one: "name_blob b d = (named, d1)" by fastforce
  have d1: "d1 = d\<lparr>du_blobs := du_blobs d1, du_synced_blobs := du_synced_blobs d1\<rparr>"
      "du_synced_blobs d1 \<subseteq> du_synced_blobs d" "set (du_blobs d) \<subseteq> set (du_blobs d1)"
      "blob \<in> set (du_blobs d1) \<union> du_synced_blobs d" "du_blobs d1 \<noteq> du_blobs d \<longrightarrow> named"
    using one by (auto simp: b Let_def split: if_splits)
  from Cons.prems one have rest: "name_each bs (any \<or> named, d1) = (any', d')" by simp
  note ih = Cons.IH [OF rest]
  from ih have "d' = d1\<lparr>du_blobs := du_blobs d', du_synced_blobs := du_synced_blobs d'\<rparr>" by blast
  also have "\<dots> = d\<lparr>du_blobs := du_blobs d', du_synced_blobs := du_synced_blobs d'\<rparr>"
    by (subst d1(1)) simp
  finally show ?case using ih d1(2-5) by (auto simp: b)
qed simp

lemma names_blobs_keeps:
  assumes "names_blobs f bs d = d'"
  shows "d' = d\<lparr>du_blobs := du_blobs d', du_blob_directory := du_blob_directory d', du_synced_blobs := du_synced_blobs d'\<rparr>"
    and "du_synced_blobs d' \<subseteq> du_synced_blobs d" and "set (du_blobs d) \<subseteq> set (du_blobs d')"
    and "fst ` set bs \<subseteq> set (du_blobs d') \<union> du_synced_blobs d"
    and "(du_blobs d \<noteq> [] \<longrightarrow> du_blob_directory d = Some f) \<Longrightarrow> du_blobs d' \<noteq> [] \<longrightarrow> du_blob_directory d' = Some f"
    and "du_blob_directory d' \<in> {du_blob_directory d, Some f}"
proof -
  obtain any d1 where each: "name_each bs (False, d) = (any, d1)" by fastforce
  then have d': "d' = (if any then d1\<lparr>du_blob_directory := Some f\<rparr> else d1)"
    using assms by (simp add: names_blobs_def)
  note k = name_each_keeps [OF each]
  have d1: "d1 = d\<lparr>du_blobs := du_blobs d1, du_synced_blobs := du_synced_blobs d1\<rparr>" using k by blast
  have same: "du_blob_directory d1 = du_blob_directory d" by (subst d1) simp
  show "d' = d\<lparr>du_blobs := du_blobs d', du_blob_directory := du_blob_directory d', du_synced_blobs := du_synced_blobs d'\<rparr>"
  proof (cases any)
    case True
    then have "d' = d1\<lparr>du_blob_directory := Some f\<rparr>" by (simp add: d')
    then show ?thesis by (subst (asm) d1) simp
  next
    case False
    then have "d' = d1" by (simp add: d')
    then show ?thesis using d1 same by simp
  qed
  show "du_synced_blobs d' \<subseteq> du_synced_blobs d" "set (du_blobs d) \<subseteq> set (du_blobs d')"
    "fst ` set bs \<subseteq> set (du_blobs d') \<union> du_synced_blobs d"
    using k by (auto simp: d')
  show "(du_blobs d \<noteq> [] \<longrightarrow> du_blob_directory d = Some f) \<Longrightarrow> du_blobs d' \<noteq> [] \<longrightarrow> du_blob_directory d' = Some f"
    using k same by (cases any) (auto simp: d')
  show "du_blob_directory d' \<in> {du_blob_directory d, Some f}"
    using same by (auto simp: d')
qed

lemmas durability_defs = take_blobs_def blobs_synced_def restore_blobs_def sync_failed_def
  sync_ended_def close_ended_def cut_ended_def attach_def written_def latest_def

lemma names_blobs_fields [simp]:
  "du_written (names_blobs f bs d) = du_written d" "du_synced (names_blobs f bs d) = du_synced d"
  "du_settled (names_blobs f bs d) = du_settled d" "du_syncing (names_blobs f bs d) = du_syncing d"
  "du_file (names_blobs f bs d) = du_file d" "du_directory (names_blobs f bs d) = du_directory d"
  by (subst names_blobs_keeps(1) [OF refl], simp)+

lemma sync_turn_cases:
  assumes "sync_turn c d = (r, d')"
  obtains (covered) "r = Covered" "d' = d" "c \<le> du_synced d"
  | (waits) "r = Waits" "d' = d" "du_synced d < c" "du_syncing d"
  | (syncs) "r = Syncs \<lparr>jo_target = du_written d, jo_file = du_file d, jo_directory = du_directory d,
        jo_blobs = \<lparr>bl_paths = du_blobs d, bl_directory = du_blob_directory d\<rparr>\<rparr>"
      "d' = d\<lparr>du_syncing := True, du_directory := None, du_blobs := [], du_blob_directory := None\<rparr>"
      "du_synced d < c" "\<not> du_syncing d"
  using assms by (auto simp: sync_turn_def take_blobs_def Let_def split: if_splits)

lemma target_cong: "length (ls_names s') = length (ls_names s) \<Longrightarrow> target s' w = target s w"
  by (cases w) auto

lemma counters_start: "counters_ok (log_start existing)"
  by (simp add: counters_ok_def log_start_def durability_new_def)

lemma counters_okI:
  assumes "du_synced (ls_state s) \<le> du_settled (ls_state s)" "du_settled (ls_state s) \<le> du_written (ls_state s)"
    "du_written (ls_state s) = length (ls_names s)"
    "\<And>x. x \<in> set (ls_works s) \<Longrightarrow> target s (fst x) \<le> length (ls_names s)"
    "du_syncing (ls_state s) \<longleftrightarrow> (\<exists>x \<in> set (ls_works s). is_sync (fst x))"
    "length (filter (\<lambda>x. is_sync (fst x)) (ls_works s)) \<le> 1"
    "\<And>t c. ls_phase s t = Waiting c \<Longrightarrow> du_syncing (ls_state s)"
    "\<And>t c. ls_phase s t \<in> {Calling c, Waiting c, Syncing c} \<Longrightarrow> c \<le> du_written (ls_state s)"
    "\<And>t c. ls_phase s t = Returned c True \<Longrightarrow> c \<le> du_synced (ls_state s)"
    "\<And>t c j r. (Sync t c j, r) \<in> set (ls_works s) \<Longrightarrow> ls_phase s t = Syncing c"
  shows "counters_ok s"
  using assms unfolding counters_ok_def Let_def by blast

lemma counters_okD:
  assumes "counters_ok s"
  shows "du_synced (ls_state s) \<le> du_settled (ls_state s)" "du_settled (ls_state s) \<le> du_written (ls_state s)"
    "du_written (ls_state s) = length (ls_names s)"
    "x \<in> set (ls_works s) \<Longrightarrow> target s (fst x) \<le> length (ls_names s)"
    "du_syncing (ls_state s) \<longleftrightarrow> (\<exists>x \<in> set (ls_works s). is_sync (fst x))"
    "length (filter (\<lambda>x. is_sync (fst x)) (ls_works s)) \<le> 1"
    "ls_phase s t = Waiting c \<Longrightarrow> du_syncing (ls_state s)"
    "ls_phase s t \<in> {Calling c, Waiting c, Syncing c} \<Longrightarrow> c \<le> du_written (ls_state s)"
    "ls_phase s t = Returned c True \<Longrightarrow> c \<le> du_synced (ls_state s)"
    "(Sync t c j, r) \<in> set (ls_works s) \<Longrightarrow> ls_phase s t = Syncing c"
  using assms unfolding counters_ok_def Let_def by blast+

text \<open>A change that leaves the counters and the phases alone.\<close>

lemma counters_ok_cong:
  assumes "counters_ok s" "du_written (ls_state s') = du_written (ls_state s)"
    "du_synced (ls_state s') = du_synced (ls_state s)" "du_settled (ls_state s') = du_settled (ls_state s)"
    "du_syncing (ls_state s') = du_syncing (ls_state s)" "length (ls_names s') = length (ls_names s)"
    "map fst (ls_works s') = map fst (ls_works s)" "ls_phase s' = ls_phase s"
  shows "counters_ok s'"
proof -
  have works: "fst ` set (ls_works s') = fst ` set (ls_works s)"
    using assms(7) by (metis set_map)
  have syncs: "length (filter (\<lambda>x. is_sync (fst x)) xs) = length (filter is_sync (map fst xs))" for xs :: "(work \<times> outcome option) list"
    by (simp add: filter_map comp_def)
  note old = counters_okD [OF assms(1)]
  have every: "target s' w \<le> length (ls_names s')" if "w \<in> fst ` set (ls_works s')" for w
    using that old(4) target_cong [OF assms(6), of w] assms(6) unfolding works by auto
  have syncing: "ls_phase s t = Syncing c" if "(Sync t c j, r) \<in> set (ls_works s')" for t c j r
    using that works old(10) by (metis (no_types, lifting) fst_conv imageE image_eqI prod.collapse)
  have some: "(\<exists>x \<in> set (ls_works s'). is_sync (fst x)) \<longleftrightarrow> (\<exists>x \<in> set (ls_works s). is_sync (fst x))"
    using works by (metis (no_types, lifting) imageE image_eqI)
  show ?thesis
    by (rule counters_okI) (use old every some syncing in \<open>auto simp: assms syncs\<close>)
qed

lemma notify_all_simps [simp]:
  "notify_all ph t \<noteq> Waiting c" "(notify_all ph t = Returned c r) = (ph t = Returned c r)"
  "(notify_all ph t = Calling c) \<longleftrightarrow> ph t \<in> {Calling c, Waiting c}"
  "(notify_all ph t = Syncing c) = (ph t = Syncing c)"
  by (auto simp: notify_all_def split: phase.splits)

lemma counters_append:
  assumes "counters_ok s"
  shows "counters_ok (s\<lparr>ls_state := snd (written (ls_state s)), ls_naming := None, ls_names := ls_names s @ [ps]\<rparr>)"
proof (rule counters_okI, goal_cases)
  case (4 x)
  then show ?case using counters_okD(4) [OF assms, of x] by (cases "fst x") (auto simp: le_Suc_eq)
next
  case (8 t c)
  then show ?case using counters_okD(8) [OF assms, of t c] by (auto simp: written_def Let_def)
qed (use counters_okD [OF assms] in \<open>auto simp: written_def Let_def\<close>)

lemma counters_sync_start:
  assumes "counters_ok s" "ls_phase s t = Calling c" "sync_turn c (ls_state s) = (Syncs j, d)"
  shows "counters_ok (s\<lparr>ls_state := d, ls_phase := (ls_phase s)(t := Syncing c), ls_works := (Sync t c j, None) # ls_works s\<rparr>)"
    (is "counters_ok ?s")
proof -
  note old = counters_okD [OF assms(1)]
  have turn: "j = \<lparr>jo_target = du_written (ls_state s), jo_file = du_file (ls_state s),
        jo_directory = du_directory (ls_state s),
        jo_blobs = \<lparr>bl_paths = du_blobs (ls_state s), bl_directory = du_blob_directory (ls_state s)\<rparr>\<rparr>
      \<and> d = (ls_state s)\<lparr>du_syncing := True, du_directory := None, du_blobs := [], du_blob_directory := None\<rparr>
      \<and> \<not> du_syncing (ls_state s)"
    using assms(3) by (cases rule: sync_turn_cases) simp_all
  note turn = turn [THEN conjunct1] turn [THEN conjunct2, THEN conjunct1] turn [THEN conjunct2, THEN conjunct2]
  have none: "filter (\<lambda>x. is_sync (fst x)) (ls_works s) = []"
    using old(5) turn(3) by (auto simp: filter_empty_conv)
  show ?thesis
  proof (rule counters_okI, goal_cases)
    case (4 x)
    then show ?case using old(3) old(4) [of x] target_cong [of ?s s] by (auto simp: turn(1))
  next
    case (8 u b)
    then show ?case using old(8) [of u b] old(8) [of t c] assms(2) by (auto simp: turn(2) split: if_splits)
  next
    case (10 u b k r)
    have "(Sync u b k, r) \<notin> set (ls_works s)"
      using none by (auto simp: filter_empty_conv is_sync_def)
    then show ?case using 10 by simp
  qed (use old(1-3,7,9) none in \<open>auto simp: turn(2) is_sync_def split: if_splits\<close>)
qed

lemma counters_taken:
  assumes "counters_ok s" "\<not> is_sync w" "target s w \<le> length (ls_names s)"
    "du_written d = du_written (ls_state s)" "du_synced d = du_synced (ls_state s)"
    "du_settled d = du_settled (ls_state s)" "du_syncing d = du_syncing (ls_state s)"
    "ls_names s' = ls_names s" "ls_works s' = (w, None) # ls_works s" "ls_state s' = d" "ls_phase s' = ls_phase s"
  shows "counters_ok s'"
proof (rule counters_okI, goal_cases)
  case (4 x)
  then show ?case using counters_okD(4) [OF assms(1), of x] assms(3) target_cong [of s' s] by (auto simp: assms)
next
  case (8 u b)
  then show ?case using counters_okD(8) [OF assms(1), of u b] by (simp add: assms)
next
  case (10 t c j r)
  then show ?case using counters_okD(10) [OF assms(1), of t c j r] assms(2) by (auto simp: assms(4-) is_sync_def)
qed (use counters_okD(1-3,5-9) [OF assms(1)] assms(2) in \<open>auto simp: assms(4-)\<close>)

text \<open>The end of a sync, of a close or of a cut only raises what is synced and settled.\<close>

lemma ended_fields:
  "du_written (sync_ended j r d) = du_written d" "du_syncing (sync_ended j r d) = False"
  "du_settled (sync_ended j r d) = max (du_settled d) (jo_target j)"
  "du_synced (sync_ended j r d) = (case r of Inr _ \<Rightarrow> max (du_synced d) (jo_target j) | Inl _ \<Rightarrow> du_synced d)"
  "du_written (close_ended j r d) = du_written d" "du_syncing (close_ended j r d) = du_syncing d"
  "du_settled (close_ended j r d) = (case r of Inr _ \<Rightarrow> max (du_settled d) (jo_target j) | Inl _ \<Rightarrow> du_settled d)"
  "du_synced (close_ended j r d) = (case r of Inr _ \<Rightarrow> max (du_synced d) (jo_target j) | Inl _ \<Rightarrow> du_synced d)"
  "du_written (cut_ended b r d) = du_written d" "du_syncing (cut_ended b r d) = du_syncing d"
  "du_settled (cut_ended b r d) = (case r of Inr _ \<Rightarrow> du_written d | Inl _ \<Rightarrow> du_settled d)"
  "du_synced (cut_ended b r d) = (case r of Inr _ \<Rightarrow> du_written d | Inl _ \<Rightarrow> du_synced d)"
  by (simp_all add: durability_defs Let_def split: sum.splits)

lemma counters_raised:
  assumes old: "counters_ok s"
    and same: "du_written (ls_state s') = du_written (ls_state s)" "ls_names s' = ls_names s"
    and raised: "du_synced (ls_state s) \<le> du_synced (ls_state s')" "du_synced (ls_state s') \<le> du_settled (ls_state s')"
      "du_settled (ls_state s') \<le> du_written (ls_state s)"
    and works: "set (ls_works s') \<subseteq> set (ls_works s)"
      "length (filter (\<lambda>x. is_sync (fst x)) (ls_works s')) \<le> 1"
      "du_syncing (ls_state s') \<longleftrightarrow> (\<exists>x \<in> set (ls_works s'). is_sync (fst x))"
    and waiting: "\<And>t c. ls_phase s' t = Waiting c \<Longrightarrow> du_syncing (ls_state s')"
    and phases: "\<And>t c. ls_phase s' t \<in> {Calling c, Waiting c, Syncing c} \<Longrightarrow>
        ls_phase s t \<in> {Calling c, Waiting c, Syncing c}"
      "\<And>t c. ls_phase s' t = Returned c True \<Longrightarrow> ls_phase s t = Returned c True"
      "\<And>t c j r. (Sync t c j, r) \<in> set (ls_works s') \<Longrightarrow> ls_phase s' t = Syncing c"
  shows "counters_ok s'"
proof (rule counters_okI)
  show "target s' (fst x) \<le> length (ls_names s')" if "x \<in> set (ls_works s')" for x
    using counters_okD(4) [OF old, of x] works(1) that target_cong [of s' s] same(2) by auto
  show "c \<le> du_synced (ls_state s')" if "ls_phase s' t = Returned c True" for t c
    using counters_okD(9) [OF old phases(2) [OF that]] raised(1) by simp
  show "c \<le> du_written (ls_state s')" if "ls_phase s' t \<in> {Calling c, Waiting c, Syncing c}" for t c
    using counters_okD(8) [OF old phases(1) [OF that]] same(1) by simp
qed (use counters_okD(1-3) [OF old] same raised works waiting phases(3) in auto)

lemma counters_ended:
  assumes ok: "counters_ok s" and works: "ls_works s = ws @ (w, Some r) # ws'"
  shows "counters_ok (ended w r (s\<lparr>ls_works := ws @ ws'\<rparr>))"
proof -
  note old = counters_okD [OF ok]
  have target: "target s w \<le> du_written (ls_state s)"
    using old(3) old(4) [of "(w, Some r)"] by (simp add: works)
  have sub: "set (ws @ ws') \<subseteq> set (ls_works s)" and syncs: "length (filter (\<lambda>x. is_sync (fst x)) (ws @ ws')) \<le> 1"
    using old(6) by (auto simp: works split: if_splits)
  have still: "ls_phase s t = Syncing c" if "(Sync t c j, r) \<in> set (ws @ ws')" for t c j r
    using old(10) that by (auto simp: works)
  show ?thesis
  proof (cases w)
    case (Sync t c j)
    have none: "filter (\<lambda>x. is_sync (fst x)) (ws @ ws') = []"
      using old(6) by (simp add: works Sync is_sync_def filter_empty_conv ball_Un)
    then have alone: "\<not> (\<exists>x \<in> set (ws @ ws'). is_sync (fst x))"
      by (auto simp: filter_empty_conv)
    then have no: "(Sync u b k, q) \<notin> set (ws @ ws')" for u b k q
      by (force simp: is_sync_def)
    show ?thesis
      by (rule counters_raised [OF ok]) (use old(1-3) target sub none alone no old(10) [of t c j] works
        in \<open>auto simp: Sync ended_fields split: sum.splits if_splits\<close>)
  next
    case (Close j)
    have any: "(\<exists>x \<in> set (ws @ ws'). is_sync (fst x)) \<longleftrightarrow> du_syncing (ls_state s)"
      using old(5) by (auto simp: works Close is_sync_def)
    show ?thesis
      by (rule counters_raised [OF ok]) (use old(1-3,7) target sub syncs any still
        in \<open>auto simp: Close ended_fields split: sum.splits\<close>)
  next
    case (Cut b)
    have any: "(\<exists>x \<in> set (ws @ ws'). is_sync (fst x)) \<longleftrightarrow> du_syncing (ls_state s)"
      using old(5) by (auto simp: works Cut is_sync_def)
    show ?thesis
      by (rule counters_raised [OF ok]) (use old(1-3,7) target sub syncs any still
        in \<open>auto simp: Cut ended_fields split: sum.splits\<close>)
  qed
qed

lemma counters_rephase:
  assumes "counters_ok s" "\<And>c. ls_phase s t \<noteq> Syncing c" "\<And>c. p \<noteq> Syncing c"
    "\<And>c. p = Waiting c \<Longrightarrow> du_syncing (ls_state s)" "\<And>c. p \<in> {Calling c, Waiting c} \<Longrightarrow> c \<le> du_written (ls_state s)"
    "\<And>c. p = Returned c True \<Longrightarrow> c \<le> du_synced (ls_state s)"
  shows "counters_ok (s\<lparr>ls_phase := (ls_phase s)(t := p)\<rparr>)" (is "counters_ok ?s")
proof (rule counters_okI, goal_cases)
  case (4 x)
  then show ?case using counters_okD(4) [OF assms(1), of x] target_cong [of ?s s] by auto
next
  case (10 u c j r)
  then show ?case using counters_okD(10) [OF assms(1), of u c j r] assms(2) by auto
qed (use counters_okD(1-3,5-9) [OF assms(1)] assms(3-6) in \<open>auto split: if_splits\<close>)

lemma close_start_Some:
  assumes "close_start d = (Some j, d')"
  shows "j = \<lparr>jo_target = du_written d, jo_file = True, jo_directory = du_directory d,
      jo_blobs = \<lparr>bl_paths = du_blobs d, bl_directory = du_blob_directory d\<rparr>\<rparr>"
    and "d' = d\<lparr>du_directory := None, du_blobs := [], du_blob_directory := None\<rparr>"
  using assms by (auto simp: close_start_def take_blobs_def Let_def split: if_splits)

lemma close_start_None: "close_start d = (None, d') \<longleftrightarrow> du_written d \<le> du_synced d \<and> d' = d\<lparr>du_file := False\<rparr>"
  by (auto simp: close_start_def take_blobs_def Let_def)

lemma counters_step: "log_step folder blob_folder calm s s' \<Longrightarrow> counters_ok s \<Longrightarrow> counters_ok s'"
proof (induction rule: log_step.induct)
  case (open_writer s cloned d)
  then have "d = (ls_state s)\<lparr>du_file := True, du_directory := (if \<not> ls_exists s then Some folder else du_directory (ls_state s))\<rparr>"
    by (auto simp: attach_def split: if_splits)
  then show ?case by (intro counters_ok_cong [OF open_writer.prems]) simp_all
next
  case (name s bs)
  then show ?case by (intro counters_ok_cong [OF name.prems]) simp_all
next
  case (append_record s ps)
  then show ?case by (simp add: counters_append)
next
  case (append_failed s ps)
  then show ?case by (intro counters_ok_cong [OF append_failed.prems]) simp_all
next
  case (call c s t)
  then show ?case by (intro counters_rephase [OF call.prems]) (auto simp: latest_def)
next
  case (covered s t c d)
  from covered(2) have "d = ls_state s" "c \<le> du_synced (ls_state s)"
    by (cases rule: sync_turn_cases; simp)+
  then show ?case
    using counters_rephase [OF covered.prems, of t "Returned c True"] covered(1) by simp
next
  case (wait s t c d)
  from wait(2) have "d = ls_state s" "du_syncing (ls_state s)"
    by (cases rule: sync_turn_cases; simp)+
  then show ?case
    using counters_rephase [OF wait.prems, of t "Waiting c"] counters_okD(8) [OF wait.prems, of t c] wait(1) by simp
next
  case (wake s t c)
  then show ?case
    using counters_rephase [OF wake.prems, of t "Calling c"] counters_okD(8) [OF wake.prems, of t c] by simp
next
  case (sync_start s t c j d)
  then show ?case by (simp add: counters_sync_start)
next
  case (close_idle s d)
  then show ?case by (intro counters_ok_cong [OF close_idle.prems]) (simp_all add: close_start_None)
next
  case (close_start s j d)
  note j = close_start_Some [OF close_start(4)]
  show ?case
    by (rule counters_taken [OF close_start.prems, of "Close j" d])
      (use counters_okD(3) [OF close_start.prems] in \<open>simp_all add: j is_sync_def\<close>)
next
  case (cut_start s b d)
  then show ?case
    by (intro counters_taken [OF cut_start.prems, of "Cut b" d]) (auto simp: is_sync_def take_blobs_def)
next
  case (sync s ws w ws' answer r xs)
  then show ?case
    by (intro counters_ok_cong [OF sync.prems]) (simp_all add: put_on_disk_def)
next
  case (ended s ws w r ws')
  then show ?case by (simp add: counters_ended)
qed

subsubsection \<open>The disk\<close>

lemma disk_okI:
  assumes "length (ls_works s) \<le> 1" "ls_durable s \<le> length (ls_names s)"
    "\<And>w out. (w, out) \<in> set (ls_works s) \<Longrightarrow> work_ok folder blob_folder s w out"
    "du_synced (ls_state s) < du_written (ls_state s) \<or> ls_open s \<Longrightarrow> du_file (ls_state s)"
    "named (length (ls_names s)) s \<union> (case ls_naming s of Some ps \<Rightarrow> ps | None \<Rightarrow> {})
            \<subseteq> ls_disk s \<union> set (du_blobs (ls_state s)) \<union> in_hand s"
    "du_synced_blobs (ls_state s) \<subseteq> ls_disk s"
    "du_blobs (ls_state s) \<noteq> [] \<Longrightarrow> du_blob_directory (ls_state s) = Some blob_folder"
    "du_blob_directory (ls_state s) \<in> {None, Some blob_folder}" "du_directory (ls_state s) \<in> {None, Some folder}"
    "named (du_synced (ls_state s)) s \<subseteq> ls_disk s" "du_synced (ls_state s) \<le> ls_durable s"
    "0 < du_synced (ls_state s) \<Longrightarrow> ls_entry s"
    "ls_exists s \<Longrightarrow> \<not> ls_entry s \<Longrightarrow> du_directory (ls_state s) = Some folder
        \<or> (\<exists>x \<in> set (ls_works s). entry_of (fst x) = Some folder)"
    "ls_open s \<or> ls_names s \<noteq> [] \<Longrightarrow> ls_exists s"
  shows "disk_ok folder blob_folder s"
  unfolding disk_ok_def Let_def by (intro conjI allI impI) ((rule assms(1-14); (assumption | elim conjE; assumption)?)+)

lemma disk_okD:
  assumes "disk_ok folder blob_folder s"
  shows "length (ls_works s) \<le> 1" "ls_durable s \<le> length (ls_names s)"
    "(w, out) \<in> set (ls_works s) \<Longrightarrow> work_ok folder blob_folder s w out"
    "du_synced (ls_state s) < du_written (ls_state s) \<or> ls_open s \<Longrightarrow> du_file (ls_state s)"
    "named (length (ls_names s)) s \<union> (case ls_naming s of Some ps \<Rightarrow> ps | None \<Rightarrow> {})
            \<subseteq> ls_disk s \<union> set (du_blobs (ls_state s)) \<union> in_hand s"
    "du_synced_blobs (ls_state s) \<subseteq> ls_disk s"
    "du_blobs (ls_state s) \<noteq> [] \<Longrightarrow> du_blob_directory (ls_state s) = Some blob_folder"
    "du_blob_directory (ls_state s) \<in> {None, Some blob_folder}" "du_directory (ls_state s) \<in> {None, Some folder}"
    "named (du_synced (ls_state s)) s \<subseteq> ls_disk s" "du_synced (ls_state s) \<le> ls_durable s"
    "0 < du_synced (ls_state s) \<Longrightarrow> ls_entry s"
    "ls_exists s \<Longrightarrow> \<not> ls_entry s \<Longrightarrow> du_directory (ls_state s) = Some folder
        \<or> (\<exists>x \<in> set (ls_works s). entry_of (fst x) = Some folder)"
    "ls_open s \<or> ls_names s \<noteq> [] \<Longrightarrow> ls_exists s"
  using assms unfolding disk_ok_def Let_def by blast+

lemma disk_start: "disk_ok folder blob_folder (log_start existing)"
  by (intro disk_okI) (auto simp: log_start_def durability_new_def named_def)

lemma work_ok_same:
  assumes "work_ok folder blob_folder s w out" "target s' w = target s w" "named (target s w) s' = named (target s w) s"
    "length (ls_names s) \<le> length (ls_names s')" "ls_disk s' = ls_disk s"
    "ls_durable s' = ls_durable s" "ls_entry s' = ls_entry s" "is_sync w \<or> \<not> ls_open s'"
  shows "work_ok folder blob_folder s' w out"
  using assms(1,4,8) by (simp add: work_ok_def Let_def assms(2,3,5-7))

lemma appending_sync: "appending s \<Longrightarrow> (w, out) \<in> set (ls_works s) \<Longrightarrow> is_sync w"
  unfolding appending_def list_all_iff is_sync_def by fastforce

lemma disk_open:
  assumes "disk_ok folder blob_folder s" "appending s"
    "attach (Some folder) cloned (\<not> ls_exists s) (ls_state s) = Inr d"
  shows "disk_ok folder blob_folder (s\<lparr>ls_state := d, ls_exists := True, ls_open := True\<rparr>)" (is "disk_ok _ _ ?s")
proof -
  note old = disk_okD [OF assms(1)]
  have d: "d = (ls_state s)\<lparr>du_file := True, du_directory := (if \<not> ls_exists s then Some folder else du_directory (ls_state s))\<rparr>"
    using assms(3) by (auto simp: attach_def split: if_splits)
  show ?thesis
  proof (rule disk_okI, goal_cases)
    case (3 w out)
    then show ?case
      using work_ok_same [OF old(3), of w out ?s] appending_sync [OF assms(2), of w out] target_cong [of ?s s w]
      by simp
  next
    case 5
    then show ?case using old(5) by (simp add: d in_hand_def)
  qed (use old(1,2,4,6-14) in \<open>simp_all add: d\<close>)
qed

lemma disk_name:
  assumes "disk_ok folder blob_folder s" "appending s"
  shows "disk_ok folder blob_folder (s\<lparr>ls_state := names_blobs blob_folder bs (ls_state s), ls_naming := Some (fst ` set bs)\<rparr>)"
    (is "disk_ok _ _ ?s")
proof -
  note old = disk_okD [OF assms(1)]
  note names = names_blobs_keeps [of blob_folder bs "ls_state s", OF refl]
  have owed: "named (length (ls_names s)) s \<union> fst ` set bs
      \<subseteq> ls_disk s \<union> set (du_blobs (names_blobs blob_folder bs (ls_state s))) \<union> in_hand s"
    using old(5,6) names(3,4) by fast
  show ?thesis
  proof (rule disk_okI, goal_cases)
    case (3 w out)
    then show ?case
      using work_ok_same [OF old(3), of w out ?s] appending_sync [OF assms(2), of w out] target_cong [of ?s s w]
      by simp
  next
    case 5
    have "in_hand ?s = in_hand s" by (simp add: in_hand_def)
    with owed show ?case by simp
  next
    case 6
    then show ?case using names(2) old(6) by auto
  next
    case 7
    then show ?case using names(5) old(7) by simp
  next
    case 8
    then show ?case using names(6) old(8) by auto
  qed (use old(1,2,4,9-14) in simp_all)
qed

lemma disk_append:
  assumes "disk_ok folder blob_folder s" "counters_ok s" "appending s" "ls_open s" "ls_naming s = Some ps"
  shows "disk_ok folder blob_folder (s\<lparr>ls_state := snd (written (ls_state s)), ls_naming := None,
      ls_names := ls_names s @ [ps]\<rparr>)" (is "disk_ok _ _ ?s")
proof -
  note old = disk_okD [OF assms(1)]
  have named: "named n ?s = named n s" if "n \<le> length (ls_names s)" for n
    using that by (simp add: named_def)
  have all: "named (length (ls_names ?s)) ?s = named (length (ls_names s)) s \<union> ps"
    by (auto simp: named_def)
  have synced: "du_synced (ls_state s) \<le> length (ls_names s)"
    using counters_okD(1-3) [OF assms(2)] by simp
  show ?thesis
  proof (rule disk_okI, goal_cases)
    case (3 w out)
    then have w: "(w, out) \<in> set (ls_works s)" by simp
    have "target ?s w = target s w"
      using appending_sync [OF assms(3) w] by (cases w) (auto simp: is_sync_def)
    moreover have "named (target s w) ?s = named (target s w) s"
      using counters_okD(4) [OF assms(2) w] by (intro named) simp
    ultimately show ?case
      using work_ok_same [OF old(3) [OF w], of ?s] appending_sync [OF assms(3) w] by simp
  next
    case 5
    then show ?case using old(5) unfolding all by (auto simp: in_hand_def written_def Let_def assms(5))
  qed (use old(1,2,4,6-14) assms(4) named [OF synced] in \<open>simp_all add: written_def Let_def named_appended\<close>)
qed

lemma disk_taken:
  assumes ok: "disk_ok folder blob_folder s" and idle: "ls_works s = []"
    and s': "ls_works s' = [(w, None)]" "ls_names s' = ls_names s" "ls_disk s' = ls_disk s" "ls_entry s' = ls_entry s"
      "ls_naming s' = ls_naming s" "ls_exists s' = ls_exists s" "ls_open s' \<longrightarrow> ls_open s"
      "ls_durable s \<le> ls_durable s'" "ls_durable s' \<le> length (ls_names s)"
    and d: "du_synced (ls_state s') = du_synced (ls_state s)" "du_written (ls_state s') = du_written (ls_state s)"
      "du_file (ls_state s') = du_file (ls_state s)" "du_synced_blobs (ls_state s') = du_synced_blobs (ls_state s)"
      "du_blobs (ls_state s') = []" "du_blob_directory (ls_state s') = None" "du_directory (ls_state s') \<in> {None, Some folder}"
    and w: "taken_paths w = \<lparr>bl_paths = du_blobs (ls_state s), bl_directory = du_blob_directory (ls_state s)\<rparr>"
      "target s w = length (ls_names s)" "entry_of w \<in> {None, Some folder}" "is_sync w \<or> \<not> ls_open s'"
      "logs w \<or> ls_durable s' = length (ls_names s)" "ls_entry s \<or> entry_of w = Some folder"
  shows "disk_ok folder blob_folder s'"
proof -
  note old = disk_okD [OF ok]
  have named: "named n s' = named n s" for n by (simp add: named_def s'(2))
  have owed: "named (length (ls_names s)) s \<union> (case ls_naming s of Some ps \<Rightarrow> ps | None \<Rightarrow> {})
      \<subseteq> ls_disk s \<union> set (du_blobs (ls_state s))"
    using old(5) by (simp add: in_hand_def idle)
  have target: "target s' w = length (ls_names s)"
    using w(2) target_cong [of s' s w] by (simp add: s'(2))
  have fresh: "work_ok folder blob_folder s' w None"
    unfolding work_ok_def Let_def target named
    using owed old(7,8) w s' by (auto simp: s' split: if_splits)
  show ?thesis
  proof (rule disk_okI, goal_cases)
    case (3 v out)
    then show ?case using fresh by (simp add: s')
  next
    case 5
    show ?case using owed by (auto simp: s' d named in_hand_def w(1))
  next
    case 13
    then show ?case using w(6) by (simp add: s')
  qed (use old(1,2,4,6-12,14) s' d in \<open>auto simp: named\<close>)
qed

lemma put_on_disk_simps [simp]:
  "ls_state (put_on_disk f b xs s) = ls_state s" "ls_works (put_on_disk f b xs s) = ls_works s"
  "ls_names (put_on_disk f b xs s) = ls_names s" "ls_naming (put_on_disk f b xs s) = ls_naming s"
  "ls_open (put_on_disk f b xs s) = ls_open s" "ls_exists (put_on_disk f b xs s) = ls_exists s"
  "named n (put_on_disk f b xs s) = named n s" "ls_disk s \<subseteq> ls_disk (put_on_disk f b xs s)"
  "ls_entry s \<Longrightarrow> ls_entry (put_on_disk f b xs s)"
  by (simp_all add: put_on_disk_def named_def)

lemma disk_sync:
  assumes ok: "disk_ok folder blob_folder s" and works: "ls_works s = [(w, None)]"
    and performed: "perform answer (items w) = (r, xs)"
  shows "disk_ok folder blob_folder (put_on_disk folder blob_folder xs (s\<lparr>ls_works := [(w, Some r)]\<rparr>))"
    (is "disk_ok _ _ ?s")
proof -
  note old = disk_okD [OF ok]
  have w: "work_ok folder blob_folder s w None" using old(3) by (simp add: works)
  have target: "target ?s w = target s w" by (rule target_cong) simp
  have durable: "ls_durable s \<le> ls_durable ?s" "ls_durable ?s \<le> length (ls_names s)"
    using old(2) by (simp_all add: put_on_disk_def)
  have disk: "ls_disk s \<subseteq> ls_disk ?s" and entry: "ls_entry s \<Longrightarrow> ls_entry ?s"
    by (simp_all add: put_on_disk_def)
  have did: "set (bl_paths (taken_paths w)) \<subseteq> ls_disk ?s \<and> target s w \<le> ls_durable ?s \<and> ls_entry ?s" if "r = Inr ()"
  proof -
    have xs: "xs = items w" using performed that perform_all by blast
    have "set (bl_paths (taken_paths w)) \<subseteq> ls_disk ?s"
    proof (cases "bl_paths (taken_paths w) = []")
      case False
      then have "bl_directory (taken_paths w) = Some blob_folder" using w by (simp add: work_ok_def Let_def)
      then show ?thesis
        by (cases w) (auto simp: put_on_disk_def xs sync_items_def blob_items_def folder_item_def)
    qed simp
    moreover have "LogItem \<in> set xs" if "logs w"
      using that by (cases w) (simp_all add: xs sync_items_def logs_def)
    then have "target s w \<le> ls_durable ?s"
      using w durable by (auto simp: work_ok_def Let_def put_on_disk_def)
    moreover have "FolderItem folder \<in> set xs" if "entry_of w = Some folder"
      using that by (cases w) (simp_all add: xs sync_items_def entry_of_def folder_item_def)
    then have "ls_entry ?s"
      using w by (auto simp: work_ok_def Let_def put_on_disk_def)
    ultimately show ?thesis by simp
  qed
  have out: "work_ok folder blob_folder ?s w (Some r)"
    using w disk durable entry did unfolding work_ok_def Let_def target by auto
  have hand: "in_hand ?s = in_hand s" by (simp add: in_hand_def works)
  show ?thesis
  proof (rule disk_okI, goal_cases)
    case (3 v out')
    then show ?case using out by simp
  next
    case 5
    show ?case using old(5) disk by (auto simp: hand)
  next
    case 13
    then show ?case using old(13) entry by (auto simp: works)
  qed (use old(1,2,4,6-12,14) disk durable entry in auto)
qed

text \<open>A job that failed gives back what it took; one that succeeded has it on the disk.\<close>

lemma disk_ended:
  assumes ok: "disk_ok folder blob_folder s" and works: "ls_works s = [(w, Some r)]"
    and s': "ls_works s' = []" "ls_names s' = ls_names s" "ls_disk s' = ls_disk s" "ls_entry s' = ls_entry s"
      "ls_naming s' = ls_naming s" "ls_exists s' = ls_exists s" "ls_open s' = ls_open s" "ls_durable s' = ls_durable s"
    and d: "du_written (ls_state s') = du_written (ls_state s)"
      "du_synced (ls_state s') \<le> max (du_synced (ls_state s)) (if r = Inr () then target s w else 0)"
      "du_synced_blobs (ls_state s') \<subseteq> du_synced_blobs (ls_state s) \<union> (if r = Inr () then set (bl_paths (taken_paths w)) else {})"
      "du_synced (ls_state s') < du_written (ls_state s) \<or> ls_open s \<Longrightarrow> du_file (ls_state s) \<Longrightarrow> du_file (ls_state s')"
      "du_synced (ls_state s) \<le> du_synced (ls_state s')"
    and good: "r = Inr () \<Longrightarrow> du_blobs (ls_state s') = du_blobs (ls_state s)
      \<and> du_blob_directory (ls_state s') = du_blob_directory (ls_state s) \<and> du_directory (ls_state s') = du_directory (ls_state s)"
    and bad: "r \<noteq> Inr () \<Longrightarrow> du_blobs (ls_state s') = bl_paths (taken_paths w) @ du_blobs (ls_state s)
      \<and> du_blob_directory (ls_state s') = (if du_blob_directory (ls_state s) = None then bl_directory (taken_paths w)
           else du_blob_directory (ls_state s))
      \<and> du_directory (ls_state s') = (if du_directory (ls_state s) = None then entry_of w else du_directory (ls_state s))"
  shows "disk_ok folder blob_folder s'"
proof -
  note old = disk_okD [OF ok]
  have named: "named n s' = named n s" for n by (simp add: named_def s'(2))
  have w: "work_ok folder blob_folder s w (Some r)" using old(3) by (simp add: works)
  have did: "set (bl_paths (taken_paths w)) \<subseteq> ls_disk s" "target s w \<le> ls_durable s" "ls_entry s"
      "named (target s w) s \<subseteq> ls_disk s" if "r = Inr ()"
    using w that by (auto simp: work_ok_def Let_def)
  have hand: "in_hand s = set (bl_paths (taken_paths w))" by (simp add: in_hand_def works)
  show ?thesis
  proof (cases "r = Inr ()")
    case True
    note did = did [OF True] and good = good [OF True]
    have synced: "named (du_synced (ls_state s')) s \<subseteq> ls_disk s" "du_synced (ls_state s') \<le> ls_durable s"
    proof -
      have "du_synced (ls_state s') \<le> du_synced (ls_state s) \<or> du_synced (ls_state s') \<le> target s w"
        using d(2) True by auto
      then show "named (du_synced (ls_state s')) s \<subseteq> ls_disk s" "du_synced (ls_state s') \<le> ls_durable s"
        using named_mono [of "du_synced (ls_state s')" _ s] old(10,11) did by fastforce+
    qed
    show ?thesis
    proof (rule disk_okI, goal_cases)
      case 4
      then show ?case using old(4) d(4,5) by (auto simp: d(1) s')
    next
      case 5
      show ?case using old(5) did(1) by (auto simp: s' named good hand)
    next
      case 6
      show ?case using old(6) d(3) did(1) True by (auto simp: s')
    next
      case 13
      then show ?case using did(3) by (simp add: s')
    qed (use old(1,2,7-9,14) s' did synced in \<open>auto simp: named good\<close>)
  next
    case False
    note bad = bad [OF False]
    have synced: "du_synced (ls_state s') = du_synced (ls_state s)" using d(2,5) False by simp
    show ?thesis
    proof (rule disk_okI, goal_cases)
      case 4
      then show ?case using old(4) d(4) by (auto simp: d(1) s' synced)
    next
      case 5
      show ?case using old(5) by (auto simp: s' named bad hand)
    next
      case 6
      show ?case using old(6) d(3) False by (auto simp: s')
    next
      case 7
      then show ?case using old(7,8) w by (auto simp: bad work_ok_def Let_def)
    next
      case 8
      then show ?case using old(8) w by (auto simp: bad work_ok_def Let_def)
    next
      case 9
      then show ?case using old(9) w by (auto simp: bad work_ok_def Let_def)
    next
      case 13
      then show ?case using old(9,13) w by (auto simp: bad works s' work_ok_def Let_def)
    qed (use old(1,2,10-12,14) s' in \<open>auto simp: named synced\<close>)
  qed
qed

lemma disk_ended_work:
  assumes "disk_ok folder blob_folder s" "counters_ok s" "ls_works s = [(w, Some r)]"
  shows "disk_ok folder blob_folder (ended w r (s\<lparr>ls_works := []\<rparr>))"
proof (rule disk_ended [OF assms(1,3)])
  have open_file: "is_sync w \<or> \<not> ls_open s"
    using disk_okD(3) [OF assms(1)] by (auto simp: assms(3) work_ok_def Let_def)
  show "du_file (ls_state (ended w r (s\<lparr>ls_works := []\<rparr>)))"
    if "du_synced (ls_state (ended w r (s\<lparr>ls_works := []\<rparr>))) < du_written (ls_state s) \<or> ls_open s" "du_file (ls_state s)"
    using that open_file
    by (cases w) (auto simp: durability_defs Let_def is_sync_def split: sum.splits if_splits)
  show "du_synced (ls_state s) \<le> du_synced (ls_state (ended w r (s\<lparr>ls_works := []\<rparr>)))"
    using counters_okD(1,2) [OF assms(2)] by (cases w) (auto simp: ended_fields split: sum.splits)
  show "du_synced (ls_state (ended w r (s\<lparr>ls_works := []\<rparr>)))
      \<le> max (du_synced (ls_state s)) (if r = Inr () then target s w else 0)"
    using counters_okD(3) [OF assms(2)] by (cases w) (auto simp: ended_fields split: sum.splits)
qed (cases w; auto simp: durability_defs Let_def entry_of_def split: sum.splits)+

lemma disk_rephase:
  assumes "disk_ok folder blob_folder s"
  shows "disk_ok folder blob_folder (s\<lparr>ls_phase := ph\<rparr>)" (is "disk_ok _ _ ?s")
proof (rule disk_okI, goal_cases)
  case (3 w out)
  then show ?case
    using disk_okD(3) [OF assms, of w out] target_cong [of ?s s w] by (simp add: work_ok_def Let_def)
next
  case 5
  then show ?case using disk_okD(5) [OF assms] by (simp add: in_hand_def)
qed (use disk_okD(1,2,4,6-14) [OF assms] in simp_all)

lemma disk_unnamed:
  assumes "disk_ok folder blob_folder s"
  shows "disk_ok folder blob_folder (s\<lparr>ls_naming := None\<rparr>)" (is "disk_ok _ _ ?s")
proof (rule disk_okI, goal_cases)
  case (3 w out)
  then show ?case
    using disk_okD(3) [OF assms, of w out] target_cong [of ?s s w] by (simp add: work_ok_def Let_def)
next
  case 5
  then show ?case using disk_okD(5) [OF assms] by (simp add: in_hand_def)
qed (use disk_okD(1,2,4,6-14) [OF assms] in simp_all)

lemma disk_closed:
  assumes "disk_ok folder blob_folder s" "du_written (ls_state s) \<le> du_synced (ls_state s)"
  shows "disk_ok folder blob_folder (s\<lparr>ls_state := (ls_state s)\<lparr>du_file := False\<rparr>, ls_open := False\<rparr>)" (is "disk_ok _ _ ?s")
proof (rule disk_okI, goal_cases)
  case (3 w out)
  then show ?case
    using disk_okD(3) [OF assms(1), of w out] target_cong [of ?s s w] by (simp add: work_ok_def Let_def)
next
  case 5
  then show ?case using disk_okD(5) [OF assms(1)] by (simp add: in_hand_def)
qed (use disk_okD(1,2,4,6-14) [OF assms(1)] assms(2) in simp_all)

lemma one_work: "length (ws @ x # ws') \<le> 1 \<Longrightarrow> ws = [] \<and> ws' = []"
  by simp

lemma disk_step:
  "log_step folder blob_folder True s s' \<Longrightarrow> counters_ok s \<Longrightarrow> disk_ok folder blob_folder s \<Longrightarrow>
    disk_ok folder blob_folder s'"
proof (induction rule: log_step.induct)
  case (open_writer s cloned d)
  then show ?case by (intro disk_open)
next
  case (name s bs)
  then show ?case by (intro disk_name)
next
  case (append_record s ps)
  then show ?case by (intro disk_append)
next
  case (append_failed s ps)
  then show ?case by (intro disk_unnamed)
next
  case (call c s t)
  then show ?case by (intro disk_rephase)
next
  case (covered s t c d)
  from covered(2) have "d = ls_state s" by (cases rule: sync_turn_cases) simp_all
  then show ?case using disk_rephase [OF covered.prems(2)] by simp
next
  case (wait s t c d)
  from wait(2) have "d = ls_state s" by (cases rule: sync_turn_cases) simp_all
  then show ?case using disk_rephase [OF wait.prems(2)] by simp
next
  case (wake s t c)
  then show ?case by (intro disk_rephase)
next
  case (sync_start s t c j d)
  note old = disk_okD [OF sync_start.prems(2)] and counters = counters_okD [OF sync_start.prems(1)]
  have idle: "ls_works s = []" using sync_start(3) by simp
  have below: "du_synced (ls_state s) < du_written (ls_state s)"
    using sync_start(2) counters(8) [of t c] sync_start(1) by (cases rule: sync_turn_cases) auto
  then have names: "ls_names s \<noteq> []" using counters(3) by auto
  have j: "j = \<lparr>jo_target = du_written (ls_state s), jo_file = du_file (ls_state s), jo_directory = du_directory (ls_state s),
        jo_blobs = \<lparr>bl_paths = du_blobs (ls_state s), bl_directory = du_blob_directory (ls_state s)\<rparr>\<rparr>"
    and d: "d = (ls_state s)\<lparr>du_syncing := True, du_directory := None, du_blobs := [], du_blob_directory := None\<rparr>"
    using sync_start(2) by (cases rule: sync_turn_cases; simp)+
  show ?case
    by (rule disk_taken [OF sync_start.prems(2) idle, of _ "Sync t c j"])
      (use old(2,4,9,13,14) names below counters(3) idle in
        \<open>auto simp: j d is_sync_def logs_def entry_of_def\<close>)
next
  case (close_idle s d)
  then show ?case by (simp add: close_start_None disk_closed)
next
  case (close_start s j d)
  note old = disk_okD [OF close_start.prems(2)] and counters = counters_okD [OF close_start.prems(1)]
  have idle: "ls_works s = []" using close_start(5) by simp
  note j = close_start_Some [OF close_start(4)]
  show ?case
    by (rule disk_taken [OF close_start.prems(2) idle, of _ "Close j"])
      (use old(2,9,13,14) counters(3) idle close_start(2) in
        \<open>auto simp: j is_sync_def logs_def entry_of_def\<close>)
next
  case (cut_start s b d)
  note old = disk_okD [OF cut_start.prems(2)]
  have idle: "ls_works s = []" and entry: "ls_entry s"
    using cut_start(4,6) old(13) by auto
  show ?case
    by (rule disk_taken [OF cut_start.prems(2) idle, of _ "Cut b"])
      (use old(2,9) idle entry cut_start(2,5) in \<open>auto simp: take_blobs_def entry_of_def\<close>)
next
  case (sync s ws w ws' answer r xs)
  then have "ws = []" "ws' = []" using disk_okD(1) [OF sync.prems(2)] by simp_all
  then show ?case using sync by (simp add: disk_sync)
next
  case (ended s ws w r ws')
  then have "ws = []" "ws' = []" using disk_okD(1) [OF ended.prems(2)] by simp_all
  then show ?case using ended by (simp add: disk_ended_work)
qed

lemma reached_counters: "log_reached folder blob_folder calm s \<Longrightarrow> counters_ok s"
  by (induction rule: log_reached.induct) (auto intro: counters_start counters_step)

lemma reached_disk: "log_reached folder blob_folder True s \<Longrightarrow> disk_ok folder blob_folder s"
proof (induction rule: log_reached.induct)
  case (start existing)
  show ?case by (rule disk_start)
next
  case (step s s')
  then show ?case using disk_step reached_counters by blast
qed

subsection \<open>Properties\<close>

text \<open>A log with one record, which names a blob, whose append syncs it.\<close>

definition sample_syncing :: log_system where
  "sample_syncing =
     \<lparr>ls_state = \<lparr>du_written = 1, du_synced = 0, du_settled = 0, du_syncing = True, du_file = True, du_directory = None,
        du_blobs = [], du_blob_directory = None, du_synced_blobs = {}\<rparr>,
      ls_exists = True, ls_open = True,
      ls_works = [(Sync 0 1 \<lparr>jo_target = 1, jo_file = True, jo_directory = None,
        jo_blobs = \<lparr>bl_paths = [7], bl_directory = Some 2\<rparr>\<rparr>, None)],
      ls_phase = (\<lambda>_. Idle)(0 := Syncing 1), ls_naming = None, ls_names = [{7}], ls_disk = {}, ls_durable = 0,
      ls_entry = True\<rparr>"

lemma sample_syncing_reached: "log_reached 1 2 calm sample_syncing"
proof -
  note defs = log_start_def durability_new_def attach_def appending_def names_blobs_def written_def latest_def
    sync_turn_def take_blobs_def Let_def
  have "log_reached 1 2 calm (log_start True)" by (rule log_reached.start)
  from log_reached.step [OF this log_step.open_writer [of _ 1 True]]
  have "log_reached 1 2 calm ((log_start True)\<lparr>ls_state := durability_new\<lparr>du_file := True\<rparr>, ls_open := True\<rparr>)"
    by (simp add: defs)
  from log_reached.step [OF this log_step.name [of _ _ _ _ "[(7, True)]"]]
  have "log_reached 1 2 calm ((log_start True)\<lparr>ls_state := durability_new\<lparr>du_file := True, du_blobs := [7],
      du_blob_directory := Some 2\<rparr>, ls_open := True, ls_naming := Some {7}\<rparr>)"
    by (simp add: defs)
  from log_reached.step [OF this log_step.append_record [of _ "{7}"]]
  have "log_reached 1 2 calm ((log_start True)\<lparr>ls_state := durability_new\<lparr>du_written := 1, du_file := True, du_blobs := [7],
      du_blob_directory := Some 2\<rparr>, ls_open := True, ls_naming := None, ls_names := [{7}]\<rparr>)"
    by (simp add: defs)
  from log_reached.step [OF this log_step.call [of 1 _ 0]]
  have "log_reached 1 2 calm ((log_start True)\<lparr>ls_state := durability_new\<lparr>du_written := 1, du_file := True, du_blobs := [7],
      du_blob_directory := Some 2\<rparr>, ls_open := True, ls_naming := None, ls_names := [{7}],
      ls_phase := (\<lambda>_. Idle)(0 := Calling 1)\<rparr>)"
    by (simp add: defs)
  from log_reached.step [OF this log_step.sync_start [of _ 0 1]]
  show ?thesis by (simp add: defs sample_syncing_def)
qed

text \<open>
  C14. In a calm run, when \<open>sync_through\<close> returns without an error the record it was called for is on the
  disk with all that were written before it, with every blob they name and with the entry of the log in
  its folder.
\<close>

theorem synced_commit_on_disk:
  assumes "log_reached folder blob_folder True s" and "ls_phase s t = Returned c True"
  shows "c \<le> ls_durable s \<and> named c s \<subseteq> ls_disk s \<and> (0 < c \<longrightarrow> ls_entry s)"
proof -
  have le: "c \<le> du_synced (ls_state s)"
    by (rule counters_okD(9) [OF reached_counters [OF assms(1)] assms(2)])
  note disk = disk_okD(10-12) [OF reached_disk [OF assms(1)]]
  then show ?thesis using le named_mono [OF le, of s] by auto
qed

theorem synced_commit_on_disk_witness:
  "\<exists>s. log_reached 1 2 True s \<and> ls_phase s 0 = Returned 1 True \<and> 1 \<le> ls_durable s \<and> named 1 s \<subseteq> ls_disk s"
proof -
  let ?w = "Sync 0 1 \<lparr>jo_target = 1, jo_file = True, jo_directory = None,
        jo_blobs = \<lparr>bl_paths = [7], bl_directory = Some 2\<rparr>\<rparr>"
  let ?s1 = "sample_syncing\<lparr>ls_works := [(?w, Some (Inr ()))], ls_disk := {7}, ls_durable := 1\<rparr>"
  have "perform (\<lambda>_. True) (items ?w) = (Inr (), [BlobItem 7, FolderItem 2, LogItem])"
    by (simp add: sync_items_def blob_items_def folder_item_def)
  from log_reached.step [OF sample_syncing_reached log_step.sync [where ws = "[]" and ws' = "[]", OF _ this]]
  have "log_reached 1 2 True ?s1"
    by (simp add: sample_syncing_def put_on_disk_def)
  from log_reached.step [OF this log_step.ended [where ws = "[]" and ws' = "[]"]]
  have "log_reached 1 2 True (ended ?w (Inr ()) (?s1\<lparr>ls_works := []\<rparr>))"
    by (simp add: sample_syncing_def)
  from log_reached.step [OF this log_step.covered [of _ 0 1]]
  have "\<exists>s. log_reached 1 2 True s \<and> ls_phase s 0 = Returned 1 True"
    by (auto simp: sync_turn_def ended_fields sample_syncing_def)
  then obtain s where s: "log_reached 1 2 True s" "ls_phase s 0 = Returned 1 True" by blast
  from synced_commit_on_disk [OF s] s show ?thesis by auto
qed

text \<open>
  Without calm it is not so: a writer that closes while the sync is at its blobs finds none to sync
  itself, and counts the record as synced; another caller then returns although the blob is not on
  the disk, and the first may still fail.
\<close>

lemma close_overtakes_sync:
  "\<exists>s. log_reached 1 2 False s \<and> ls_phase s 3 = Returned 1 True \<and> \<not> named 1 s \<subseteq> ls_disk s"
proof -
  let ?w = "Sync 0 1 \<lparr>jo_target = 1, jo_file = True, jo_directory = None,
        jo_blobs = \<lparr>bl_paths = [7], bl_directory = Some 2\<rparr>\<rparr>"
  let ?c = "Close \<lparr>jo_target = 1, jo_file = True, jo_directory = None,
        jo_blobs = \<lparr>bl_paths = [], bl_directory = None\<rparr>\<rparr>"
  let ?s1 = "sample_syncing\<lparr>ls_open := False, ls_works := [(?c, None), (?w, None)]\<rparr>"
  let ?s2 = "sample_syncing\<lparr>ls_open := False, ls_works := [(?c, Some (Inr ())), (?w, None)], ls_durable := 1\<rparr>"
  let ?s3 = "ended ?c (Inr ()) (?s2\<lparr>ls_works := [(?w, None)]\<rparr>)"
  have "close_start (ls_state sample_syncing) = (Some \<lparr>jo_target = 1, jo_file = True, jo_directory = None,
        jo_blobs = \<lparr>bl_paths = [], bl_directory = None\<rparr>\<rparr>, ls_state sample_syncing)"
    by (simp add: close_start_def take_blobs_def sample_syncing_def Let_def)
  from log_reached.step [OF sample_syncing_reached log_step.close_start [OF _ _ _ this]]
  have "log_reached 1 2 False ?s1"
    by (simp add: sample_syncing_def appending_def)
  moreover have "perform (\<lambda>_. True) (items ?c) = (Inr (), [LogItem])"
    by (simp add: sync_items_def blob_items_def folder_item_def)
  ultimately have "log_reached 1 2 False ?s2"
    using log_reached.step [OF _ log_step.sync [where ws = "[]" and ws' = "[(?w, None)]" and w = ?c and s = ?s1]]
    by (fastforce simp: sample_syncing_def put_on_disk_def)
  from log_reached.step [OF this log_step.ended [where ws = "[]" and ws' = "[(?w, None)]"]]
  have s3: "log_reached 1 2 False ?s3" by (simp add: sample_syncing_def)
  have "log_reached 1 2 False (?s3\<lparr>ls_phase := (ls_phase ?s3)(3 := Calling 1)\<rparr>)"
    using log_reached.step [OF s3 log_step.call [of 1 ?s3 3]]
    by (simp add: ended_fields latest_def sample_syncing_def notify_all_def)
  from log_reached.step [OF this log_step.covered [of _ 3 1]]
  have "log_reached 1 2 False (?s3\<lparr>ls_phase := (ls_phase ?s3)(3 := Returned 1 True)\<rparr>)"
    by (simp add: sync_turn_def ended_fields sample_syncing_def)
  moreover have "\<not> named 1 (?s3\<lparr>ls_phase := ph\<rparr>) \<subseteq> ls_disk (?s3\<lparr>ls_phase := ph\<rparr>)" for ph
    by (simp add: named_def sample_syncing_def)
  ultimately show ?thesis by fastforce
qed

text \<open>
  C23. No wakeup of \<open>sync_through\<close> is lost: while a caller waits, a sync of another caller is running,
  and its end, whatever its outcome, wakes every caller that waits and leaves nothing that was written
  before it started to wait for a sync.
\<close>

theorem waiting_caller_woken:
  assumes "log_reached folder blob_folder calm s" and "ls_phase s t = Waiting c"
  shows "\<exists>u k j out. (Sync u k j, out) \<in> set (ls_works s) \<and> u \<noteq> t
    \<and> (\<forall>r s'. ls_phase s' t = Waiting c \<longrightarrow> ls_phase (ended (Sync u k j) r s') t = Calling c
        \<and> (\<forall>b \<le> jo_target j. is_settled b (ls_state (ended (Sync u k j) r s'))))"
proof -
  note counters = counters_okD [OF reached_counters [OF assms(1)]]
  obtain w out where "(w, out) \<in> set (ls_works s)" "is_sync w"
    using counters(5,7) assms(2) by fastforce
  then obtain u k j where work: "(Sync u k j, out) \<in> set (ls_works s)"
    by (auto simp: is_sync_def split: work.splits)
  from counters(10) [OF work] assms(2) have "u \<noteq> t" by auto
  with work show ?thesis
    by (intro exI [of _ u] exI [of _ k] exI [of _ j] exI [of _ out])
      (auto simp: notify_all_def is_settled_def ended_fields)
qed

theorem waiting_caller_woken_witness:
  "\<exists>s u k j out. log_reached 1 2 True s \<and> ls_phase s 3 = Waiting 1 \<and> (Sync u k j, out) \<in> set (ls_works s) \<and> u \<noteq> 3"
proof -
  have "log_reached 1 2 True (sample_syncing\<lparr>ls_phase := (ls_phase sample_syncing)(3 := Calling 1)\<rparr>)"
    using log_reached.step [OF sample_syncing_reached log_step.call [of 1 _ 3]]
    by (simp add: latest_def sample_syncing_def)
  from log_reached.step [OF this log_step.wait [of _ 3 1]]
  have "log_reached 1 2 True (sample_syncing\<lparr>ls_phase := (ls_phase sample_syncing)(3 := Waiting 1)\<rparr>)"
    by (simp add: sync_turn_def sample_syncing_def)
  from waiting_caller_woken [OF this, of 3 1] this show ?thesis by fastforce
qed

end
