(* ===== verification/Live_Tails.thy ===== *)
theory Live_Tails
  imports In_Flight Durability
begin

text \<open>
  How a session's events reach its readers: the log, the publications queued behind commit points
  that are still syncing (\<open>crates/engine_store/src/session/publication.rs\<close>), and the live tails
  with their bounded channels (\<open>crates/engine_store/src/session/mod.rs\<close>: \<open>register_tail\<close>,
  \<open>publish_stored_event\<close>, \<open>publish_rewound\<close>, \<open>publish_transient\<close>). One session is modelled; the
  locks, under which each of these runs as a whole, are dropped. A channel of \<open>tokio\<close> is its
  queue with a capacity and whether its receiver was dropped.
\<close>

subsection \<open>Messages and channels\<close>

record 'v stored_event =
  ev_seq :: nat
  ev_run :: "run option"
  ev_payload :: "'v event_payload"

datatype 'v message =
    EventMessage "'v stored_event"
  | TransientMessage nat "run option" "'v event_payload"
  | GapMessage nat
  | RewoundMessage nat

record 'v channel =
  ch_queue :: "'v message list"
  ch_closed :: bool

type_synonym channel_id = nat

definition QUEUE_CAPACITY :: nat where
  "QUEUE_CAPACITY = 256"

definition capacity :: "'v channel \<Rightarrow> nat" where
  "capacity c = QUEUE_CAPACITY - length (ch_queue c)"

definition try_send :: "'v message \<Rightarrow> 'v channel \<Rightarrow> bool \<times> 'v channel" where
  "try_send m c =
     (if ch_closed c \<or> capacity c = 0 then (False, c) else (True, c\<lparr>ch_queue := ch_queue c @ [m]\<rparr>))"

record tail_state =
  ta_owner :: "nat option"
  ta_channel :: channel_id
  ta_after :: nat

text \<open>\<open>Vec::retain_mut\<close> with the channels that the closure sends to.\<close>

fun retain_tails :: "(tail_state \<Rightarrow> 'v channel \<Rightarrow> bool \<times> tail_state \<times> 'v channel) \<Rightarrow> tail_state list \<Rightarrow>
    (channel_id \<Rightarrow> 'v channel) \<Rightarrow> tail_state list \<times> (channel_id \<Rightarrow> 'v channel)" where
  "retain_tails f [] chans = ([], chans)"
| "retain_tails f (t # ts) chans =
     (let (keep, t', c) = f t (chans (ta_channel t));
          (kept, chans) = retain_tails f ts (chans(ta_channel t := c))
      in (if keep then t' # kept else kept, chans))"

subsection \<open>A session\<close>

record 'v subscribers =
  su_last_seq :: nat
  su_tails :: "tail_state list"
  su_in_flight :: "'v in_flight"

text \<open>A publication not yet made; a commit point waits for the sync of its record.\<close>

datatype 'v pending = PendingEvent "'v stored_event" "nat option" | PendingRewound nat

record 'v session_state =
  se_log :: "'v stored_event list"
  se_durability :: durability
  se_pending :: "'v pending list"
  se_subscribers :: "'v subscribers option"
  se_channels :: "channel_id \<Rightarrow> 'v channel"
  se_next_channel :: channel_id

definition no_subscribers :: "'v subscribers" where
  "no_subscribers = \<lparr>su_last_seq = 0, su_tails = [], su_in_flight = in_flight_empty\<rparr>"

text \<open>\<open>entry(..).or_default()\<close>.\<close>

definition subscribers_of :: "'v session_state \<Rightarrow> 'v subscribers" where
  "subscribers_of s = (case se_subscribers s of Some su \<Rightarrow> su | None \<Rightarrow> no_subscribers)"

definition send_event :: "'v stored_event \<Rightarrow> tail_state \<Rightarrow> 'v channel \<Rightarrow> bool \<times> tail_state \<times> 'v channel" where
  "send_event e t c =
     (if ev_seq e \<le> ta_after t then (True, t, c)
      else (let is_gap = (capacity c \<le> 1);
                (ok, c) = try_send (if is_gap then GapMessage (ev_seq e - 1) else EventMessage e) c
            in (ok \<and> \<not> is_gap, t, c)))"

definition publish_stored_event :: "'v stored_event \<Rightarrow> 'v session_state \<Rightarrow> 'v session_state" where
  "publish_stored_event e s =
     (let su = subscribers_of s;
          (tails, chans) = retain_tails (send_event e) (su_tails su) (se_channels s)
      in s\<lparr>se_subscribers := Some \<lparr>su_last_seq = ev_seq e, su_tails = tails,
             su_in_flight = settle (ev_run e) (ev_payload e) (su_in_flight su)\<rparr>,
           se_channels := chans\<rparr>)"

definition send_rewound :: "nat \<Rightarrow> tail_state \<Rightarrow> 'v channel \<Rightarrow> bool \<times> tail_state \<times> 'v channel" where
  "send_rewound through t c =
     (let t = t\<lparr>ta_after := min (ta_after t) through\<rparr>;
          room = (capacity c > 1);
          (ok, c) = try_send (RewoundMessage through) c
      in (ok \<and> room, t, c))"

definition publish_rewound :: "nat \<Rightarrow> 'v session_state \<Rightarrow> 'v session_state" where
  "publish_rewound through s =
     (case se_subscribers s of
        None \<Rightarrow> s
      | Some su \<Rightarrow>
          (let (tails, chans) = retain_tails (send_rewound through) (su_tails su) (se_channels s)
           in s\<lparr>se_subscribers := Some \<lparr>su_last_seq = through, su_tails = tails, su_in_flight = in_flight_empty\<rparr>,
                se_channels := chans\<rparr>))"

definition send_transient :: "'v message \<Rightarrow> tail_state \<Rightarrow> 'v channel \<Rightarrow> bool \<times> tail_state \<times> 'v channel" where
  "send_transient m t c =
     (let c = (if capacity c > 1 then snd (try_send m c) else c) in (\<not> ch_closed c, t, c))"

definition publish_transient :: "'v sizes \<Rightarrow> run option \<Rightarrow> 'v event_payload \<Rightarrow> 'v session_state \<Rightarrow>
    'v message option \<times> 'v session_state" where
  "publish_transient sz r p s =
     (let su = subscribers_of s; su = su\<lparr>su_in_flight := record_output sz r p (su_in_flight su)\<rparr>
      in if su_last_seq su = 0 \<and> su_tails su = [] then (None, s\<lparr>se_subscribers := Some su\<rparr>)
         else (let m = TransientMessage (su_last_seq su) r p;
                   (tails, chans) = retain_tails (send_transient m) (su_tails su) (se_channels s)
               in (Some m, s\<lparr>se_subscribers := Some (su\<lparr>su_tails := tails\<rparr>), se_channels := chans\<rparr>)))"

text \<open>The loop that gives a new tail what is in flight.\<close>

fun send_in_flight :: "nat \<Rightarrow> 'v live_output list \<Rightarrow> 'v channel \<Rightarrow> 'v channel" where
  "send_in_flight last_seq [] c = c"
| "send_in_flight last_seq ((r, p) # outs) c =
     (if capacity c \<le> 1 then c
      else send_in_flight last_seq outs (snd (try_send (TransientMessage last_seq r p) c)))"

definition register_tail :: "nat \<Rightarrow> nat option \<Rightarrow> bool \<Rightarrow> 'v session_state \<Rightarrow> 'v session_state" where
  "register_tail tip owner from_start s =
     (let su = subscribers_of s;
          tails = (if owner \<noteq> None then filter (\<lambda>t. ta_owner t \<noteq> owner) (su_tails su) else su_tails su);
          outs = (if from_start then replay (su_in_flight su) else acp_live_state (su_in_flight su));
          chan = send_in_flight tip outs \<lparr>ch_queue = [], ch_closed = False\<rparr>
      in s\<lparr>se_subscribers := Some (su\<lparr>su_last_seq := tip,
             su_tails := tails @ [\<lparr>ta_owner = owner, ta_channel = se_next_channel s, ta_after = tip\<rparr>]\<rparr>),
           se_channels := (se_channels s)(se_next_channel s := chan), se_next_channel := se_next_channel s + 1\<rparr>)"

definition unsubscribe_events :: "nat \<Rightarrow> 'v session_state \<Rightarrow> bool \<times> 'v session_state" where
  "unsubscribe_events owner s =
     (case se_subscribers s of
        None \<Rightarrow> (False, s)
      | Some su \<Rightarrow>
          (let tails = filter (\<lambda>t. ta_owner t \<noteq> Some owner) (su_tails su)
           in (length tails \<noteq> length (su_tails su), s\<lparr>se_subscribers := Some (su\<lparr>su_tails := tails\<rparr>)\<rparr>)))"

definition has_live_tail :: "'v session_state \<Rightarrow> bool" where
  "has_live_tail s \<longleftrightarrow>
     (case se_subscribers s of
        None \<Rightarrow> False
      | Some su \<Rightarrow> list_ex (\<lambda>t. \<not> ch_closed (se_channels s (ta_channel t))) (su_tails su))"

definition notify_evicted_subscribers :: "nat \<Rightarrow> 'v session_state \<Rightarrow> 'v session_state" where
  "notify_evicted_subscribers last_event_seq s =
     s\<lparr>se_subscribers := None,
       se_channels := foldl (\<lambda>chans t. chans(ta_channel t :=
           snd (try_send (GapMessage last_event_seq) (chans (ta_channel t)))))
         (se_channels s) (su_tails (subscribers_of s))\<rparr>"

subsection \<open>Publication in the order of the log\<close>

fun ready :: "durability \<Rightarrow> 'v pending \<Rightarrow> bool" where
  "ready d (PendingEvent e (Some commit)) \<longleftrightarrow> is_settled commit d"
| "ready d (PendingEvent e None) \<longleftrightarrow> True"
| "ready d (PendingRewound through) \<longleftrightarrow> True"

fun publish :: "'v pending \<Rightarrow> 'v session_state \<Rightarrow> 'v session_state" where
  "publish (PendingEvent e commit) s = publish_stored_event e s"
| "publish (PendingRewound through) s = publish_rewound through s"

text \<open>\<open>publish_ready\<close> on the pending publications, which it leaves.\<close>

fun publish_ready :: "'v pending list \<Rightarrow> 'v session_state \<Rightarrow> 'v session_state" where
  "publish_ready [] s = s\<lparr>se_pending := []\<rparr>"
| "publish_ready (p # ps) s =
     (if ready (se_durability s) p then publish_ready ps (publish p s) else s\<lparr>se_pending := p # ps\<rparr>)"

definition queue_publication :: "'v pending \<Rightarrow> 'v session_state \<Rightarrow> 'v session_state" where
  "queue_publication p s = publish_ready (se_pending s @ [p]) s"

definition publish_settled :: "'v session_state \<Rightarrow> 'v session_state" where
  "publish_settled s = publish_ready (se_pending s) s"

text \<open>A record written to a persisted log, and the commit it gives.\<close>

definition write_record :: "bool \<Rightarrow> durability \<Rightarrow> nat option \<times> durability" where
  "write_record commit d =
     (let ((number, new_file), d) = written d in (if commit \<or> new_file then Some number else None, d))"

text \<open>An append that passed its checks; a buffered log writes nothing.\<close>

definition append_event :: "bool \<Rightarrow> bool \<Rightarrow> run option \<Rightarrow> 'v event_payload \<Rightarrow> 'v session_state \<Rightarrow> 'v session_state" where
  "append_event persisted commit r p s =
     (let e = \<lparr>ev_seq = length (se_log s) + 1, ev_run = r, ev_payload = p\<rparr>;
          (number, d) = (if persisted then write_record commit (se_durability s) else (None, se_durability s))
      in queue_publication (PendingEvent e number) (s\<lparr>se_log := se_log s @ [e], se_durability := d\<rparr>))"

text \<open>A truncation keeps the first event, and one past the log's end cuts nothing but is published too.\<close>

definition truncate_log :: "nat \<Rightarrow> 'v session_state \<Rightarrow> 'v session_state" where
  "truncate_log through s =
     (if through = 0 then s
      else queue_publication (PendingRewound through) (s\<lparr>se_log := take through (se_log s)\<rparr>))"

subsection \<open>Readers\<close>

text \<open>
  What a follower holds of the session, by sequence, and the last event it applied: an event that
  it has is dropped, as \<open>apply_event_for_generation\<close> of \<open>crates/client_state/src/lib.rs\<close> does, and
  a rewind drops what lies past it, as the protocol's \<open>EventSubscriptionMessage\<close> asks.
\<close>

record 'v reader =
  rd_held :: "nat \<rightharpoonup> 'v stored_event"
  rd_last :: nat

fun view_take :: "'v reader \<Rightarrow> 'v message \<Rightarrow> 'v reader" where
  "view_take v (EventMessage e) =
     (if ev_seq e \<le> rd_last v then v
      else \<lparr>rd_held = (rd_held v)(ev_seq e \<mapsto> e), rd_last = ev_seq e\<rparr>)"
| "view_take v (RewoundMessage through) =
     \<lparr>rd_held = rd_held v |` {..through}, rd_last = min (rd_last v) through\<rparr>"
| "view_take v (TransientMessage _ _ _) = v"
| "view_take v (GapMessage _) = v"

text \<open>The events of a log by their sequence.\<close>

definition held_of :: "'v stored_event list \<Rightarrow> nat \<rightharpoonup> 'v stored_event" where
  "held_of log = (\<lambda>k. if 1 \<le> k \<and> k \<le> length log then Some (log ! (k - 1)) else None)"

record 'v system =
  sy_session :: "'v session_state"
  sy_readers :: "channel_id \<Rightarrow> 'v reader"

definition system_start :: "'v system" where
  "system_start =
     \<lparr>sy_session = \<lparr>se_log = [], se_durability = durability_new, se_pending = [], se_subscribers = None,
         se_channels = (\<lambda>_. \<lparr>ch_queue = [], ch_closed = True\<rparr>), se_next_channel = 0\<rparr>,
      sy_readers = (\<lambda>_. \<lparr>rd_held = Map.empty, rd_last = 0\<rparr>)\<rparr>"

text \<open>
  What happens to a session. Syncs, of which \<open>Durability\<close> tells, change anything of the state of the
  log's file here but what was written.
\<close>

datatype 'v system_op =
    Appended bool bool "run option" "'v event_payload"
  | Synced durability
  | PublishSettled
  | Reverted nat
  | Subscribed "nat option" bool
  | Unsubscribed nat
  | Streamed "run option" "'v event_payload"
  | Received channel_id
  | Disconnected channel_id
  | Evicted

definition receive :: "channel_id \<Rightarrow> 'v system \<Rightarrow> 'v system" where
  "receive ch sys =
     (case ch_queue (se_channels (sy_session sys) ch) of
        [] \<Rightarrow> sys
      | m # queue \<Rightarrow>
          sys\<lparr>sy_session := (sy_session sys)\<lparr>se_channels := (se_channels (sy_session sys))
                (ch := (se_channels (sy_session sys) ch)\<lparr>ch_queue := queue\<rparr>)\<rparr>,
              sy_readers := (sy_readers sys)(ch := view_take (sy_readers sys ch) m)\<rparr>)"

text \<open>
  A reader that subscribes holds the log: the page it was sent, after what it had up to its cursor.
\<close>

fun system_step :: "'v sizes \<Rightarrow> 'v system \<Rightarrow> 'v system_op \<Rightarrow> 'v system" where
  "system_step sz sys (Appended persisted commit r p) =
     sys\<lparr>sy_session := append_event persisted commit r p (sy_session sys)\<rparr>"
| "system_step sz sys (Synced d) =
     (if du_written d = du_written (se_durability (sy_session sys))
      then sys\<lparr>sy_session := (sy_session sys)\<lparr>se_durability := d\<rparr>\<rparr> else sys)"
| "system_step sz sys PublishSettled = sys\<lparr>sy_session := publish_settled (sy_session sys)\<rparr>"
| "system_step sz sys (Reverted through) = sys\<lparr>sy_session := truncate_log through (sy_session sys)\<rparr>"
| "system_step sz sys (Subscribed owner from_start) =
     (let log = se_log (sy_session sys)
      in \<lparr>sy_session = register_tail (length log) owner from_start (sy_session sys),
          sy_readers = (sy_readers sys)(se_next_channel (sy_session sys) :=
            \<lparr>rd_held = held_of log, rd_last = length log\<rparr>)\<rparr>)"
| "system_step sz sys (Unsubscribed owner) = sys\<lparr>sy_session := snd (unsubscribe_events owner (sy_session sys))\<rparr>"
| "system_step sz sys (Streamed r p) = sys\<lparr>sy_session := snd (publish_transient sz r p (sy_session sys))\<rparr>"
| "system_step sz sys (Received ch) = receive ch sys"
| "system_step sz sys (Disconnected ch) =
     sys\<lparr>sy_session := (sy_session sys)\<lparr>se_channels := (se_channels (sy_session sys))
       (ch := (se_channels (sy_session sys) ch)\<lparr>ch_closed := True\<rparr>)\<rparr>\<rparr>"
| "system_step sz sys Evicted =
     sys\<lparr>sy_session := notify_evicted_subscribers (length (se_log (sy_session sys))) (sy_session sys)\<rparr>"

subsection \<open>Publications and the log\<close>

text \<open>What was published of the log, and the publications that lead from it to the log.\<close>

fun leads_to :: "'v stored_event list \<Rightarrow> 'v pending list \<Rightarrow> 'v stored_event list \<Rightarrow> bool" where
  "leads_to published [] log \<longleftrightarrow> published = log"
| "leads_to published (PendingEvent e commit # ps) log \<longleftrightarrow>
     ev_seq e = Suc (length published) \<and> leads_to (published @ [e]) ps log"
| "leads_to published (PendingRewound through # ps) log \<longleftrightarrow> leads_to (take through published) ps log"

text \<open>Whether a pending revert cuts an event.\<close>

definition cut_pending :: "nat \<Rightarrow> 'v pending list \<Rightarrow> bool" where
  "cut_pending k ps \<longleftrightarrow> (\<exists>through. PendingRewound through \<in> set ps \<and> through < k)"

lemma cut_pending_simps [simp]:
  "\<not> cut_pending k []" "cut_pending k (PendingEvent e commit # ps) = cut_pending k ps"
  "cut_pending k (PendingRewound through # ps) \<longleftrightarrow> through < k \<or> cut_pending k ps"
  "cut_pending k (ps @ qs) \<longleftrightarrow> cut_pending k ps \<or> cut_pending k qs"
  by (auto simp: cut_pending_def)

lemma leads_to_append_event:
  "leads_to published ps log \<Longrightarrow> ev_seq e = Suc (length log) \<Longrightarrow>
    leads_to published (ps @ [PendingEvent e commit]) (log @ [e])"
  by (induction published ps log rule: leads_to.induct) auto

lemma leads_to_append_rewound:
  "leads_to published ps log \<Longrightarrow> leads_to published (ps @ [PendingRewound through]) (take through log)"
  by (induction published ps log rule: leads_to.induct) auto

lemma leads_to_keeps:
  "leads_to published ps log \<Longrightarrow> \<not> cut_pending (Suc i) ps \<Longrightarrow> i < length published \<Longrightarrow>
    i < length log \<and> log ! i = published ! i"
  by (induction published ps log rule: leads_to.induct) (auto simp: nth_append)

subsection \<open>What a reader holds\<close>

definition view_ok :: "'v stored_event list \<Rightarrow> 'v pending list \<Rightarrow> 'v stored_event list \<Rightarrow> 'v reader \<Rightarrow> bool" where
  "view_ok published ps log v \<longleftrightarrow>
     (\<forall>i < length log. \<not> cut_pending (Suc i) ps \<longrightarrow>
        rd_held v (Suc i) = Some (log ! i) \<and> i < rd_last v \<or> rd_last v \<le> i \<and> length published \<le> i)
     \<and> (\<forall>k. length log < k \<and> k \<le> rd_last v \<longrightarrow> cut_pending k ps)
     \<and> (\<forall>k e. rd_held v k = Some e \<longrightarrow> 1 \<le> k \<and> k \<le> rd_last v)"


lemma view_ok_subscribed: "view_ok published ps log \<lparr>rd_held = held_of log, rd_last = length log\<rparr>"
  by (auto simp: view_ok_def held_of_def split: if_splits)

text \<open>A view stays right as publications are made, and as the log grows or is cut.\<close>

lemma view_okI:
  assumes "\<And>i. i < length log \<Longrightarrow> \<not> cut_pending (Suc i) ps \<Longrightarrow>
      rd_held v (Suc i) = Some (log ! i) \<and> i < rd_last v \<or> rd_last v \<le> i \<and> length published \<le> i"
    and "\<And>k. length log < k \<Longrightarrow> k \<le> rd_last v \<Longrightarrow> cut_pending k ps"
    and "\<And>k e. rd_held v k = Some e \<Longrightarrow> 1 \<le> k \<and> k \<le> rd_last v"
  shows "view_ok published ps log v"
  using assms unfolding view_ok_def by blast

lemma view_okD:
  assumes "view_ok published ps log v"
  shows "i < length log \<Longrightarrow> \<not> cut_pending (Suc i) ps \<Longrightarrow>
      rd_held v (Suc i) = Some (log ! i) \<and> i < rd_last v \<or> rd_last v \<le> i \<and> length published \<le> i"
    and "length log < k \<Longrightarrow> k \<le> rd_last v \<Longrightarrow> cut_pending k ps"
    and "rd_held v k = Some e \<Longrightarrow> 1 \<le> k \<and> k \<le> rd_last v"
  using assms unfolding view_ok_def by blast+

lemma view_ok_event:
  assumes view: "view_ok published (PendingEvent e commit # ps) log v"
    and leads: "leads_to published (PendingEvent e commit # ps) log"
  shows "view_ok (published @ [e]) ps log (view_take v (EventMessage e))"
proof (cases "ev_seq e \<le> rd_last v")
  case True
  show ?thesis
  proof (rule view_okI)
    fix i assume "i < length log" "\<not> cut_pending (Suc i) ps"
    with view_okD(1) [OF view, of i] True leads
    show "rd_held (view_take v (EventMessage e)) (Suc i) = Some (log ! i) \<and> i < rd_last (view_take v (EventMessage e))
      \<or> rd_last (view_take v (EventMessage e)) \<le> i \<and> length (published @ [e]) \<le> i"
      by auto
  qed (use view_okD(2,3) [OF view] True in auto)
next
  case False
  have seq: "ev_seq e = Suc (length published)" and leads': "leads_to (published @ [e]) ps log"
    using leads by simp_all
  show ?thesis
  proof (rule view_okI)
    fix i assume i: "i < length log" "\<not> cut_pending (Suc i) ps"
    have "log ! i = e" if "i = length published"
      using leads_to_keeps [OF leads' i(2)] that by simp
    with view_okD(1) [OF view, of i] i False seq
    show "rd_held (view_take v (EventMessage e)) (Suc i) = Some (log ! i) \<and> i < rd_last (view_take v (EventMessage e))
      \<or> rd_last (view_take v (EventMessage e)) \<le> i \<and> length (published @ [e]) \<le> i"
      by (cases "i = length published") auto
  next
    fix k assume k: "length log < k" "k \<le> rd_last (view_take v (EventMessage e))"
    show "cut_pending k ps"
    proof (rule ccontr)
      assume "\<not> cut_pending k ps"
      then have "k - 1 < length log"
        using leads_to_keeps [OF leads', of "k - 1"] k False seq by simp
      with k show False by simp
    qed
  next
    fix k f assume "rd_held (view_take v (EventMessage e)) k = Some f"
    then show "1 \<le> k \<and> k \<le> rd_last (view_take v (EventMessage e))"
      using view_okD(3) [OF view, of k] False seq by (auto split: if_splits)
  qed
qed

lemma view_ok_rewound:
  assumes view: "view_ok published (PendingRewound through # ps) log v"
  shows "view_ok (take through published) ps log (view_take v (RewoundMessage through))"
proof (rule view_okI)
  fix i assume i: "i < length log" "\<not> cut_pending (Suc i) ps"
  show "rd_held (view_take v (RewoundMessage through)) (Suc i) = Some (log ! i)
      \<and> i < rd_last (view_take v (RewoundMessage through))
      \<or> rd_last (view_take v (RewoundMessage through)) \<le> i \<and> length (take through published) \<le> i"
    using view_okD(1) [OF view i(1)] i by (cases "through < Suc i") auto
next
  fix k assume "length log < k" "k \<le> rd_last (view_take v (RewoundMessage through))"
  then show "cut_pending k ps" using view_okD(2) [OF view, of k] by auto
next
  fix k e assume "rd_held (view_take v (RewoundMessage through)) k = Some e"
  then show "1 \<le> k \<and> k \<le> rd_last (view_take v (RewoundMessage through))"
    using view_okD(3) [OF view, of k] by (auto simp: restrict_map_def split: if_splits)
qed

lemma view_ok_log_event:
  assumes view: "view_ok published ps log v" and leads: "leads_to published ps log"
  shows "view_ok published (ps @ [PendingEvent e commit]) (log @ [e]) v"
proof (rule view_okI)
  fix i assume i: "i < length (log @ [e])" "\<not> cut_pending (Suc i) (ps @ [PendingEvent e commit])"
  show "rd_held v (Suc i) = Some ((log @ [e]) ! i) \<and> i < rd_last v \<or> rd_last v \<le> i \<and> length published \<le> i"
  proof (cases "i < length log")
    case True
    then show ?thesis using view_okD(1) [OF view, of i] i by (simp add: nth_append)
  next
    case False
    then have "i = length log" using i by simp
    then show ?thesis
      using view_okD(2) [OF view, of "Suc i"] leads_to_keeps [OF leads, of i] i by (force simp: not_le)
  qed
next
  fix k assume "length (log @ [e]) < k" "k \<le> rd_last v"
  then show "cut_pending k (ps @ [PendingEvent e commit])" using view_okD(2) [OF view, of k] by auto
qed (use view_okD(3) [OF view] in auto)

lemma view_ok_log_cut:
  assumes view: "view_ok published ps log v"
  shows "view_ok published (ps @ [PendingRewound through]) (take through log) v"
proof (rule view_okI)
  fix i assume "i < length (take through log)" "\<not> cut_pending (Suc i) (ps @ [PendingRewound through])"
  then show "rd_held v (Suc i) = Some (take through log ! i) \<and> i < rd_last v \<or> rd_last v \<le> i \<and> length published \<le> i"
    using view_okD(1) [OF view, of i] by simp
next
  fix k assume "length (take through log) < k" "k \<le> rd_last v"
  then show "cut_pending k (ps @ [PendingRewound through])"
    using view_okD(2) [OF view, of k] by (auto simp: min_def split: if_splits)
qed (use view_okD(3) [OF view] in auto)

subsection \<open>The tails\<close>

lemma retain_tails_spec:
  assumes "distinct (map ta_channel ts)" "retain_tails f ts chans = (kept, chans')"
  shows "kept = map (\<lambda>t. fst (snd (f t (chans (ta_channel t))))) (filter (\<lambda>t. fst (f t (chans (ta_channel t)))) ts)
    \<and> (\<forall>t \<in> set ts. chans' (ta_channel t) = snd (snd (f t (chans (ta_channel t)))))
    \<and> (\<forall>ch. ch \<notin> ta_channel ` set ts \<longrightarrow> chans' ch = chans ch)"
  using assms
proof (induction ts arbitrary: chans kept chans')
  case (Cons t ts)
  obtain keep t' c where t: "f t (chans (ta_channel t)) = (keep, t', c)" by (metis prod_cases3)
  obtain kept1 chans1 where rest: "retain_tails f ts (chans(ta_channel t := c)) = (kept1, chans1)" by fastforce
  from Cons.prems(2) have res: "kept = (if keep then t' # kept1 else kept1)" "chans' = chans1"
    by (simp_all add: t rest)
  have other: "ta_channel u \<noteq> ta_channel t" if "u \<in> set ts" for u
    using Cons.prems(1) that by (force simp: image_iff)
  from Cons.IH [OF _ rest] Cons.prems(1)
  have ih: "kept1 = map (\<lambda>u. fst (snd (f u ((chans(ta_channel t := c)) (ta_channel u)))))
        (filter (\<lambda>u. fst (f u ((chans(ta_channel t := c)) (ta_channel u)))) ts)"
      "\<And>u. u \<in> set ts \<Longrightarrow> chans1 (ta_channel u) = snd (snd (f u ((chans(ta_channel t := c)) (ta_channel u))))"
      "\<And>ch. ch \<notin> ta_channel ` set ts \<Longrightarrow> chans1 ch = (chans(ta_channel t := c)) ch"
    by simp_all
  have "kept1 = map (\<lambda>u. fst (snd (f u (chans (ta_channel u))))) (filter (\<lambda>u. fst (f u (chans (ta_channel u)))) ts)"
    unfolding ih(1) using other by (auto intro!: map_cong filter_cong)
  moreover have "chans1 (ta_channel t) = c" using ih(3) [of "ta_channel t"] Cons.prems(1) by simp
  ultimately show ?case using ih(2,3) other t res by auto
qed simp

text \<open>What holds of an open tail: room for a last gap, and a reader that is right once it has read its queue.\<close>

definition tail_ok :: "'v stored_event list \<Rightarrow> 'v pending list \<Rightarrow> 'v stored_event list \<Rightarrow> 'v channel \<Rightarrow> 'v reader \<Rightarrow>
    nat \<Rightarrow> bool" where
  "tail_ok published ps log c v after \<longleftrightarrow> ch_closed c
     \<or> length (ch_queue c) < QUEUE_CAPACITY \<and> view_ok published ps log (foldl view_take v (ch_queue c))
       \<and> after \<le> rd_last (foldl view_take v (ch_queue c))"

abbreviation tails_of :: "'v session_state \<Rightarrow> tail_state list" where
  "tails_of s \<equiv> su_tails (subscribers_of s)"

definition tails_ok :: "(channel_id \<Rightarrow> 'v reader) \<Rightarrow> 'v stored_event list \<Rightarrow> 'v pending list \<Rightarrow> 'v session_state \<Rightarrow> bool" where
  "tails_ok readers published ps s \<longleftrightarrow>
     leads_to published ps (se_log s) \<and> distinct (map ta_channel (tails_of s))
     \<and> (\<forall>t \<in> set (tails_of s). ta_channel t < se_next_channel s
          \<and> tail_ok published ps (se_log s) (se_channels s (ta_channel t)) (readers (ta_channel t)) (ta_after t))
     \<and> distinct (List.map_filter ta_owner (tails_of s))"

lemma send_event_ok:
  assumes ok: "tail_ok published (PendingEvent e commit # ps) log c v (ta_after t)"
    and leads: "leads_to published (PendingEvent e commit # ps) log"
    and sent: "send_event e t c = (True, t', c')"
  shows "t' = t \<and> tail_ok (published @ [e]) ps log c' v (ta_after t)"
proof (cases "ch_closed c")
  case True
  with sent show ?thesis
    by (auto simp: send_event_def try_send_def tail_ok_def Let_def split: if_splits)
next
  case False
  let ?v = "foldl view_take v (ch_queue c)"
  from ok False have old: "length (ch_queue c) < QUEUE_CAPACITY" "view_ok published (PendingEvent e commit # ps) log ?v"
      "ta_after t \<le> rd_last ?v"
    by (auto simp: tail_ok_def)
  note new = view_ok_event [OF old(2) leads]
  show ?thesis
  proof (cases "ev_seq e \<le> ta_after t")
    case True
    then have "view_take ?v (EventMessage e) = ?v" using old(3) by simp
    with new old True sent show ?thesis by (auto simp: send_event_def tail_ok_def)
  next
    case skip: False
    with sent False have c': "c' = c\<lparr>ch_queue := ch_queue c @ [EventMessage e]\<rparr>" "t' = t" "capacity c > 1"
      by (auto simp: send_event_def try_send_def Let_def split: if_splits)
    have "ta_after t \<le> rd_last (view_take ?v (EventMessage e))" using old(3) by auto
    with new c' show ?thesis
      by (auto simp: tail_ok_def capacity_def simp del: view_take.simps)
  qed
qed

lemma send_rewound_ok:
  assumes ok: "tail_ok published (PendingRewound through # ps) log c v (ta_after t)"
    and sent: "send_rewound through t c = (True, t', c')"
  shows "t' = t\<lparr>ta_after := min (ta_after t) through\<rparr> \<and> tail_ok (take through published) ps log c' v (ta_after t')"
proof (cases "ch_closed c")
  case True
  with sent show ?thesis by (auto simp: send_rewound_def try_send_def Let_def)
next
  case False
  let ?v = "foldl view_take v (ch_queue c)"
  from ok False have old: "view_ok published (PendingRewound through # ps) log ?v" "ta_after t \<le> rd_last ?v"
    by (auto simp: tail_ok_def)
  from sent False have c': "c' = c\<lparr>ch_queue := ch_queue c @ [RewoundMessage through]\<rparr>"
      "t' = t\<lparr>ta_after := min (ta_after t) through\<rparr>" "capacity c > 1"
    by (auto simp: send_rewound_def try_send_def Let_def split: if_splits)
  have "min (ta_after t) through \<le> rd_last (view_take ?v (RewoundMessage through))" using old(2) by auto
  with view_ok_rewound [OF old(1)] c' show ?thesis
    by (auto simp: tail_ok_def capacity_def simp del: view_take.simps)
qed

lemma send_transient_ok:
  assumes ok: "tail_ok published ps log c v (ta_after t)" and sent: "send_transient (TransientMessage k r p) t c = (True, t', c')"
  shows "t' = t \<and> tail_ok published ps log c' v (ta_after t)"
  using assms by (auto simp: send_transient_def try_send_def tail_ok_def capacity_def Let_def split: if_splits)

lemma retain_tails_keeps:
  assumes "distinct (map ta_channel ts)" "retain_tails f ts chans = (kept, chans')"
    and sends: "\<And>t t' c c'. t \<in> set ts \<Longrightarrow> f t (chans (ta_channel t)) = (True, t', c') \<Longrightarrow>
        ta_channel t' = ta_channel t \<and> ta_owner t' = ta_owner t \<and> ok t' c'"
  shows "distinct (map ta_channel kept) \<and> ta_channel ` set kept \<subseteq> ta_channel ` set ts
    \<and> (distinct (List.map_filter ta_owner ts) \<longrightarrow> distinct (List.map_filter ta_owner kept))
    \<and> (\<forall>t \<in> set kept. ok t (chans' (ta_channel t)))"
proof -
  define stays where "stays t = fst (f t (chans (ta_channel t)))" for t
  define becomes where "becomes t = fst (snd (f t (chans (ta_channel t))))" for t
  note spec = retain_tails_spec [OF assms(1,2)]
  have "stays = (\<lambda>t. fst (f t (chans (ta_channel t))))" "becomes = (\<lambda>t. fst (snd (f t (chans (ta_channel t)))))"
    by (simp_all add: stays_def becomes_def fun_eq_iff)
  then have kept: "kept = map becomes (filter stays ts)" using spec by simp
  have chans': "chans' (ta_channel t) = snd (snd (f t (chans (ta_channel t))))" if "t \<in> set ts" for t
    using spec that by blast
  have same: "ta_channel (becomes t) = ta_channel t \<and> ta_owner (becomes t) = ta_owner t
      \<and> ok (becomes t) (chans' (ta_channel t))" if "t \<in> set ts" "stays t" for t
  proof -
    have "f t (chans (ta_channel t)) = (True, becomes t, chans' (ta_channel t))"
      using that by (simp add: stays_def becomes_def chans' prod_eq_iff)
    from sends [OF that(1) this] show ?thesis .
  qed
  have channels: "map ta_channel kept = map ta_channel (filter stays ts)"
    using same by (simp add: kept)
  moreover have "distinct (map ta_channel (filter stays ts))"
    using assms(1) by (rule distinct_map_filter)
  moreover have "ta_channel ` set kept \<subseteq> ta_channel ` set ts"
    using arg_cong [OF channels, of set] by auto
  moreover have "distinct (List.map_filter ta_owner kept)" if "distinct (List.map_filter ta_owner ts)"
  proof -
    have "List.map_filter ta_owner kept = List.map_filter ta_owner (filter stays ts)"
      using same by (simp add: kept map_filter_def filter_map comp_def cong: conj_cong filter_cong map_cong)
    also have "\<dots> = map (the \<circ> ta_owner) (filter stays (filter (\<lambda>t. ta_owner t \<noteq> None) ts))"
      by (simp add: map_filter_def conj_commute)
    finally have "List.map_filter ta_owner kept
        = map (the \<circ> ta_owner) (filter stays (filter (\<lambda>t. ta_owner t \<noteq> None) ts))" .
    moreover have "distinct (map (the \<circ> ta_owner) (filter (\<lambda>t. ta_owner t \<noteq> None) ts))"
      using that by (simp add: map_filter_def)
    ultimately show ?thesis
      using distinct_map_filter by metis
  qed
  moreover have "\<forall>t \<in> set kept. ok t (chans' (ta_channel t))"
    using same by (auto simp: kept)
  ultimately show ?thesis by simp
qed

lemma tails_ok_cong:
  "se_log s' = se_log s \<Longrightarrow> subscribers_of s' = subscribers_of s \<Longrightarrow> se_channels s' = se_channels s \<Longrightarrow>
    se_next_channel s' = se_next_channel s \<Longrightarrow> tails_ok readers published ps s' = tails_ok readers published ps s"
  by (simp add: tails_ok_def)

lemma subscribers_of_simps [simp]:
  "subscribers_of (s\<lparr>se_subscribers := Some su\<rparr>) = su" "subscribers_of (s\<lparr>se_subscribers := None\<rparr>) = no_subscribers"
  "subscribers_of (s\<lparr>se_channels := c\<rparr>) = subscribers_of s" "subscribers_of (s\<lparr>se_pending := ps\<rparr>) = subscribers_of s"
  "subscribers_of (s\<lparr>se_log := log\<rparr>) = subscribers_of s" "subscribers_of (s\<lparr>se_durability := d\<rparr>) = subscribers_of s"
  "subscribers_of (s\<lparr>se_next_channel := k\<rparr>) = subscribers_of s" "su_tails no_subscribers = []"
  by (simp_all add: subscribers_of_def no_subscribers_def)

lemma tails_sent:
  assumes ok: "tails_ok readers published ps s"
    and kept: "retain_tails f (tails_of s) (se_channels s) = (kept, chans)"
    and sends: "\<And>t t' c c'. tail_ok published ps (se_log s) c (readers (ta_channel t)) (ta_after t) \<Longrightarrow>
        f t c = (True, t', c') \<Longrightarrow> ta_channel t' = ta_channel t \<and> ta_owner t' = ta_owner t
          \<and> tail_ok published' ps' (se_log s) c' (readers (ta_channel t)) (ta_after t')"
    and leads: "leads_to published' ps' (se_log s)"
    and s': "se_log s' = se_log s" "se_next_channel s' = se_next_channel s" "tails_of s' = kept" "se_channels s' = chans"
  shows "tails_ok readers published' ps' s'"
proof -
  have "distinct (map ta_channel (tails_of s))" and owners: "distinct (List.map_filter ta_owner (tails_of s))"
    and each: "\<And>t. t \<in> set (tails_of s) \<Longrightarrow> ta_channel t < se_next_channel s
        \<and> tail_ok published ps (se_log s) (se_channels s (ta_channel t)) (readers (ta_channel t)) (ta_after t)"
    using ok by (auto simp: tails_ok_def)
  from retain_tails_keeps [OF this(1) kept, of "\<lambda>t c. tail_ok published' ps' (se_log s) c (readers (ta_channel t)) (ta_after t)"]
  have "distinct (map ta_channel kept) \<and> ta_channel ` set kept \<subseteq> ta_channel ` set (tails_of s)
    \<and> (distinct (List.map_filter ta_owner (tails_of s)) \<longrightarrow> distinct (List.map_filter ta_owner kept))
    \<and> (\<forall>t \<in> set kept. tail_ok published' ps' (se_log s) (chans (ta_channel t)) (readers (ta_channel t)) (ta_after t))"
    using sends each by metis
  moreover have "ta_channel t < se_next_channel s" if "ta_channel ` set kept \<subseteq> ta_channel ` set (tails_of s)" "t \<in> set kept" for t
    using that each by (metis (no_types, lifting) image_eqI image_iff subsetD)
  ultimately show ?thesis
    using leads owners by (auto simp: tails_ok_def s')
qed

lemma tails_publish_event:
  assumes ok: "tails_ok readers published (PendingEvent e commit # ps) s"
  shows "tails_ok readers (published @ [e]) ps (publish_stored_event e s)"
proof -
  obtain kept chans where kept: "retain_tails (send_event e) (tails_of s) (se_channels s) = (kept, chans)" by fastforce
  have leads: "leads_to published (PendingEvent e commit # ps) (se_log s)" using ok by (simp add: tails_ok_def)
  have sends: "ta_channel t' = ta_channel t \<and> ta_owner t' = ta_owner t
      \<and> tail_ok (published @ [e]) ps (se_log s) c' (readers (ta_channel t)) (ta_after t')"
    if "tail_ok published (PendingEvent e commit # ps) (se_log s) c (readers (ta_channel t)) (ta_after t)"
      "send_event e t c = (True, t', c')" for t t' c c'
    using send_event_ok [OF that(1) leads that(2)] by simp
  show ?thesis
    by (rule tails_sent [OF ok kept sends])
      (use leads kept in \<open>auto simp: publish_stored_event_def Let_def\<close>)
qed

lemma tails_publish_rewound:
  assumes ok: "tails_ok readers published (PendingRewound through # ps) s"
  shows "tails_ok readers (take through published) ps (publish_rewound through s)"
proof (cases "se_subscribers s")
  case None
  then have "tails_of s = []" by (simp add: subscribers_of_def no_subscribers_def)
  with ok None show ?thesis by (simp add: tails_ok_def publish_rewound_def)
next
  case (Some su)
  then have su: "subscribers_of s = su" by (simp add: subscribers_of_def)
  obtain kept chans where kept: "retain_tails (send_rewound through) (tails_of s) (se_channels s) = (kept, chans)" by fastforce
  have leads: "leads_to published (PendingRewound through # ps) (se_log s)" using ok by (simp add: tails_ok_def)
  have sends: "ta_channel t' = ta_channel t \<and> ta_owner t' = ta_owner t
      \<and> tail_ok (take through published) ps (se_log s) c' (readers (ta_channel t)) (ta_after t')"
    if "tail_ok published (PendingRewound through # ps) (se_log s) c (readers (ta_channel t)) (ta_after t)"
      "send_rewound through t c = (True, t', c')" for t t' c c'
    using send_rewound_ok [OF that] by auto
  show ?thesis
    by (rule tails_sent [OF ok kept sends])
      (use leads kept in \<open>auto simp: publish_rewound_def Some su Let_def\<close>)
qed

lemma tails_publish: "tails_ok readers published (p # ps) s \<Longrightarrow> \<exists>published'. tails_ok readers published' ps (publish p s)"
  by (cases p) (auto dest: tails_publish_event tails_publish_rewound)

lemma publish_keeps [simp]:
  "se_log (publish p s) = se_log s" "se_durability (publish p s) = se_durability s"
  by (cases p; simp add: publish_stored_event_def publish_rewound_def Let_def split: prod.splits option.splits)+

lemma publish_ready_keeps:
  "se_log (publish_ready ps s) = se_log s \<and> se_durability (publish_ready ps s) = se_durability s
    \<and> set (se_pending (publish_ready ps s)) \<subseteq> set ps"
  by (induction ps s rule: publish_ready.induct) auto

lemma tails_publish_ready:
  "tails_ok readers published ps s \<Longrightarrow>
    \<exists>published'. tails_ok readers published' (se_pending (publish_ready ps s)) (publish_ready ps s)"
proof (induction ps s arbitrary: published rule: publish_ready.induct)
  case (1 s)
  then have "tails_ok readers published [] (s\<lparr>se_pending := []\<rparr>)"
    using tails_ok_cong [of "s\<lparr>se_pending := []\<rparr>" s] by simp
  then show ?case by auto
next
  case (2 p ps s)
  show ?case
  proof (cases "ready (se_durability s) p")
    case True
    from tails_publish [OF "2.prems"] obtain published' where "tails_ok readers published' ps (publish p s)" ..
    from "2.IH" [OF True this] True show ?thesis by simp
  next
    case False
    have "tails_ok readers published (p # ps) (s\<lparr>se_pending := p # ps\<rparr>)"
      using "2.prems" tails_ok_cong [of "s\<lparr>se_pending := p # ps\<rparr>" s] by simp
    with False show ?thesis by auto
  qed
qed


lemma send_in_flight_ok:
  "length (ch_queue c) < QUEUE_CAPACITY \<Longrightarrow>
    length (ch_queue (send_in_flight k outs c)) < QUEUE_CAPACITY
    \<and> foldl view_take v (ch_queue (send_in_flight k outs c)) = foldl view_take v (ch_queue c)"
  by (induction k outs c rule: send_in_flight.induct) (auto simp: try_send_def capacity_def split: if_splits)

lemma tails_transient:
  assumes ok: "tails_ok readers published ps s"
  shows "tails_ok readers published ps (snd (publish_transient sz r p s))"
proof -
  define su where "su = (subscribers_of s)\<lparr>su_in_flight := record_output sz r p (su_in_flight (subscribers_of s))\<rparr>"
  define m where "m = TransientMessage (su_last_seq su) r p"
  obtain kept chans where kept: "retain_tails (send_transient m) (tails_of s) (se_channels s) = (kept, chans)" by fastforce
  have leads: "leads_to published ps (se_log s)" using ok by (simp add: tails_ok_def)
  have sends: "ta_channel t' = ta_channel t \<and> ta_owner t' = ta_owner t
      \<and> tail_ok published ps (se_log s) c' (readers (ta_channel t)) (ta_after t')"
    if "tail_ok published ps (se_log s) c (readers (ta_channel t)) (ta_after t)"
      "send_transient m t c = (True, t', c')" for t t' c c'
    using send_transient_ok [OF that(1) that(2) [unfolded m_def]] by simp
  have tails: "su_tails su = tails_of s" by (simp add: su_def)
  show ?thesis
  proof (cases "su_last_seq su = 0 \<and> su_tails su = []")
    case True
    then have "snd (publish_transient sz r p s) = s\<lparr>se_subscribers := Some su\<rparr>"
      by (simp add: publish_transient_def su_def Let_def)
    then show ?thesis using ok by (simp add: tails_ok_def tails)
  next
    case False
    then have s': "snd (publish_transient sz r p s)
        = s\<lparr>se_subscribers := Some (su\<lparr>su_tails := kept\<rparr>), se_channels := chans\<rparr>"
      using kept by (auto simp: publish_transient_def Let_def su_def m_def)
    show ?thesis by (rule tails_sent [OF ok kept sends leads]) (simp_all add: s')
  qed
qed

lemma tails_filtered:
  assumes "tails_ok readers published ps s" and "se_log s' = se_log s" "se_next_channel s' = se_next_channel s"
    "se_channels s' = se_channels s" "tails_of s' = filter P (tails_of s)"
  shows "tails_ok readers published ps s'"
proof -
  have "List.map_filter ta_owner (filter P ts) = map (the \<circ> ta_owner) (filter P (filter (\<lambda>t. ta_owner t \<noteq> None) ts))" for ts
    by (simp add: map_filter_def conj_commute)
  then have "distinct (List.map_filter ta_owner (filter P (tails_of s)))"
    using assms(1) distinct_map_filter by (fastforce simp: tails_ok_def map_filter_def)
  then show ?thesis
    using assms by (auto simp: tails_ok_def distinct_map_filter)
qed

lemma tails_registered:
  assumes ok: "tails_ok readers published ps s"
  shows "tails_ok (readers(se_next_channel s := \<lparr>rd_held = held_of (se_log s), rd_last = length (se_log s)\<rparr>))
    published ps (register_tail (length (se_log s)) owner from_start s)"
proof -
  let ?readers = "readers(se_next_channel s := \<lparr>rd_held = held_of (se_log s), rd_last = length (se_log s)\<rparr>)"
  define tails where "tails = (if owner \<noteq> None then filter (\<lambda>t. ta_owner t \<noteq> owner) (tails_of s) else tails_of s)"
  define su where "su = (subscribers_of s)\<lparr>su_tails := tails\<rparr>"
  define outs where "outs = (if from_start then replay (su_in_flight su) else acp_live_state (su_in_flight su))"
  define chan where "chan = send_in_flight (length (se_log s)) outs \<lparr>ch_queue = [], ch_closed = False\<rparr>"
  define t where "t = \<lparr>ta_owner = owner, ta_channel = se_next_channel s, ta_after = length (se_log s)\<rparr>"
  have s': "register_tail (length (se_log s)) owner from_start s =
      s\<lparr>se_subscribers := Some (su\<lparr>su_last_seq := length (se_log s), su_tails := tails @ [t]\<rparr>),
        se_channels := (se_channels s)(se_next_channel s := chan), se_next_channel := se_next_channel s + 1\<rparr>"
    by (simp add: register_tail_def tails_def su_def chan_def outs_def t_def Let_def)
  have old: "tails_ok readers published ps (s\<lparr>se_subscribers := Some su\<rparr>)"
  proof (cases "owner = None")
    case True
    with ok show ?thesis by (simp add: tails_ok_def su_def tails_def)
  next
    case False
    show ?thesis
      by (rule tails_filtered [OF ok, where P = "\<lambda>t. ta_owner t \<noteq> owner"]) (use False in \<open>simp_all add: su_def tails_def\<close>)
  qed
  have view: "tail_ok published ps (se_log s) chan \<lparr>rd_held = held_of (se_log s), rd_last = length (se_log s)\<rparr> (length (se_log s))"
    using send_in_flight_ok [of "\<lparr>ch_queue = [], ch_closed = False\<rparr>" "length (se_log s)" outs]
    by (simp add: tail_ok_def chan_def view_ok_subscribed QUEUE_CAPACITY_def)
  have owners: "distinct (List.map_filter ta_owner (tails @ [t]))"
  proof -
    have "distinct (List.map_filter ta_owner tails)" using old by (simp add: tails_ok_def su_def)
    moreover have "the owner \<notin> set (List.map_filter ta_owner tails)" if "owner \<noteq> None"
      using that by (auto simp: tails_def map_filter_def)
    ultimately show ?thesis by (auto simp: map_filter_def t_def)
  qed
  have each: "ta_channel u < se_next_channel s
      \<and> tail_ok published ps (se_log s) (se_channels s (ta_channel u)) (readers (ta_channel u)) (ta_after u)"
    if "u \<in> set tails" for u
    using old that by (simp add: tails_ok_def su_def)
  then have "se_next_channel s \<notin> ta_channel ` set tails" by force
  moreover have "tail_ok published ps (se_log s) (((se_channels s)(se_next_channel s := chan)) (ta_channel u))
      (?readers (ta_channel u)) (ta_after u) \<and> ta_channel u < se_next_channel s + 1" if "u \<in> set (tails @ [t])" for u
    using that each [of u] view by (cases "u \<in> set tails") (auto simp: t_def)
  moreover have "leads_to published ps (se_log s)" "distinct (map ta_channel tails)"
    using old by (simp_all add: tails_ok_def su_def)
  ultimately show ?thesis
    using owners by (auto simp: tails_ok_def s' t_def)
qed

lemma tails_logged:
  assumes "tails_ok readers published ps s" "se_log s' = se_log s @ [e]" "ev_seq e = Suc (length (se_log s))"
    "subscribers_of s' = subscribers_of s" "se_channels s' = se_channels s" "se_next_channel s' = se_next_channel s"
  shows "tails_ok readers published (ps @ [PendingEvent e commit]) s'"
  using assms leads_to_append_event [of published ps "se_log s" e] view_ok_log_event [of published ps "se_log s"]
  by (auto simp: tails_ok_def tail_ok_def)

lemma tails_cut:
  assumes "tails_ok readers published ps s" "se_log s' = take through (se_log s)"
    "subscribers_of s' = subscribers_of s" "se_channels s' = se_channels s" "se_next_channel s' = se_next_channel s"
  shows "tails_ok readers published (ps @ [PendingRewound through]) s'"
  using assms leads_to_append_rewound [of published ps "se_log s"] view_ok_log_cut [of published ps "se_log s"]
  by (auto simp: tails_ok_def tail_ok_def)

lemma foldl_gap:
  "distinct (map ta_channel ts) \<Longrightarrow> t \<in> set ts \<Longrightarrow>
    foldl (\<lambda>chans t. chans(ta_channel t := snd (try_send (GapMessage k) (chans (ta_channel t))))) chans ts (ta_channel t)
    = snd (try_send (GapMessage k) (chans (ta_channel t)))"
proof (induction ts arbitrary: chans)
  case (Cons u ts)
  have other: "foldl (\<lambda>chans t. chans(ta_channel t := snd (try_send (GapMessage k) (chans (ta_channel t))))) chans ts ch
      = chans ch" if "ch \<notin> ta_channel ` set ts" for ch chans
    using that by (induction ts arbitrary: chans) auto
  show ?case
  proof (cases "ta_channel t = ta_channel u")
    case True
    then have "ta_channel t \<notin> ta_channel ` set ts" using Cons.prems(1) by simp
    then have "foldl (\<lambda>chans t. chans(ta_channel t := snd (try_send (GapMessage k) (chans (ta_channel t)))))
        (chans(ta_channel u := snd (try_send (GapMessage k) (chans (ta_channel u))))) ts (ta_channel t)
      = (chans(ta_channel u := snd (try_send (GapMessage k) (chans (ta_channel u))))) (ta_channel t)"
      by (rule other)
    then show ?thesis using True by (simp del: fun_upd_apply add: fun_upd_same)
  next
    case False
    then show ?thesis using Cons by auto
  qed
qed simp

subsection \<open>The system\<close>

definition system_ok :: "'v system \<Rightarrow> bool" where
  "system_ok sys \<longleftrightarrow>
     (\<exists>published. tails_ok (sy_readers sys) published (se_pending (sy_session sys)) (sy_session sys))
     \<and> (\<forall>e c. PendingEvent e (Some c) \<in> set (se_pending (sy_session sys)) \<longrightarrow>
          c \<le> du_written (se_durability (sy_session sys)))"

lemma system_updates:
  "sys\<lparr>sy_session := s\<rparr> = \<lparr>sy_session = s, sy_readers = sy_readers sys\<rparr>"
  "sys\<lparr>sy_session := s, sy_readers := readers\<rparr> = \<lparr>sy_session = s, sy_readers = readers\<rparr>"
  by (cases sys; simp)+

lemma system_ok_ready:
  assumes "tails_ok readers published ps s"
    and "\<And>e c. PendingEvent e (Some c) \<in> set ps \<Longrightarrow> c \<le> du_written (se_durability s)"
  shows "system_ok \<lparr>sy_session = publish_ready ps s, sy_readers = readers\<rparr>"
  using tails_publish_ready [OF assms(1)] publish_ready_keeps [of ps s] assms(2)
  by (auto simp: system_ok_def subset_iff)

lemma system_ok_appended:
  assumes "system_ok sys"
  shows "system_ok (sys\<lparr>sy_session := append_event persisted commit r p (sy_session sys)\<rparr>)"
proof -
  define s where "s = sy_session sys"
  from assms obtain published where ok: "tails_ok (sy_readers sys) published (se_pending s) s"
    and commits: "\<And>e c. PendingEvent e (Some c) \<in> set (se_pending s) \<Longrightarrow> c \<le> du_written (se_durability s)"
    by (auto simp: system_ok_def s_def)
  define e where "e = \<lparr>ev_seq = length (se_log s) + 1, ev_run = r, ev_payload = p\<rparr>"
  obtain number d where number: "(if persisted then write_record commit (se_durability s) else (None, se_durability s)) = (number, d)"
    by fastforce
  have written: "du_written (se_durability s) \<le> du_written d \<and> (\<forall>c. number = Some c \<longrightarrow> c \<le> du_written d)"
    using number by (auto simp: write_record_def written_def Let_def split: if_splits)
  let ?s = "s\<lparr>se_log := se_log s @ [e], se_durability := d\<rparr>"
  have "tails_ok (sy_readers sys) published (se_pending s @ [PendingEvent e number]) ?s"
    by (rule tails_logged [OF ok, of _ e]) (simp_all add: e_def)
  from system_ok_ready [OF this] commits written
  have "system_ok \<lparr>sy_session = publish_ready (se_pending s @ [PendingEvent e number]) ?s, sy_readers = sy_readers sys\<rparr>"
    by fastforce
  moreover have "append_event persisted commit r p s = publish_ready (se_pending s @ [PendingEvent e number]) ?s"
    using number by (simp add: append_event_def queue_publication_def e_def Let_def)
  ultimately show ?thesis by (simp add: s_def system_updates)
qed

lemma system_ok_reverted:
  assumes "system_ok sys"
  shows "system_ok (sys\<lparr>sy_session := truncate_log through (sy_session sys)\<rparr>)"
proof (cases "through = 0")
  case False
  define s where "s = sy_session sys"
  from assms obtain published where ok: "tails_ok (sy_readers sys) published (se_pending s) s"
    and commits: "\<And>e c. PendingEvent e (Some c) \<in> set (se_pending s) \<Longrightarrow> c \<le> du_written (se_durability s)"
    by (auto simp: system_ok_def s_def)
  let ?s = "s\<lparr>se_log := take through (se_log s)\<rparr>"
  have "tails_ok (sy_readers sys) published (se_pending s @ [PendingRewound through]) ?s"
    by (rule tails_cut [OF ok]) simp_all
  from system_ok_ready [OF this] commits
  have "system_ok \<lparr>sy_session = publish_ready (se_pending s @ [PendingRewound through]) ?s, sy_readers = sy_readers sys\<rparr>"
    by fastforce
  then show ?thesis
    using False by (simp add: truncate_log_def queue_publication_def s_def system_updates)
qed (use assms in \<open>simp add: truncate_log_def\<close>)

lemma system_ok_changed:
  assumes "system_ok sys" "\<And>published. tails_ok (sy_readers sys) published (se_pending (sy_session sys)) (sy_session sys) \<Longrightarrow>
      tails_ok readers published (se_pending (sy_session sys)) s"
    "se_pending s = se_pending (sy_session sys)" "du_written (se_durability s) = du_written (se_durability (sy_session sys))"
  shows "system_ok \<lparr>sy_session = s, sy_readers = readers\<rparr>"
  using assms unfolding system_ok_def by auto

lemma tails_received:
  assumes ok: "tails_ok readers published ps s" and queue: "ch_queue (se_channels s ch) = m # queue"
  shows "tails_ok (readers(ch := view_take (readers ch) m)) published ps
    (s\<lparr>se_channels := (se_channels s)(ch := (se_channels s ch)\<lparr>ch_queue := queue\<rparr>)\<rparr>)"
  using assms by (auto simp: tails_ok_def tail_ok_def)

lemma tails_closed:
  "tails_ok readers published ps s \<Longrightarrow>
    tails_ok readers published ps (s\<lparr>se_channels := (se_channels s)(ch := (se_channels s ch)\<lparr>ch_closed := True\<rparr>)\<rparr>)"
  by (auto simp: tails_ok_def tail_ok_def)

lemma session_fields [simp]:
  "se_pending (snd (publish_transient sz r p s)) = se_pending s"
  "se_durability (snd (publish_transient sz r p s)) = se_durability s"
  "se_pending (register_tail k owner from_start s) = se_pending s"
  "se_durability (register_tail k owner from_start s) = se_durability s"
  by (simp_all add: publish_transient_def register_tail_def Let_def split: prod.splits)

lemma system_ok_step: "system_ok sys \<Longrightarrow> system_ok (system_step sz sys op)"
proof (cases op)
  case (Appended persisted commit r p)
  then show "system_ok sys \<Longrightarrow> ?thesis" by (simp add: system_ok_appended)
next
  case (Synced d)
  assume ok: "system_ok sys"
  show ?thesis
  proof (cases "du_written d = du_written (se_durability (sy_session sys))")
    case True
    have "system_ok \<lparr>sy_session = (sy_session sys)\<lparr>se_durability := d\<rparr>, sy_readers = sy_readers sys\<rparr>"
      by (rule system_ok_changed [OF ok]) (simp_all add: True tails_ok_def)
    then show ?thesis by (simp add: Synced True system_updates)
  qed (use ok in \<open>simp add: Synced\<close>)
next
  case PublishSettled
  assume ok: "system_ok sys"
  then obtain published where "tails_ok (sy_readers sys) published (se_pending (sy_session sys)) (sy_session sys)"
    by (auto simp: system_ok_def)
  from system_ok_ready [OF this] ok show ?thesis
    by (simp add: PublishSettled publish_settled_def system_ok_def system_updates)
next
  case (Reverted through)
  then show "system_ok sys \<Longrightarrow> ?thesis" by (simp add: system_ok_reverted)
next
  case (Subscribed owner from_start)
  assume ok: "system_ok sys"
  show ?thesis
    unfolding Subscribed system_step.simps Let_def
    by (rule system_ok_changed [OF ok]) (simp_all add: tails_registered)
next
  case (Unsubscribed owner)
  assume ok: "system_ok sys"
  have "tails_ok readers published ps (snd (unsubscribe_events owner s))"
    if "tails_ok readers published ps s" for readers :: "channel_id \<Rightarrow> 'a reader" and published ps s
    by (cases "se_subscribers s"; rule tails_filtered [OF that, where P = "\<lambda>t. ta_owner t \<noteq> Some owner"])
      (simp_all add: unsubscribe_events_def Let_def subscribers_of_def no_subscribers_def)
  then have "system_ok \<lparr>sy_session = snd (unsubscribe_events owner (sy_session sys)), sy_readers = sy_readers sys\<rparr>"
    by (intro system_ok_changed [OF ok]) (simp_all add: unsubscribe_events_def Let_def split: option.splits)
  then show ?thesis by (simp add: Unsubscribed system_updates)
next
  case (Streamed r p)
  assume ok: "system_ok sys"
  have "system_ok \<lparr>sy_session = snd (publish_transient sz r p (sy_session sys)), sy_readers = sy_readers sys\<rparr>"
    by (rule system_ok_changed [OF ok]) (simp_all add: tails_transient)
  then show ?thesis by (simp add: Streamed system_updates)
next
  case (Received ch)
  assume ok: "system_ok sys"
  show ?thesis
  proof (cases "ch_queue (se_channels (sy_session sys) ch)")
    case Nil
    with ok show ?thesis by (simp add: Received receive_def)
  next
    case (Cons m queue)
    have "system_ok \<lparr>sy_session = (sy_session sys)\<lparr>se_channels := (se_channels (sy_session sys))
                (ch := (se_channels (sy_session sys) ch)\<lparr>ch_queue := queue\<rparr>)\<rparr>,
              sy_readers = (sy_readers sys)(ch := view_take (sy_readers sys ch) m)\<rparr>"
      by (rule system_ok_changed [OF ok]) (simp_all add: tails_received [OF _ Cons])
    then show ?thesis by (simp add: Received receive_def Cons system_updates)
  qed
next
  case (Disconnected ch)
  assume ok: "system_ok sys"
  have "system_ok \<lparr>sy_session = (sy_session sys)\<lparr>se_channels := (se_channels (sy_session sys))
       (ch := (se_channels (sy_session sys) ch)\<lparr>ch_closed := True\<rparr>)\<rparr>, sy_readers = sy_readers sys\<rparr>"
    by (rule system_ok_changed [OF ok]) (simp_all add: tails_closed)
  then show ?thesis by (simp add: Disconnected system_updates)
next
  case Evicted
  assume ok: "system_ok sys"
  have "system_ok \<lparr>sy_session = notify_evicted_subscribers (length (se_log (sy_session sys))) (sy_session sys),
      sy_readers = sy_readers sys\<rparr>"
    by (rule system_ok_changed [OF ok])
      (simp_all add: notify_evicted_subscribers_def tails_ok_def subscribers_of_def no_subscribers_def map_filter_def)
  then show ?thesis by (simp add: Evicted system_updates)
qed

lemma system_ok_start: "system_ok system_start"
  by (simp add: system_ok_def system_start_def tails_ok_def subscribers_of_def no_subscribers_def map_filter_def)

interpretation systems: event_fold system_start "system_step sz" system_ok for sz
  by unfold_locales (auto simp: system_ok_start system_ok_step)

subsection \<open>Properties\<close>





text \<open>
  C22. No tail is left behind in silence. A session has one tail of an owner at most; the channel of an
  open tail keeps room for a last message; an event past what its reader was given is sent, or else the
  reader gets a gap and the tail is dropped; and when the session is evicted every open tail gets a gap.
\<close>

theorem open_tail_told:
  assumes "s = sy_session (systems.run sz ops)" and "t \<in> set (tails_of s)" and "\<not> ch_closed (se_channels s (ta_channel t))"
  shows "(\<forall>u \<in> set (tails_of s). ta_owner u = ta_owner t \<longrightarrow> ta_owner t = None \<or> u = t)
    \<and> length (ch_queue (se_channels s (ta_channel t))) < QUEUE_CAPACITY
    \<and> (ta_after t < ev_seq e \<longrightarrow>
        (let s' = publish_stored_event e s; sent = ch_queue (se_channels s' (ta_channel t)) in
           sent = ch_queue (se_channels s (ta_channel t)) @ [EventMessage e] \<and> t \<in> set (tails_of s')
           \<or> sent = ch_queue (se_channels s (ta_channel t)) @ [GapMessage (ev_seq e - 1)] \<and> t \<notin> set (tails_of s')))
    \<and> ch_queue (se_channels (notify_evicted_subscribers k s) (ta_channel t))
      = ch_queue (se_channels s (ta_channel t)) @ [GapMessage k]"
proof -
  have "system_ok (systems.run sz ops)" by (rule systems.inv_run)
  then obtain published where ok: "tails_ok (sy_readers (systems.run sz ops)) published (se_pending s) s"
    by (auto simp: system_ok_def assms(1))
  then have channels: "distinct (map ta_channel (tails_of s))" and owners: "distinct (List.map_filter ta_owner (tails_of s))"
    and room: "length (ch_queue (se_channels s (ta_channel t))) < QUEUE_CAPACITY"
    using assms(2,3) by (auto simp: tails_ok_def tail_ok_def)
  have owner: "ta_owner t = None \<or> u = t" if "u \<in> set (tails_of s)" "ta_owner u = ta_owner t" for u
  proof (cases "ta_owner t")
    case (Some owner)
    have "inj_on (the \<circ> ta_owner) {x \<in> set (tails_of s). \<exists>y. ta_owner x = Some y}"
      using owners by (simp add: map_filter_def distinct_map)
    from inj_onD [OF this, of u t] show ?thesis using that assms(2) Some by simp
  qed simp
  obtain kept chans where kept: "retain_tails (send_event e) (tails_of s) (se_channels s) = (kept, chans)" by fastforce
  note spec = retain_tails_spec [OF channels kept]
  let ?f = "\<lambda>t. send_event e t (se_channels s (ta_channel t))"
  have chan: "chans (ta_channel t) = snd (snd (?f t))" using spec assms(2) by blast
  have stays: "t \<in> set kept \<longleftrightarrow> fst (?f t)"
  proof -
    have "fst (snd (?f u)) = u" for u by (simp add: send_event_def Let_def split: prod.splits)
    then show ?thesis using spec assms(2) by auto
  qed
  have s': "se_channels (publish_stored_event e s) = chans" "tails_of (publish_stored_event e s) = kept"
    by (simp_all add: publish_stored_event_def kept Let_def)
  have event: "ta_after t < ev_seq e \<Longrightarrow>
      ch_queue (chans (ta_channel t)) = ch_queue (se_channels s (ta_channel t)) @ [EventMessage e] \<and> t \<in> set kept
      \<or> ch_queue (chans (ta_channel t)) = ch_queue (se_channels s (ta_channel t)) @ [GapMessage (ev_seq e - 1)] \<and> t \<notin> set kept"
    using assms(3) room unfolding chan stays
    by (auto simp: send_event_def try_send_def capacity_def Let_def)
  have "ch_queue (se_channels (notify_evicted_subscribers k s) (ta_channel t))
      = ch_queue (se_channels s (ta_channel t)) @ [GapMessage k]"
    using assms(3) room foldl_gap [OF channels assms(2), of k "se_channels s"]
    by (simp add: notify_evicted_subscribers_def try_send_def capacity_def)
  with owner room event show ?thesis by (simp add: s' Let_def)
qed

text \<open>
  The position of live-only output is said to be the last event that the tails were sent, but a tail
  that registers while a commit point is still syncing moves it to the log's tip for all of them: the
  output that a first reader then gets names an event that it has not been sent, so it drops it.
\<close>

lemma output_ahead_of_tail:
  "ch_queue (se_channels (sy_session (systems.run sz
      [Subscribed (Some 1) True, Appended True True None RunFinished, Subscribed (Some 2) True,
       Streamed None (TextDelta 5 [97])])) 0)
    = [TransientMessage 1 None (TextDelta 5 [97])]"
  unfolding systems.run_def
  by (simp add: system_start_def register_tail_def append_event_def write_record_def written_def
      durability_new_def queue_publication_def is_settled_def publish_transient_def subscribers_of_def no_subscribers_def
      send_transient_def try_send_def capacity_def QUEUE_CAPACITY_def in_flight_empty_def replay_def acp_live_state_def
      append_chunk_def find_or_push_def Let_def)

text \<open>A session with a reader and an event whose sync has ended.\<close>

definition sample_run :: "nat system_op list" where
  "sample_run =
     [Subscribed (Some 1) True, Appended True True None RunFinished,
      Synced (durability_new\<lparr>du_written := 1, du_synced := 1, du_settled := 1\<rparr>)]"

lemma sample_run_state:
  "sy_session (systems.run sz sample_run) =
     \<lparr>se_log = [\<lparr>ev_seq = 1, ev_run = None, ev_payload = RunFinished\<rparr>],
      se_durability = durability_new\<lparr>du_written := 1, du_synced := 1, du_settled := 1\<rparr>,
      se_pending = [PendingEvent \<lparr>ev_seq = 1, ev_run = None, ev_payload = RunFinished\<rparr> (Some 1)],
      se_subscribers = Some \<lparr>su_last_seq = 0, su_tails = [\<lparr>ta_owner = Some 1, ta_channel = 0, ta_after = 0\<rparr>],
        su_in_flight = in_flight_empty\<rparr>,
      se_channels = (\<lambda>_. \<lparr>ch_queue = [], ch_closed = True\<rparr>)(0 := \<lparr>ch_queue = [], ch_closed = False\<rparr>),
      se_next_channel = 1\<rparr>"
  unfolding systems.run_def
  by (simp add: sample_run_def system_start_def register_tail_def append_event_def write_record_def
      written_def durability_new_def queue_publication_def is_settled_def subscribers_of_def no_subscribers_def
      in_flight_empty_def replay_def acp_live_state_def Let_def)


theorem open_tail_told_witness:
  "ch_queue (se_channels (notify_evicted_subscribers 1 (sy_session (systems.run sample_sizes sample_run))) 0) = [GapMessage 1]"
  using open_tail_told [OF refl, of "\<lparr>ta_owner = Some 1, ta_channel = 0, ta_after = 0\<rparr>" sample_sizes sample_run _ 1]
  by (simp add: sample_run_state subscribers_of_def)

end
