(* ===== verification/Usage.thy ===== *)
theory Usage
  imports Prelude
begin

text \<open>
  What the runs of a session used (\<open>crates/engine_store/src/usage.rs\<close>): the counters of a rollup,
  its models, the merge over a tree of sessions, what it cost, and the fold of a session's log into it
  (\<open>crates/engine_store/src/session/fold.rs\<close>), in full and an event at a time. A \<open>BTreeMap\<close> is a list
  sorted by its keys; a \<open>u64\<close> is a number whose bound the checked sums write out. The arithmetic of
  \<open>f64\<close> is a parameter.
\<close>

subsection \<open>Counters\<close>

record token_usage =
  u_input :: "nat option"
  u_input_no_cache :: "nat option"
  u_cache_read :: "nat option"
  u_cache_write :: "nat option"
  u_output :: "nat option"
  u_output_text :: "nat option"
  u_reasoning :: "nat option"

text \<open>The counters that a rollup and a model's rollup both have.\<close>

record counters =
  c_input :: nat
  c_output :: nat
  c_reasoning :: nat
  c_cache_read :: nat
  c_cache_write :: nat
  c_requests :: nat
  c_overflow :: bool

datatype counter = Input | Output | Reasoning | CacheRead | CacheWrite | Requests

fun total_of :: "counter \<Rightarrow> 'a counters_scheme \<Rightarrow> nat" where
  "total_of Input c = c_input c"
| "total_of Output c = c_output c"
| "total_of Reasoning c = c_reasoning c"
| "total_of CacheRead c = c_cache_read c"
| "total_of CacheWrite c = c_cache_write c"
| "total_of Requests c = c_requests c"

fun set_total :: "counter \<Rightarrow> nat \<Rightarrow> 'a counters_scheme \<Rightarrow> 'a counters_scheme" where
  "set_total Input n c = c\<lparr>c_input := n\<rparr>"
| "set_total Output n c = c\<lparr>c_output := n\<rparr>"
| "set_total Reasoning n c = c\<lparr>c_reasoning := n\<rparr>"
| "set_total CacheRead n c = c\<lparr>c_cache_read := n\<rparr>"
| "set_total CacheWrite n c = c\<lparr>c_cache_write := n\<rparr>"
| "set_total Requests n c = c\<lparr>c_requests := n\<rparr>"

definition checked_increment :: "counter \<Rightarrow> nat \<Rightarrow> 'a counters_scheme \<Rightarrow> 'a counters_scheme" where
  "checked_increment k value c =
     (if total_of k c + value \<le> U64_MAX then set_total k (total_of k c + value) c else c\<lparr>c_overflow := True\<rparr>)"

definition add_observed :: "counter \<Rightarrow> nat option \<Rightarrow> 'a counters_scheme \<Rightarrow> 'a counters_scheme" where
  "add_observed k value c = (case value of Some v \<Rightarrow> checked_increment k v c | None \<Rightarrow> c)"

text \<open>The six steps that \<open>record_model\<close> and \<open>record_with_provenance\<close> both end with.\<close>

definition count_usage :: "token_usage \<Rightarrow> 'a counters_scheme \<Rightarrow> 'a counters_scheme" where
  "count_usage u c =
     checked_increment Requests 1 (add_observed CacheWrite (u_cache_write u) (add_observed CacheRead (u_cache_read u)
       (add_observed Reasoning (u_reasoning u) (add_observed Output (u_output u) (add_observed Input (u_input u) c)))))"

text \<open>The seven that \<open>merge\<close> makes of a source, for the rollup and for each model.\<close>

definition merge_counters :: "'b counters_scheme \<Rightarrow> 'a counters_scheme \<Rightarrow> 'a counters_scheme" where
  "merge_counters source c =
     (let c = c\<lparr>c_overflow := c_overflow c \<or> c_overflow source\<rparr>
      in checked_increment Requests (c_requests source) (checked_increment CacheWrite (c_cache_write source)
        (checked_increment CacheRead (c_cache_read source) (checked_increment Reasoning (c_reasoning source)
          (checked_increment Output (c_output source) (checked_increment Input (c_input source) c))))))"

subsection \<open>Rollups\<close>

text \<open>What a request cost, as stamped when it was recorded.\<close>

datatype cost_provenance = Stamped "nat option"

record 'f model_usage = counters +
  mu_hit_rate :: "'f option"
  mu_cost :: "'f option"
  mu_observations :: "token_usage list"
  mu_provenance :: "cost_provenance list"

record ('k, 'f) usage_rollup = counters +
  ro_hit_rate :: "'f option"
  ro_cost :: "'f option"
  ro_models :: "('k \<times> 'f model_usage) list"

definition no_model_usage :: "'f model_usage" where
  "no_model_usage =
     \<lparr>c_input = 0, c_output = 0, c_reasoning = 0, c_cache_read = 0, c_cache_write = 0, c_requests = 0,
      c_overflow = False, mu_hit_rate = None, mu_cost = None, mu_observations = [], mu_provenance = []\<rparr>"

definition no_usage :: "('k, 'f) usage_rollup" where
  "no_usage =
     \<lparr>c_input = 0, c_output = 0, c_reasoning = 0, c_cache_read = 0, c_cache_write = 0, c_requests = 0,
      c_overflow = False, ro_hit_rate = None, ro_cost = None, ro_models = []\<rparr>"

text \<open>\<open>entry(..).or_default()\<close>, and what is done with the entry.\<close>

fun entry_update :: "'k::linorder \<Rightarrow> 'v \<Rightarrow> ('v \<Rightarrow> 'v) \<Rightarrow> ('k \<times> 'v) list \<Rightarrow> ('k \<times> 'v) list" where
  "entry_update k v0 f [] = [(k, f v0)]"
| "entry_update k v0 f ((k', v) # es) =
     (if k = k' then (k', f v) # es
      else if k < k' then (k, f v0) # (k', v) # es
      else (k', v) # entry_update k v0 f es)"

definition record_model :: "token_usage \<Rightarrow> cost_provenance \<Rightarrow> 'f model_usage \<Rightarrow> 'f model_usage" where
  "record_model u cost m =
     count_usage u (m\<lparr>mu_observations := mu_observations m @ [u], mu_provenance := mu_provenance m @ [cost]\<rparr>)"

definition record_with_provenance :: "'k::linorder \<Rightarrow> token_usage \<Rightarrow> cost_provenance \<Rightarrow> ('k, 'f) usage_rollup \<Rightarrow>
    ('k, 'f) usage_rollup" where
  "record_with_provenance model u cost r =
     count_usage u (r\<lparr>ro_models := entry_update model no_model_usage (record_model u cost) (ro_models r)\<rparr>)"

definition record_stamped :: "'k::linorder \<Rightarrow> token_usage \<Rightarrow> nat option \<Rightarrow> ('k, 'f) usage_rollup \<Rightarrow> ('k, 'f) usage_rollup" where
  "record_stamped model u cost r = record_with_provenance model u (Stamped cost) r"

definition merge_model :: "'f model_usage \<Rightarrow> 'f model_usage \<Rightarrow> 'f model_usage" where
  "merge_model source m =
     merge_counters source (m\<lparr>mu_observations := mu_observations m @ mu_observations source,
       mu_provenance := mu_provenance m @ mu_provenance source\<rparr>)"

definition merge :: "('k::linorder, 'f) usage_rollup \<Rightarrow> ('k, 'f) usage_rollup \<Rightarrow> ('k, 'f) usage_rollup" where
  "merge target source =
     (let r = merge_counters source target
      in r\<lparr>ro_models := foldl (\<lambda>ms (k, m). entry_update k no_model_usage (merge_model m) ms) (ro_models r) (ro_models source)\<rparr>)"

definition has_observed_tokens :: "token_usage \<Rightarrow> bool" where
  "has_observed_tokens u \<longleftrightarrow>
     u_input u \<noteq> None \<or> u_input_no_cache u \<noteq> None \<or> u_cache_read u \<noteq> None \<or> u_cache_write u \<noteq> None
     \<or> u_output u \<noteq> None \<or> u_output_text u \<noteq> None \<or> u_reasoning u \<noteq> None"

subsection \<open>What it cost\<close>

definition PICO_USD_PER_USD :: nat where "PICO_USD_PER_USD = 1000000000000"
definition TOKENS_PER_MILLION :: nat where "TOKENS_PER_MILLION = 1000000"

text \<open>The \<open>f64\<close> of an integer, sums and quotients.\<close>

record 'f floats =
  fl_of :: "nat \<Rightarrow> 'f"
  fl_add :: "'f \<Rightarrow> 'f \<Rightarrow> 'f"
  fl_div :: "'f \<Rightarrow> 'f \<Rightarrow> 'f"

definition checked_within :: "nat \<Rightarrow> nat \<Rightarrow> nat option" where
  "checked_within limit n = (if n \<le> limit then Some n else None)"

text \<open>The loop of \<open>hit_rate\<close>; the function returns \<open>None\<close> out of it.\<close>

fun hit_tokens :: "token_usage list \<Rightarrow> nat \<Rightarrow> nat \<Rightarrow> bool \<Rightarrow> (nat \<times> nat \<times> bool) option" where
  "hit_tokens [] input cache_read observed = Some (input, cache_read, observed)"
| "hit_tokens (u # us) input cache_read observed =
     (case u_cache_read u of
        None \<Rightarrow> hit_tokens us input cache_read observed
      | Some turn \<Rightarrow>
          (case Option.bind (u_input u) (\<lambda>i. checked_within U64_MAX (input + i)) of
             None \<Rightarrow> None
           | Some input \<Rightarrow>
               (case checked_within U64_MAX (cache_read + turn) of
                  None \<Rightarrow> None
                | Some cache_read \<Rightarrow> hit_tokens us input cache_read True)))"

definition hit_rate :: "'f floats \<Rightarrow> token_usage list \<Rightarrow> 'f option" where
  "hit_rate fl us =
     (case hit_tokens us 0 0 False of
        None \<Rightarrow> None
      | Some (input, cache_read, observed) \<Rightarrow>
          if \<not> observed then None
          else if input = 0 then Some (fl_of fl 0)
          else Some (fl_div fl (fl_of fl (min cache_read input)) (fl_of fl input)))"

fun cost_from :: "cost_provenance list \<Rightarrow> nat \<Rightarrow> nat option" where
  "cost_from [] so_far = Some so_far"
| "cost_from (Stamped None # ps) so_far = None"
| "cost_from (Stamped (Some pico) # ps) so_far =
     Option.bind (checked_within U128_MAX (pico * TOKENS_PER_MILLION))
       (\<lambda>cost. Option.bind (checked_within U128_MAX (so_far + cost)) (cost_from ps))"

definition observations_cost :: "cost_provenance list \<Rightarrow> nat option" where
  "observations_cost ps = cost_from ps 0"

definition cost_numerator_to_usd :: "'f floats \<Rightarrow> nat \<Rightarrow> 'f" where
  "cost_numerator_to_usd fl value =
     fl_div fl (fl_add fl (fl_of fl (value div TOKENS_PER_MILLION))
         (fl_div fl (fl_of fl (value mod TOKENS_PER_MILLION)) (fl_of fl TOKENS_PER_MILLION)))
       (fl_of fl PICO_USD_PER_USD)"

definition model_cost :: "'f model_usage \<Rightarrow> nat option" where
  "model_cost m =
     (if c_overflow m \<or> length (mu_observations m) \<noteq> c_requests m
         \<or> length (mu_provenance m) \<noteq> length (mu_observations m) then None
      else observations_cost (mu_provenance m))"

definition price_model :: "'f floats \<Rightarrow> 'f model_usage \<Rightarrow> 'f model_usage" where
  "price_model fl m =
     m\<lparr>mu_hit_rate := (if c_overflow m then None else hit_rate fl (mu_observations m)),
       mu_cost := map_option (cost_numerator_to_usd fl) (model_cost m)\<rparr>"

text \<open>The running so_far over the models, and whether all were priced.\<close>

fun add_costs :: "'f model_usage list \<Rightarrow> nat \<Rightarrow> bool \<Rightarrow> nat \<times> bool" where
  "add_costs [] so_far priced = (so_far, priced)"
| "add_costs (m # ms) so_far priced =
     (case model_cost m of
        None \<Rightarrow> add_costs ms so_far False
      | Some cost \<Rightarrow>
          (case checked_within U128_MAX (so_far + cost) of
             Some next_total \<Rightarrow> add_costs ms next_total priced
           | None \<Rightarrow> add_costs ms so_far False))"

definition with_pricing :: "'f floats \<Rightarrow> ('k, 'f) usage_rollup \<Rightarrow> ('k, 'f) usage_rollup" where
  "with_pricing fl r =
     (let rate = (if c_overflow r then None else hit_rate fl (concat (map (mu_observations \<circ> snd) (ro_models r))));
          (so_far, priced) = add_costs (map snd (ro_models r)) 0 (c_requests r > 0 \<and> \<not> c_overflow r)
      in r\<lparr>ro_hit_rate := rate, ro_cost := (if priced then Some (cost_numerator_to_usd fl so_far) else None),
           ro_models := map (\<lambda>(k, m). (k, price_model fl m)) (ro_models r)\<rparr>)"

subsection \<open>The fold of a session's log\<close>

text \<open>The events of a run that the rollup reads, of a turn also whether it was aborted and whether it is an ACP agent's.\<close>

datatype 'k usage_event =
    TurnCommitted nat 'k token_usage bool bool
  | UsageRecorded nat 'k token_usage "nat option"
  | InternalUsage 'k token_usage "nat option"
  | OtherEvent

text \<open>A turn counted at its commit: its model, and the index of its observation there.\<close>

type_synonym 'k provisional = "nat \<rightharpoonup> 'k \<times> nat"

record ('k, 'f) usage_fold =
  uf_rollup :: "('k, 'f) usage_rollup"
  uf_provisional :: "'k provisional"

definition uncounted :: "token_usage \<Rightarrow> bool \<Rightarrow> bool \<Rightarrow> bool" where
  "uncounted u aborted acp \<longleftrightarrow> aborted \<and> \<not> has_observed_tokens u \<or> acp \<and> \<not> has_observed_tokens u"

definition observations_of :: "'k \<Rightarrow> ('k, 'f) usage_rollup \<Rightarrow> token_usage list" where
  "observations_of k r = (case map_of (ro_models r) k of Some m \<Rightarrow> mu_observations m | None \<Rightarrow> [])"

text \<open>A turn, which counts for now unless its usage is known to be recorded later.\<close>

definition observe_turn :: "bool \<Rightarrow> nat \<Rightarrow> 'k::linorder \<Rightarrow> token_usage \<Rightarrow> bool \<Rightarrow> bool \<Rightarrow> ('k, 'f) usage_fold \<Rightarrow>
    ('k, 'f) usage_fold" where
  "observe_turn recorded_later turn k u aborted acp s =
     (if recorded_later \<or> uncounted u aborted acp then s
      else (let r = record_stamped k u None (uf_rollup s)
            in \<lparr>uf_rollup = r, uf_provisional = (uf_provisional s)(turn \<mapsto> (k, length (observations_of k r) - 1))\<rparr>))"

text \<open>What \<open>unrecord_provisional\<close> takes from the counters of the model and of the rollup.\<close>

definition take_usage :: "token_usage \<Rightarrow> 'a counters_scheme \<Rightarrow> 'a counters_scheme" where
  "take_usage u c =
     c\<lparr>c_input := c_input c - (case u_input u of Some n \<Rightarrow> n | None \<Rightarrow> 0),
       c_output := c_output c - (case u_output u of Some n \<Rightarrow> n | None \<Rightarrow> 0),
       c_reasoning := c_reasoning c - (case u_reasoning u of Some n \<Rightarrow> n | None \<Rightarrow> 0),
       c_cache_read := c_cache_read c - (case u_cache_read u of Some n \<Rightarrow> n | None \<Rightarrow> 0),
       c_cache_write := c_cache_write c - (case u_cache_write u of Some n \<Rightarrow> n | None \<Rightarrow> 0),
       c_requests := c_requests c - 1\<rparr>"

definition unrecord_model :: "'f model_usage \<Rightarrow> 'f model_usage" where
  "unrecord_model m =
     take_usage (last (mu_observations m))
       (m\<lparr>mu_observations := butlast (mu_observations m), mu_provenance := butlast (mu_provenance m)\<rparr>)"

definition unrecord_provisional :: "'k \<times> nat \<Rightarrow> ('k::linorder, 'f) usage_rollup \<Rightarrow> ('k, 'f) usage_rollup option" where
  "unrecord_provisional p r =
     (case p of (k, observation) \<Rightarrow>
        if c_overflow r then None
        else (case map_of (ro_models r) k of
                None \<Rightarrow> None
              | Some m \<Rightarrow>
                  if c_overflow m \<or> length (mu_observations m) \<noteq> observation + 1 then None
                  else (let m' = unrecord_model m;
                            models = (if mu_observations m' = [] then filter (\<lambda>(k', _). k' \<noteq> k) (ro_models r)
                                      else map (\<lambda>(k', v). (k', if k' = k then m' else v)) (ro_models r))
                        in Some (take_usage (last (mu_observations m)) (r\<lparr>ro_models := models\<rparr>)))))"

text \<open>A step: \<open>None\<close> when the log is to be folded again.\<close>

fun observe :: "(nat \<Rightarrow> bool) \<Rightarrow> 'k::linorder usage_event \<Rightarrow> ('k, 'f) usage_fold \<Rightarrow> ('k, 'f) usage_fold option" where
  "observe recorded_later (TurnCommitted turn k u aborted acp) s =
     Some (observe_turn (recorded_later turn) turn k u aborted acp s)"
| "observe recorded_later (UsageRecorded turn k u cost) s =
     (case uf_provisional s turn of
        None \<Rightarrow> Some (s\<lparr>uf_rollup := record_stamped k u cost (uf_rollup s)\<rparr>)
      | Some p \<Rightarrow>
          (case unrecord_provisional p (uf_rollup s) of
             None \<Rightarrow> None
           | Some r \<Rightarrow>
               Some \<lparr>uf_rollup = record_stamped k u cost r, uf_provisional = (uf_provisional s)(turn := None)\<rparr>))"
| "observe recorded_later (InternalUsage k u cost) s =
     Some (s\<lparr>uf_rollup := record_stamped k u cost (uf_rollup s)\<rparr>)"
| "observe recorded_later OtherEvent s = Some s"

fun recorded_turn :: "'k usage_event \<Rightarrow> nat option" where
  "recorded_turn (UsageRecorded turn _ _ _) = Some turn"
| "recorded_turn _ = None"

text \<open>\<open>refold\<close>, which knows of every usage record up front.\<close>

definition fold_start :: "('k, 'f) usage_fold" where
  "fold_start = \<lparr>uf_rollup = no_usage, uf_provisional = Map.empty\<rparr>"

fun fold_with :: "(nat \<Rightarrow> bool) \<Rightarrow> 'k::linorder usage_event list \<Rightarrow> ('k, 'f) usage_fold \<Rightarrow> ('k, 'f) usage_fold option" where
  "fold_with recorded_later [] s = Some s"
| "fold_with recorded_later (e # es) s = Option.bind (observe recorded_later e s) (fold_with recorded_later es)"

definition refold :: "'k::linorder usage_event list \<Rightarrow> ('k, 'f) usage_fold option" where
  "refold es = fold_with (\<lambda>turn. Some turn \<in> recorded_turn ` set es) es fold_start"

text \<open>
  \<open>observe_appended\<close>: an event just appended to the log \<open>es\<close>, which is folded again where the event
  cannot be applied in place.
\<close>

definition observe_appended :: "'k::linorder usage_event list \<Rightarrow> 'k usage_event \<Rightarrow> ('k, 'f) usage_fold \<Rightarrow>
    ('k, 'f) usage_fold option" where
  "observe_appended es e s =
     (case observe (\<lambda>_. False) e s of Some s' \<Rightarrow> Some s' | None \<Rightarrow> refold (es @ [e]))"

subsection \<open>Exact rollups\<close>

text \<open>What a usage adds to a counter.\<close>

fun amount :: "counter \<Rightarrow> token_usage \<Rightarrow> nat" where
  "amount Input u = (case u_input u of Some n \<Rightarrow> n | None \<Rightarrow> 0)"
| "amount Output u = (case u_output u of Some n \<Rightarrow> n | None \<Rightarrow> 0)"
| "amount Reasoning u = (case u_reasoning u of Some n \<Rightarrow> n | None \<Rightarrow> 0)"
| "amount CacheRead u = (case u_cache_read u of Some n \<Rightarrow> n | None \<Rightarrow> 0)"
| "amount CacheWrite u = (case u_cache_write u of Some n \<Rightarrow> n | None \<Rightarrow> 0)"
| "amount Requests u = 1"

text \<open>
  The counters hold these sums where they fit, and the flag says whether some does not.
\<close>

definition counts :: "'a counters_scheme \<Rightarrow> (counter \<Rightarrow> nat) \<Rightarrow> bool" where
  "counts c S \<longleftrightarrow> (\<forall>k. total_of k c \<le> U64_MAX \<and> (S k \<le> U64_MAX \<longrightarrow> total_of k c = S k))
     \<and> (c_overflow c \<longleftrightarrow> (\<exists>k. U64_MAX < S k))"

lemma all_counter: "(\<forall>k. P k) \<longleftrightarrow> P Input \<and> P Output \<and> P Reasoning \<and> P CacheRead \<and> P CacheWrite \<and> P Requests"
  by (metis counter.exhaust)

lemma ex_counter: "(\<exists>k. P k) \<longleftrightarrow> P Input \<or> P Output \<or> P Reasoning \<or> P CacheRead \<or> P CacheWrite \<or> P Requests"
  by (metis counter.exhaust)

lemma total_set_total [simp]: "total_of k (set_total k' n c) = (if k = k' then n else total_of k c)"
  by (cases k; cases k') auto

lemma overflow_set_total [simp]: "c_overflow (set_total k n c) = c_overflow c"
  by (cases k) auto

lemma total_overflow [simp]: "total_of k (c\<lparr>c_overflow := b\<rparr>) = total_of k c"
  by (cases k) auto

lemma total_increment [simp]:
  "total_of k (checked_increment k' v c)
    = (if k = k' \<and> total_of k c + v \<le> U64_MAX then total_of k c + v else total_of k c)"
  by (auto simp: checked_increment_def)

lemma overflow_increment [simp]:
  "c_overflow (checked_increment k v c) \<longleftrightarrow> c_overflow c \<or> U64_MAX < total_of k c + v"
  by (auto simp: checked_increment_def)

lemma total_observed [simp]:
  "total_of k (add_observed k' v c)
    = (if k = k' \<and> total_of k c + (case v of Some n \<Rightarrow> n | None \<Rightarrow> 0) \<le> U64_MAX
       then total_of k c + (case v of Some n \<Rightarrow> n | None \<Rightarrow> 0) else total_of k c)"
  by (auto simp: add_observed_def split: option.splits)

lemma overflow_observed:
  "total_of k c \<le> U64_MAX \<Longrightarrow> c_overflow (add_observed k v c)
    \<longleftrightarrow> c_overflow c \<or> U64_MAX < total_of k c + (case v of Some n \<Rightarrow> n | None \<Rightarrow> 0)"
  by (auto simp: add_observed_def split: option.splits)

lemma count_usage_totals:
  "total_of k (count_usage u c)
    = (if total_of k c + amount k u \<le> U64_MAX then total_of k c + amount k u else total_of k c)"
  by (cases k) (simp_all add: count_usage_def del: total_of.simps)

lemma count_usage_overflow:
  assumes "\<And>k. total_of k c \<le> U64_MAX"
  shows "c_overflow (count_usage u c) \<longleftrightarrow> c_overflow c \<or> (\<exists>k. U64_MAX < total_of k c + amount k u)"
  using assms by (simp add: count_usage_def overflow_observed ex_counter disj_ac del: total_of.simps)

lemma merge_counters_totals:
  "total_of k (merge_counters source c)
    = (if total_of k c + total_of k source \<le> U64_MAX then total_of k c + total_of k source else total_of k c)"
  by (cases k) (simp_all add: merge_counters_def Let_def del: total_of.simps add: total_of.simps [of source, symmetric])

lemma merge_counters_overflow:
  "c_overflow (merge_counters source c) \<longleftrightarrow>
    c_overflow c \<or> c_overflow source \<or> (\<exists>k. U64_MAX < total_of k c + total_of k source)"
  by (simp add: merge_counters_def Let_def ex_counter disj_ac)

lemma counts_count_usage:
  assumes "counts c S"
  shows "counts (count_usage u c) (\<lambda>k. S k + amount k u)"
proof -
  have bound: "\<And>k. total_of k c \<le> U64_MAX" and exact: "\<And>k. S k \<le> U64_MAX \<Longrightarrow> total_of k c = S k"
    and flag: "c_overflow c \<longleftrightarrow> (\<exists>k. U64_MAX < S k)"
    using assms by (auto simp: counts_def)
  have "(\<exists>k. U64_MAX < S k) \<or> (\<exists>k. U64_MAX < total_of k c + amount k u) \<longleftrightarrow> (\<exists>k. U64_MAX < S k + amount k u)"
    using exact by (metis add.commute not_le trans_less_add2)
  then show ?thesis
    using bound exact by (auto simp: counts_def count_usage_totals count_usage_overflow flag)
qed

lemma counts_merge:
  assumes "counts c S" "counts source T"
  shows "counts (merge_counters source c) (\<lambda>k. S k + T k)"
proof -
  have bound: "\<And>k. total_of k c \<le> U64_MAX" and exact: "\<And>k. S k \<le> U64_MAX \<Longrightarrow> total_of k c = S k"
      "\<And>k. T k \<le> U64_MAX \<Longrightarrow> total_of k source = T k"
    and flag: "c_overflow c \<longleftrightarrow> (\<exists>k. U64_MAX < S k)" "c_overflow source \<longleftrightarrow> (\<exists>k. U64_MAX < T k)"
    using assms by (auto simp: counts_def)
  have "(\<exists>k. U64_MAX < S k) \<or> (\<exists>k. U64_MAX < T k) \<or> (\<exists>k. U64_MAX < total_of k c + total_of k source)
      \<longleftrightarrow> (\<exists>k. U64_MAX < S k + T k)"
    using exact by (metis add.commute not_le trans_less_add2)
  then show ?thesis
    using bound exact by (auto simp: counts_def merge_counters_totals merge_counters_overflow flag)
qed

subsubsection \<open>Sorted maps\<close>

definition sorted_map :: "('k::linorder \<Rightarrow> 'v) \<Rightarrow> 'k set \<Rightarrow> ('k \<times> 'v) list" where
  "sorted_map g K = map (\<lambda>k. (k, g k)) (sorted_list_of_set K)"

lemma sorted_map_cong: "(\<And>k. k \<in> K \<Longrightarrow> g k = h k) \<Longrightarrow> finite K \<Longrightarrow> sorted_map g K = sorted_map h K"
  by (simp add: sorted_map_def)

lemma entry_update_sorted:
  "sorted ks \<Longrightarrow> distinct ks \<Longrightarrow>
    entry_update k v0 f (map (\<lambda>k. (k, g k)) ks)
    = map (\<lambda>k'. (k', if k' = k then f (if k \<in> set ks then g k else v0) else g k'))
        (if k \<in> set ks then ks else insort k ks)"
proof (induction ks)
  case (Cons k1 ks)
  show ?case
  proof (cases "k = k1")
    case True
    with Cons.prems show ?thesis by (auto intro!: map_cong)
  next
    case False
    note ne = this
    show ?thesis
    proof (cases "k < k1")
      case True
      with Cons.prems have "k \<notin> set (k1 # ks)" by auto
      with True show ?thesis by (auto intro!: map_cong)
    next
      case less: False
      have "entry_update k v0 f (map (\<lambda>k. (k, g k)) ks)
          = map (\<lambda>k'. (k', if k' = k then f (if k \<in> set ks then g k else v0) else g k'))
              (if k \<in> set ks then ks else insort k ks)"
        using Cons by simp
      with ne less show ?thesis by auto
    qed
  qed
qed simp

lemma entry_update_map:
  assumes "finite K"
  shows "entry_update k v0 f (sorted_map g K)
    = sorted_map (\<lambda>k'. if k' = k then f (if k \<in> K then g k else v0) else g k') (insert k K)"
  using entry_update_sorted [of "sorted_list_of_set K" k v0 f g] assms
  by (cases "k \<in> K") (simp_all add: sorted_map_def insert_absorb sorted_list_of_set_insert_remove)

lemma map_of_sorted_map: "finite K \<Longrightarrow> map_of (sorted_map g K) k = (if k \<in> K then Some (g k) else None)"
  by (auto simp: sorted_map_def map_of_map_restrict restrict_map_def comp_def)

lemma foldl_entry_update:
  "finite K \<Longrightarrow> distinct ks \<Longrightarrow>
    foldl (\<lambda>ms (k, m). entry_update k v0 (h m) ms) (sorted_map g K) (map (\<lambda>k. (k, g2 k)) ks)
    = sorted_map (\<lambda>k. if k \<in> set ks then h (g2 k) (if k \<in> K then g k else v0) else g k) (K \<union> set ks)"
proof (induction ks arbitrary: g K)
  case (Cons k ks)
  let ?g = "\<lambda>k'. if k' = k then h (g2 k) (if k \<in> K then g k else v0) else g k'"
  have "foldl (\<lambda>ms (k, m). entry_update k v0 (h m) ms) (sorted_map g K) (map (\<lambda>k. (k, g2 k)) (k # ks))
      = foldl (\<lambda>ms (k, m). entry_update k v0 (h m) ms) (sorted_map ?g (insert k K)) (map (\<lambda>k. (k, g2 k)) ks)"
    using Cons.prems by (simp add: entry_update_map)
  also have "\<dots> = sorted_map (\<lambda>k'. if k' \<in> set ks then h (g2 k') (if k' \<in> insert k K then ?g k' else v0) else ?g k')
      (insert k K \<union> set ks)"
    using Cons.IH [of "insert k K" ?g] Cons.prems by simp
  also have "\<dots> = sorted_map (\<lambda>k'. if k' \<in> set (k # ks) then h (g2 k') (if k' \<in> K then g k' else v0) else g k')
      (K \<union> set (k # ks))"
    using Cons.prems by (auto intro!: sorted_map_cong)
  finally show ?case .
qed simp

subsubsection \<open>What was observed\<close>

text \<open>An observation: its model, the usage and what it cost.\<close>

type_synonym 'k observed = "'k \<times> token_usage \<times> cost_provenance"

definition sums :: "'k observed list \<Rightarrow> counter \<Rightarrow> nat" where
  "sums obs k = sum_list (map (\<lambda>(_, u, _). amount k u) obs)"

definition fits :: "'k observed list \<Rightarrow> bool" where
  "fits obs \<longleftrightarrow> (\<forall>k. sums obs k \<le> U64_MAX)"

definition of_model :: "'k \<Rightarrow> 'k observed list \<Rightarrow> 'k observed list" where
  "of_model k obs = filter (\<lambda>ob. fst ob = k) obs"

definition exact_model :: "'k observed list \<Rightarrow> 'f model_usage" where
  "exact_model obs =
     \<lparr>c_input = sums obs Input, c_output = sums obs Output, c_reasoning = sums obs Reasoning,
      c_cache_read = sums obs CacheRead, c_cache_write = sums obs CacheWrite, c_requests = sums obs Requests,
      c_overflow = False, mu_hit_rate = None, mu_cost = None,
      mu_observations = map (fst \<circ> snd) obs, mu_provenance = map (snd \<circ> snd) obs\<rparr>"

definition exact :: "'k::linorder observed list \<Rightarrow> ('k, 'f) usage_rollup" where
  "exact obs =
     \<lparr>c_input = sums obs Input, c_output = sums obs Output, c_reasoning = sums obs Reasoning,
      c_cache_read = sums obs CacheRead, c_cache_write = sums obs CacheWrite, c_requests = sums obs Requests,
      c_overflow = False, ro_hit_rate = None, ro_cost = None,
      ro_models = sorted_map (\<lambda>k. exact_model (of_model k obs)) (fst ` set obs)\<rparr>"

definition roll :: "'k::linorder observed list \<Rightarrow> ('k, 'f) usage_rollup" where
  "roll obs = foldl (\<lambda>r (k, u, cost). record_with_provenance k u cost r) no_usage obs"

lemma sums_simps [simp]:
  "sums [] k = 0" "sums ((m, u, cost) # obs) k = amount k u + sums obs k" "sums (xs @ ys) k = sums xs k + sums ys k"
  by (simp_all add: sums_def)

lemma sums_requests: "sums obs Requests = length obs"
  by (induction obs) auto

lemma of_model_simps [simp]:
  "of_model k [] = []" "of_model k (ob # obs) = (if fst ob = k then ob # of_model k obs else of_model k obs)"
  "of_model k (xs @ ys) = of_model k xs @ of_model k ys"
  by (simp_all add: of_model_def)

lemma sums_of_model: "sums (of_model m obs) k \<le> sums obs k"
  by (induction obs) auto

lemma fits_of_model: "fits obs \<Longrightarrow> fits (of_model k obs)"
  by (auto simp: fits_def intro: le_trans [OF sums_of_model])

lemma fits_append: "fits (xs @ ys) \<Longrightarrow> fits xs \<and> fits ys"
  unfolding fits_def by (metis add_leE sums_simps(3))

lemma of_model_absent: "k \<notin> fst ` set obs \<Longrightarrow> of_model k obs = []"
  by (induction obs) auto

lemma exact_model_Nil [simp]: "exact_model [] = no_model_usage"
  by (simp add: exact_model_def no_model_usage_def)

lemma exact_totals [simp]: "total_of k (exact obs) = sums obs k" "total_of k (exact_model obs) = sums obs k"
  by (cases k; simp only: exact_def exact_model_def total_of.simps counters.simps)+

lemma add_observed_fits:
  "total_of k c + (case v of Some n \<Rightarrow> n | None \<Rightarrow> 0) \<le> U64_MAX \<Longrightarrow>
    add_observed k v c = set_total k (total_of k c + (case v of Some n \<Rightarrow> n | None \<Rightarrow> 0)) c"
  by (cases v; cases c; cases k) (simp_all add: add_observed_def checked_increment_def)

lemma count_usage_fits:
  assumes "\<And>k. total_of k c + amount k u \<le> U64_MAX"
  shows "count_usage u c = c\<lparr>c_input := c_input c + amount Input u, c_output := c_output c + amount Output u,
    c_reasoning := c_reasoning c + amount Reasoning u, c_cache_read := c_cache_read c + amount CacheRead u,
    c_cache_write := c_cache_write c + amount CacheWrite u, c_requests := c_requests c + amount Requests u\<rparr>"
  using assms [of Input] assms [of Output] assms [of Reasoning] assms [of CacheRead] assms [of CacheWrite]
    assms [of Requests]
  by (simp add: count_usage_def add_observed_fits checked_increment_def)

lemma merge_counters_fits:
  assumes "\<And>k. total_of k c + total_of k source \<le> U64_MAX" "\<not> c_overflow c" "\<not> c_overflow source"
  shows "merge_counters source c = c\<lparr>c_overflow := False, c_input := c_input c + c_input source, c_output := c_output c + c_output source,
    c_reasoning := c_reasoning c + c_reasoning source, c_cache_read := c_cache_read c + c_cache_read source,
    c_cache_write := c_cache_write c + c_cache_write source, c_requests := c_requests c + c_requests source\<rparr>"
  using assms(1) [of Input] assms(1) [of Output] assms(1) [of Reasoning] assms(1) [of CacheRead]
    assms(1) [of CacheWrite] assms(1) [of Requests]
  by (simp add: merge_counters_def checked_increment_def Let_def assms(2,3))

lemma fits_snoc: "fits (obs @ [(k, u, cost)]) \<Longrightarrow> sums obs c + amount c u \<le> U64_MAX"
  by (simp add: fits_def)

lemma record_model_exact:
  assumes "fits (obs @ [(k, u, cost)])"
  shows "record_model u cost (exact_model obs) = exact_model (obs @ [(k, u, cost)])"
proof -
  let ?m = "(exact_model obs :: 'f model_usage)\<lparr>mu_observations := mu_observations (exact_model obs :: 'f model_usage) @ [u],
      mu_provenance := mu_provenance (exact_model obs :: 'f model_usage) @ [cost]\<rparr>"
  have "total_of c ?m + amount c u \<le> U64_MAX" for c
    using fits_snoc [OF assms, of c] by (cases c) (simp_all add: exact_model_def)
  from count_usage_fits [OF this] show ?thesis
    by (simp add: record_model_def) (simp add: exact_model_def)
qed

lemma record_exact:
  assumes "fits (obs @ [(k, u, cost)])"
  shows "record_with_provenance k u cost (exact obs :: ('k::linorder, 'f) usage_rollup) = exact (obs @ [(k, u, cost)])"
proof -
  let ?models = "ro_models (exact (obs @ [(k, u, cost)]) :: ('k, 'f) usage_rollup)"
  have fits: "fits (of_model k obs @ [(k, u, cost)])"
    using fits_of_model [OF assms, of k] by simp
  have "entry_update k no_model_usage (record_model u cost) (ro_models (exact obs :: ('k, 'f) usage_rollup))
      = sorted_map (\<lambda>k'. if k' = k then record_model u cost (if k \<in> fst ` set obs then exact_model (of_model k obs) else no_model_usage)
          else exact_model (of_model k' obs)) (insert k (fst ` set obs))"
    by (simp add: exact_def entry_update_map)
  also have "\<dots> = ?models"
    unfolding exact_def usage_rollup.simps
    using record_model_exact [OF fits]
    by (auto simp: of_model_absent intro!: sorted_map_cong)
  finally have models: "entry_update k no_model_usage (record_model u cost) (ro_models (exact obs :: ('k, 'f) usage_rollup)) = ?models" .
  let ?r = "(exact obs)\<lparr>ro_models := ?models\<rparr>"
  have "total_of c ?r + amount c u \<le> U64_MAX" for c
    using fits_snoc [OF assms, of c] by (cases c) (simp_all add: exact_def)
  from count_usage_fits [OF this] show ?thesis
    by (simp add: record_with_provenance_def models) (simp add: exact_def)
qed

lemma roll_snoc: "roll (obs @ [(k, u, cost)]) = record_with_provenance k u cost (roll obs)"
  by (simp add: roll_def)

lemma roll_exact: "fits obs \<Longrightarrow> roll obs = exact obs"
proof (induction obs rule: rev_induct)
  case Nil
  show ?case by (simp add: roll_def exact_def no_usage_def sorted_map_def)
next
  case (snoc ob obs)
  obtain k u cost where ob: "ob = (k, u, cost)" by (cases ob)
  have "fits obs" using fits_append [OF snoc.prems] by simp
  with snoc show ?case by (simp add: ob roll_snoc record_exact)
qed

lemma counts_extend [simp]:
  "counts (r\<lparr>ro_models := ms\<rparr>) S = counts r S" "counts (m\<lparr>mu_observations := us, mu_provenance := ps\<rparr>) S = counts m S"
proof -
  have "total_of k (r\<lparr>ro_models := ms\<rparr>) = total_of k r"
    "total_of k (m\<lparr>mu_observations := us, mu_provenance := ps\<rparr>) = total_of k m" for k
    by (cases k; simp)+
  then show "counts (r\<lparr>ro_models := ms\<rparr>) S = counts r S" "counts (m\<lparr>mu_observations := us, mu_provenance := ps\<rparr>) S = counts m S"
    by (simp_all add: counts_def)
qed

lemma counts_roll: "counts (roll obs :: ('k::linorder, 'f) usage_rollup) (sums obs)"
proof (induction obs rule: rev_induct)
  case Nil
  have "total_of k (no_usage :: ('k, 'f) usage_rollup) = 0" for k by (cases k) (simp_all add: no_usage_def)
  then show ?case by (simp add: roll_def counts_def) (simp add: no_usage_def)
next
  case (snoc ob obs)
  obtain k u cost where ob: "ob = (k, u, cost)" by (cases ob)
  let ?r = "(roll obs :: ('k, 'f) usage_rollup)\<lparr>ro_models := entry_update k no_model_usage (record_model u cost)
      (ro_models (roll obs :: ('k, 'f) usage_rollup))\<rparr>"
  have "counts ?r (sums obs)" using snoc by simp
  from counts_count_usage [OF this, of u] show ?case
    by (simp add: ob roll_snoc record_with_provenance_def)
qed

lemma roll_overflow: "c_overflow (roll obs) \<longleftrightarrow> \<not> fits obs"
  using counts_roll [of obs] by (auto simp: counts_def fits_def not_le)

lemma merge_model_exact:
  assumes "fits (xs @ ys)"
  shows "merge_model (exact_model ys) (exact_model xs) = exact_model (xs @ ys)"
proof -
  let ?m = "(exact_model xs :: 'f model_usage)\<lparr>mu_observations := mu_observations (exact_model xs :: 'f model_usage)
        @ mu_observations (exact_model ys :: 'f model_usage),
      mu_provenance := mu_provenance (exact_model xs :: 'f model_usage) @ mu_provenance (exact_model ys :: 'f model_usage)\<rparr>"
  have "total_of c ?m + total_of c (exact_model ys :: 'f model_usage) \<le> U64_MAX" for c
    using assms by (cases c) (simp_all add: fits_def exact_model_def)
  from merge_counters_fits [OF this] show ?thesis
    by (simp add: merge_model_def) (simp add: exact_model_def)
qed

lemma merge_exact:
  assumes "fits (xs @ ys)"
  shows "merge (exact xs) (exact ys :: ('k::linorder, 'f) usage_rollup) = exact (xs @ ys)"
proof -
  let ?X = "fst ` set xs" and ?Y = "fst ` set ys"
  have "foldl (\<lambda>ms (k, m). entry_update k no_model_usage (merge_model m) ms) (ro_models (exact xs :: ('k, 'f) usage_rollup))
      (ro_models (exact ys :: ('k, 'f) usage_rollup))
    = sorted_map (\<lambda>k. if k \<in> ?Y then merge_model (exact_model (of_model k ys)) (if k \<in> ?X then exact_model (of_model k xs) else no_model_usage)
        else exact_model (of_model k xs)) (?X \<union> ?Y)"
    using foldl_entry_update [of ?X "sorted_list_of_set ?Y" no_model_usage merge_model
        "\<lambda>k. exact_model (of_model k xs)" "\<lambda>k. exact_model (of_model k ys)"]
    by (simp add: exact_def sorted_map_def [of _ ?Y])
  also have "\<dots> = sorted_map (\<lambda>k. exact_model (of_model k (xs @ ys))) (?X \<union> ?Y)"
  proof (rule sorted_map_cong)
    fix k
    have "fits (of_model k xs @ of_model k ys)" using fits_of_model [OF assms, of k] by simp
    from merge_model_exact [OF this]
    show "(if k \<in> ?Y then merge_model (exact_model (of_model k ys)) (if k \<in> ?X then exact_model (of_model k xs) else no_model_usage)
        else exact_model (of_model k xs)) = (exact_model (of_model k (xs @ ys)) :: 'f model_usage)"
      by (auto simp: of_model_absent)
  qed simp
  finally have models: "foldl (\<lambda>ms (k, m). entry_update k no_model_usage (merge_model m) ms) (ro_models (exact xs :: ('k, 'f) usage_rollup))
      (ro_models (exact ys :: ('k, 'f) usage_rollup)) = ro_models (exact (xs @ ys) :: ('k, 'f) usage_rollup)"
    by (simp add: exact_def image_Un)
  have room: "total_of c (exact xs :: ('k, 'f) usage_rollup) + total_of c (exact ys :: ('k, 'f) usage_rollup) \<le> U64_MAX" for c
    using assms by (simp add: fits_def)
  have flag: "\<not> c_overflow (exact obs :: ('k, 'f) usage_rollup)" for obs :: "'k observed list"
    by (simp add: exact_def)
  have counters: "merge_counters (exact ys :: ('k, 'f) usage_rollup) (exact xs)
      = (exact (xs @ ys) :: ('k, 'f) usage_rollup)\<lparr>ro_models := ro_models (exact xs :: ('k, 'f) usage_rollup)\<rparr>"
    unfolding merge_counters_fits [OF room flag flag] by (simp add: exact_def)
  show ?thesis
    using models by (simp add: merge_def counters)
qed

lemma counts_keeps_models:
  "ro_models (count_usage u (r :: ('k, 'f) usage_rollup)) = ro_models r"
  "mu_observations (count_usage u (m :: 'f model_usage)) = mu_observations m"
  "ro_models (merge_counters source (r :: ('k, 'f) usage_rollup)) = ro_models r"
proof -
  have inc: "ro_models (checked_increment k v (r :: ('k, 'f) usage_rollup)) = ro_models r"
      "mu_observations (checked_increment k v (m :: 'f model_usage)) = mu_observations m" for k v r m
    by (cases k; simp add: checked_increment_def)+
  then have "ro_models (add_observed k v (r :: ('k, 'f) usage_rollup)) = ro_models r"
      "mu_observations (add_observed k v (m :: 'f model_usage)) = mu_observations m" for k v r m
    by (simp_all add: add_observed_def split: option.splits)
  with inc show "ro_models (count_usage u r) = ro_models r" "mu_observations (count_usage u m) = mu_observations m"
      "ro_models (merge_counters source r) = ro_models r"
    by (simp_all add: count_usage_def merge_counters_def Let_def)
qed

lemma roll_models:
  "\<exists>g. ro_models (roll obs :: ('k::linorder, 'f) usage_rollup) = sorted_map g (fst ` set obs)
    \<and> (\<forall>k. mu_observations (g k) = map (fst \<circ> snd) (of_model k obs))"
proof (induction obs rule: rev_induct)
  case Nil
  have "ro_models (roll [] :: ('k, 'f) usage_rollup) = sorted_map (\<lambda>_. no_model_usage) (fst ` set ([] :: 'k observed list))"
    by (simp add: roll_def no_usage_def sorted_map_def)
  then show ?case by (intro exI [of _ "\<lambda>_. no_model_usage"]) (simp add: no_model_usage_def)
next
  case (snoc ob obs)
  obtain k u cost where ob: "ob = (k, u, cost)" by (cases ob)
  from snoc obtain g where g: "ro_models (roll obs :: ('k, 'f) usage_rollup) = sorted_map g (fst ` set obs)"
      "\<And>k. mu_observations (g k) = map (fst \<circ> snd) (of_model k obs)" by blast
  let ?g = "\<lambda>k'. if k' = k then record_model u cost (if k \<in> fst ` set obs then g k else no_model_usage) else g k'"
  have "ro_models (roll (obs @ [ob]) :: ('k, 'f) usage_rollup) = sorted_map ?g (fst ` set (obs @ [ob]))"
    by (simp add: ob roll_snoc record_with_provenance_def counts_keeps_models g(1) entry_update_map)
  moreover have "mu_observations (?g k') = map (fst \<circ> snd) (of_model k' (obs @ [ob]))" for k'
    using g(2) [of k] g(2) [of k'] of_model_absent [of k obs]
    by (auto simp: ob record_model_def counts_keeps_models no_model_usage_def)
  ultimately show ?case by blast
qed

lemma observations_roll:
  "observations_of k (roll obs :: ('k::linorder, 'f) usage_rollup) = map (fst \<circ> snd) (of_model k obs)"
proof -
  obtain g where "ro_models (roll obs :: ('k, 'f) usage_rollup) = sorted_map g (fst ` set obs)"
      "\<And>k. mu_observations (g k) = map (fst \<circ> snd) (of_model k obs)"
    using roll_models [of obs] by blast
  then show ?thesis by (simp add: observations_of_def map_of_sorted_map of_model_absent)
qed

subsection \<open>The fold against a fold of the whole log\<close>

type_synonym 'k tagged = "nat option \<times> 'k observed"

text \<open>What a full fold counts of the events, a turn with its number.\<close>

fun counted :: "(nat \<Rightarrow> bool) \<Rightarrow> 'k usage_event list \<Rightarrow> 'k tagged list" where
  "counted R [] = []"
| "counted R (TurnCommitted turn k u aborted acp # es) =
     (if R turn \<or> uncounted u aborted acp then counted R es else (Some turn, k, u, Stamped None) # counted R es)"
| "counted R (UsageRecorded turn k u cost # es) = (None, k, u, Stamped cost) # counted R es"
| "counted R (InternalUsage k u cost # es) = (None, k, u, Stamped cost) # counted R es"
| "counted R (OtherEvent # es) = counted R es"

definition provisional_next :: "'k tagged list \<Rightarrow> 'k tagged \<Rightarrow> 'k provisional \<Rightarrow> 'k provisional" where
  "provisional_next seen x p =
     (case fst x of Some turn \<Rightarrow> p(turn \<mapsto> (fst (snd x), length (of_model (fst (snd x)) (map snd seen)))) | None \<Rightarrow> p)"

fun provisional_rev :: "'k tagged list \<Rightarrow> 'k provisional" where
  "provisional_rev [] = Map.empty"
| "provisional_rev (x # xs) = provisional_next (rev xs) x (provisional_rev xs)"

definition provisional_of :: "'k tagged list \<Rightarrow> 'k provisional" where
  "provisional_of xs = provisional_rev (rev xs)"

lemma provisional_of_simps [simp]:
  "provisional_of [] = Map.empty" "provisional_of (xs @ [x]) = provisional_next xs x (provisional_of xs)"
  by (simp_all add: provisional_of_def)

lemma dom_provisional: "provisional_of xs turn \<noteq> None \<longleftrightarrow> Some turn \<in> fst ` set xs"
  by (induction xs rule: rev_induct) (auto simp: provisional_next_def split: option.splits)

definition fold_of :: "'k::linorder tagged list \<Rightarrow> ('k, 'f) usage_fold" where
  "fold_of xs = \<lparr>uf_rollup = roll (map snd xs), uf_provisional = provisional_of xs\<rparr>"

lemma fold_of_recorded:
  "fold_of (xs @ [(None, k, u, Stamped cost)]) = (fold_of xs)\<lparr>uf_rollup := record_stamped k u cost (uf_rollup (fold_of xs))\<rparr>"
  by (simp add: fold_of_def roll_snoc record_stamped_def provisional_next_def)

lemma fold_of_turn:
  "\<not> uncounted u aborted acp \<Longrightarrow>
    observe_turn False turn k u aborted acp (fold_of xs :: ('k::linorder, 'f) usage_fold)
    = fold_of (xs @ [(Some turn, k, u, Stamped None)])"
  using observations_roll [of k "map snd xs @ [(k, u, Stamped None)]", where 'f = 'f]
  by (simp add: observe_turn_def fold_of_def roll_snoc record_stamped_def provisional_next_def Let_def)

lemma fold_with_counted:
  assumes "\<And>turn. Some turn \<in> recorded_turn ` set es \<Longrightarrow> R turn" "\<And>turn. Some turn \<in> fst ` set xs \<Longrightarrow> \<not> R turn"
  shows "fold_with R es (fold_of xs :: ('k::linorder, 'f) usage_fold) = Some (fold_of (xs @ counted R es))"
  using assms
proof (induction es arbitrary: xs)
  case (Cons e es)
  have rest: "\<And>turn. Some turn \<in> recorded_turn ` set es \<Longrightarrow> R turn" using Cons.prems(1) by simp
  have later: "fold_with R es (fold_of (xs @ [y]) :: ('k, 'f) usage_fold) = Some (fold_of (xs @ y # counted R es))"
    if "\<And>t. fst y = Some t \<Longrightarrow> \<not> R t" for y
  proof -
    have "\<not> R t" if "Some t \<in> fst ` set (xs @ [y])" for t
      using that Cons.prems(2) \<open>\<And>t. fst y = Some t \<Longrightarrow> \<not> R t\<close> by auto
    then show ?thesis using Cons.IH [OF rest, of "xs @ [y]"] by simp
  qed
  show ?case
  proof (cases e)
    case (TurnCommitted turn k u aborted acp)
    show ?thesis
    proof (cases "R turn \<or> uncounted u aborted acp")
      case True
      then have "observe_turn (R turn) turn k u aborted acp (fold_of xs) = (fold_of xs :: ('k, 'f) usage_fold)"
        by (simp add: observe_turn_def)
      with True Cons.IH [OF rest Cons.prems(2)] show ?thesis by (simp add: TurnCommitted)
    next
      case False
      have "observe_turn (R turn) turn k u aborted acp (fold_of xs) = (fold_of (xs @ [(Some turn, k, u, Stamped None)]) :: ('k, 'f) usage_fold)"
        using False fold_of_turn [of u aborted acp turn k xs] by simp
      with False later [of "(Some turn, k, u, Stamped None)"] show ?thesis by (simp add: TurnCommitted)
    qed
  next
    case (UsageRecorded turn k u cost)
    have "provisional_of xs turn = None"
      using Cons.prems dom_provisional [of xs turn] by (auto simp: UsageRecorded)
    then show ?thesis
      using later [of "(None, k, u, Stamped cost)"]
      by (simp add: UsageRecorded fold_of_recorded) (simp add: fold_of_def)
  next
    case (InternalUsage k u cost)
    from later [of "(None, k, u, Stamped cost)"] show ?thesis
      by (simp add: InternalUsage fold_of_recorded)
  next
    case OtherEvent
    with Cons.IH [OF rest Cons.prems(2)] show ?thesis by simp
  qed
qed simp

lemma refold_counted: "refold es = Some (fold_of (counted (\<lambda>turn. Some turn \<in> recorded_turn ` set es) es))"
  using fold_with_counted [of es "\<lambda>turn. Some turn \<in> recorded_turn ` set es" "[]"]
  by (simp add: refold_def fold_start_def fold_of_def roll_def)

subsubsection \<open>Taking a turn back\<close>

lemma unrecord_model_exact: "unrecord_model (exact_model (obs @ [(k, u, cost)])) = exact_model obs"
  by (simp add: unrecord_model_def take_usage_def exact_model_def split: option.splits)

lemma filter_sorted_map: "finite K \<Longrightarrow> filter (\<lambda>(k', _). k' \<noteq> k) (sorted_map g K) = sorted_map g (K - {k})"
  by (simp add: sorted_map_def filter_map comp_def sorted_list_of_set_remove distinct_remove1_removeAll
      removeAll_filter_not_eq eq_commute)

lemma unrecord_exact:
  assumes alone: "of_model k post = []"
  shows "unrecord_provisional (k, length (of_model k pre)) (exact (pre @ (k, u, cost) # post) :: ('k::linorder, 'f) usage_rollup)
    = Some (exact (pre @ post))"
proof -
  let ?all = "pre @ (k, u, cost) # post"
  let ?r = "exact ?all :: ('k, 'f) usage_rollup"
  have K: "finite (fst ` set ?all)" "k \<in> fst ` set ?all" by simp_all
  have here: "of_model k ?all = of_model k pre @ [(k, u, cost)]" using alone by simp
  have found: "map_of (ro_models ?r) k = Some (exact_model (of_model k pre @ [(k, u, cost)]))"
    using here by (simp add: exact_def map_of_sorted_map)
  have post: "k \<notin> fst ` set post" using alone by (auto simp: of_model_def filter_empty_conv)
  have models: "(if of_model k pre = [] then filter (\<lambda>(k', _). k' \<noteq> k) (ro_models ?r)
      else map (\<lambda>(k', v). (k', if k' = k then exact_model (of_model k pre) else v)) (ro_models ?r))
    = ro_models (exact (pre @ post) :: ('k, 'f) usage_rollup)" (is "?new = _")
  proof (cases "of_model k pre = []")
    case True
    then have pre: "k \<notin> fst ` set pre" by (auto simp: of_model_def filter_empty_conv)
    then have "fst ` set ?all - {k} = fst ` set (pre @ post)" using post by auto
    then have "?new = sorted_map (\<lambda>k. exact_model (of_model k ?all)) (fst ` set (pre @ post))"
      using True K(1) by (simp add: exact_def filter_sorted_map del: of_model_simps)
    also have "\<dots> = sorted_map (\<lambda>k. exact_model (of_model k (pre @ post))) (fst ` set (pre @ post))"
      by (rule sorted_map_cong) (use pre post in auto)
    finally show ?thesis by (simp add: exact_def)
  next
    case False
    then have "k \<in> fst ` set pre" using of_model_absent [of k pre] by metis
    then have same: "fst ` set ?all = fst ` set (pre @ post)" by auto
    have "?new = sorted_map (\<lambda>k'. if k' = k then exact_model (of_model k pre) else exact_model (of_model k' ?all)) (fst ` set ?all)"
      using False by (simp add: exact_def sorted_map_def)
    also have "\<dots> = sorted_map (\<lambda>k. exact_model (of_model k (pre @ post))) (fst ` set ?all)"
      by (rule sorted_map_cong) (use alone in auto)
    finally show ?thesis unfolding same by (simp add: exact_def)
  qed
  have "take_usage u (?r\<lparr>ro_models := ro_models (exact (pre @ post) :: ('k, 'f) usage_rollup)\<rparr>) = exact (pre @ post)"
    by (simp add: take_usage_def exact_def split: option.splits)
  with models have taken: "take_usage u (?r\<lparr>ro_models := ?new\<rparr>) = exact (pre @ post)" by presburger
  have flags: "\<not> c_overflow ?r" "\<not> c_overflow (exact_model (of_model k pre @ [(k, u, cost)]) :: 'f model_usage)"
    by (simp_all add: exact_def exact_model_def)
  have observations: "mu_observations (exact_model (of_model k pre @ [(k, u, cost)]) :: 'f model_usage)
        = map (fst \<circ> snd) (of_model k pre) @ [u]"
      "mu_observations (exact_model (of_model k pre) :: 'f model_usage) = map (fst \<circ> snd) (of_model k pre)"
    by (simp_all add: exact_model_def)
  show ?thesis
    unfolding unrecord_provisional_def prod.case found option.case unrecord_model_exact Let_def observations
    using flags taken by (simp only: length_append length_map list.size if_False map_is_Nil_conv last_snoc) simp
qed

lemma provisional_of_turn:
  "Some turn \<notin> fst ` set post \<Longrightarrow>
    provisional_of (pre @ (Some turn, k, u, cost) # post) turn = Some (k, length (of_model k (map snd pre)))"
proof (induction post rule: rev_induct)
  case Nil
  show ?case by (simp add: provisional_next_def)
next
  case (snoc y post)
  have "provisional_of (pre @ (Some turn, k, u, cost) # post @ [y])
      = provisional_next (pre @ (Some turn, k, u, cost) # post) y (provisional_of (pre @ (Some turn, k, u, cost) # post))"
    using provisional_of_simps(2) [of "pre @ (Some turn, k, u, cost) # post" y] by simp
  with snoc show ?case by (auto simp: provisional_next_def split: option.splits)
qed

lemma provisional_of_removed:
  "of_model k (map snd post) = [] \<Longrightarrow> Some turn \<notin> fst ` set post \<Longrightarrow>
    provisional_of (pre @ (Some turn, k, u, cost) # post)
    = (provisional_of (pre @ post))(turn \<mapsto> (k, length (of_model k (map snd pre))))"
proof (induction post rule: rev_induct)
  case Nil
  show ?case by (simp add: provisional_next_def)
next
  case (snoc y post)
  let ?x = "(Some turn, k, u, cost)"
  obtain t k' u' cost' where y: "y = (t, k', u', cost')" by (cases y)
  have other: "k' \<noteq> k" "t \<noteq> Some turn" and earlier: "of_model k (map snd post) = []" "Some turn \<notin> fst ` set post"
    using snoc.prems by (auto simp: y split: if_splits)
  have "provisional_of (pre @ ?x # post @ [y]) = provisional_next (pre @ ?x # post) y (provisional_of (pre @ ?x # post))"
    "provisional_of (pre @ post @ [y]) = provisional_next (pre @ post) y (provisional_of (pre @ post))"
    using provisional_of_simps(2) [of "pre @ ?x # post" y] provisional_of_simps(2) [of "pre @ post" y] by simp_all
  with snoc.IH [OF earlier] other show ?case
    by (auto simp: y provisional_next_def fun_upd_twist split: option.splits)
qed

lemma taken_back:
  fixes xs :: "'k::linorder tagged list"
  assumes turns: "xs = pre @ (Some turn, k, u, Stamped cost) # post" "Some turn \<notin> fst ` set (pre @ post)"
    and taken: "provisional_of xs turn = Some p"
      "unrecord_provisional p (roll (map snd xs) :: ('k, 'f) usage_rollup) = Some r"
  shows "r = roll (map snd (pre @ post))" "(provisional_of xs)(turn := None) = provisional_of (pre @ post)"
proof -
  have later: "Some turn \<notin> fst ` set post" using turns(2) by (simp add: image_Un)
  have p: "p = (k, length (of_model k (map snd pre)))"
    using taken(1) provisional_of_turn [OF later, of pre k u "Stamped cost"] by (simp add: turns(1))
  have fits: "fits (map snd xs)"
    using taken(2) roll_overflow [of "map snd xs", where 'b = 'f] by (auto simp: p unrecord_provisional_def split: if_splits)
  then have roll: "roll (map snd xs) = (exact (map snd xs) :: ('k, 'f) usage_rollup)" by (rule roll_exact)
  have "map_of (ro_models (exact (map snd xs) :: ('k, 'f) usage_rollup)) k = Some (exact_model (of_model k (map snd xs)))"
    by (simp add: exact_def map_of_sorted_map turns(1))
  with taken(2) have "length (mu_observations (exact_model (of_model k (map snd xs)) :: 'f model_usage)) = length (of_model k (map snd pre)) + 1"
    by (auto simp: p roll unrecord_provisional_def split: if_splits)
  then have alone: "of_model k (map snd post) = []"
    by (simp add: exact_model_def turns(1))
  have "fits (map snd (pre @ post))"
    unfolding fits_def
  proof
    fix c
    have "sums (map snd xs) c \<le> U64_MAX" using fits by (simp add: fits_def)
    then show "sums (map snd (pre @ post)) c \<le> U64_MAX" by (simp add: turns(1))
  qed
  then have rest: "roll (map snd (pre @ post)) = (exact (map snd (pre @ post)) :: ('k, 'f) usage_rollup)"
    by (rule roll_exact)
  show "r = roll (map snd (pre @ post))"
    using taken(2) unrecord_exact [OF alone, of "map snd pre" u "Stamped cost", where 'f = 'f]
    unfolding roll rest p by (simp add: turns(1))
  show "(provisional_of xs)(turn := None) = provisional_of (pre @ post)"
  proof -
    have "provisional_of (pre @ post) turn = None"
      using dom_provisional [of "pre @ post" turn] turns(2) by blast
    then show ?thesis
      using provisional_of_removed [OF alone later, of pre u "Stamped cost"] by (simp add: turns(1) fun_upd_idem)
  qed
qed

subsubsection \<open>A validated log\<close>

text \<open>
  What the store's validation requires of a log here (\<open>events.rs\<close>): no turn is committed twice, and a
  usage record names a turn that was committed with that model and has no usage record yet.
\<close>

fun committed_turn :: "'k usage_event \<Rightarrow> (nat \<times> 'k) option" where
  "committed_turn (TurnCommitted turn k _ _ _) = Some (turn, k)"
| "committed_turn _ = None"

fun event_valid :: "'k usage_event list \<Rightarrow> 'k usage_event \<Rightarrow> bool" where
  "event_valid seen (TurnCommitted turn k u aborted acp) \<longleftrightarrow> turn \<notin> fst ` set (List.map_filter committed_turn seen)"
| "event_valid seen (UsageRecorded turn k u cost) \<longleftrightarrow>
     (turn, k) \<in> set (List.map_filter committed_turn seen) \<and> turn \<notin> set (List.map_filter recorded_turn seen)"
| "event_valid seen _ \<longleftrightarrow> True"

fun log_valid :: "'k usage_event list \<Rightarrow> 'k usage_event list \<Rightarrow> bool" where
  "log_valid seen [] \<longleftrightarrow> True"
| "log_valid seen (e # es) \<longleftrightarrow> event_valid seen e \<and> log_valid (seen @ [e]) es"

lemma log_valid_snoc: "log_valid seen (es @ [e]) \<longleftrightarrow> log_valid seen es \<and> event_valid (seen @ es) e"
  by (induction es arbitrary: seen) auto

lemma recorded_set: "turn \<in> set (List.map_filter recorded_turn es) \<longleftrightarrow> Some turn \<in> recorded_turn ` set es"
  by (induction es) (auto simp: List.map_filter_simps split: option.splits)

lemma committed_set: "turn \<in> fst ` set (List.map_filter committed_turn es) \<longleftrightarrow> (\<exists>k. Some (turn, k) \<in> committed_turn ` set es)"
  by (induction es) (auto simp: List.map_filter_simps image_iff split: option.splits)

lemma recorded_committed:
  "log_valid [] es \<Longrightarrow> Some turn \<in> recorded_turn ` set es \<Longrightarrow> turn \<in> fst ` set (List.map_filter committed_turn es)"
proof (induction es rule: rev_induct)
  case (snoc e es)
  then show ?case
    by (cases e) (auto simp: log_valid_snoc List.map_filter_def image_iff)
qed simp

subsubsection \<open>Counting with one more record\<close>

lemma counted_append: "counted R (es @ es') = counted R es @ counted R es'"
  by (induction R es rule: counted.induct) auto

lemma counted_cong:
  "\<forall>turn\<in>fst ` set (List.map_filter committed_turn es). R turn = R' turn \<Longrightarrow> counted R es = counted R' es"
proof (induction es)
  case (Cons e es)
  then show ?case by (cases e) simp_all
qed simp

lemma counted_recorded: "counted (\<lambda>t. R t \<or> t = turn) es = filter (\<lambda>x. fst x \<noteq> Some turn) (counted R es)"
  by (induction R es rule: counted.induct) auto

lemma counted_turn: "(Some turn, k, u, cost) \<in> set (counted R es) \<Longrightarrow> cost = Stamped None"
  by (induction R es rule: counted.induct) (auto split: if_splits)

lemma counted_tags: "Some turn \<in> fst ` set (counted R es) \<Longrightarrow> turn \<in> fst ` set (List.map_filter committed_turn es)"
  by (induction R es rule: counted.induct) (auto split: if_splits simp: image_iff List.map_filter_def)

lemma counted_once:
  "log_valid [] es \<Longrightarrow> Some turn \<in> fst ` set (counted R es) \<Longrightarrow>
    \<exists>pre k u post. counted R es = pre @ (Some turn, k, u, Stamped None) # post \<and> Some turn \<notin> fst ` set (pre @ post)"
proof (induction es rule: rev_induct)
  case (snoc e es)
  have valid: "log_valid [] es" using snoc.prems by (simp add: log_valid_snoc)
  show ?case
  proof (cases "Some turn \<in> fst ` set (counted R es)")
    case True
    from snoc.IH [OF valid this] obtain pre k u post where
      split: "counted R es = pre @ (Some turn, k, u, Stamped None) # post" "Some turn \<notin> fst ` set (pre @ post)" by blast
    have "Some turn \<notin> fst ` set (counted R [e])"
    proof (cases e)
      case (TurnCommitted t k' u' aborted acp)
      then have "t \<notin> fst ` set (List.map_filter committed_turn es)"
        using snoc.prems(1) by (simp add: log_valid_snoc)
      with counted_tags [OF True] show ?thesis by (auto simp: TurnCommitted)
    qed auto
    with split have "counted R (es @ [e]) = pre @ (Some turn, k, u, Stamped None) # (post @ counted R [e])"
        "Some turn \<notin> fst ` set (pre @ post @ counted R [e])"
      by (simp_all add: counted_append image_Un)
    then show ?thesis by blast
  next
    case False
    with snoc.prems(2) have "Some turn \<in> fst ` set (counted R [e])" by (auto simp: counted_append image_Un)
    then obtain k u where "counted R [e] = [(Some turn, k, u, Stamped None)]"
      by (cases e) (auto split: if_splits)
    with False have "counted R (es @ [e]) = counted R es @ (Some turn, k, u, Stamped None) # []"
        "Some turn \<notin> fst ` set (counted R es @ [])"
      by (simp_all add: counted_append)
    then show ?thesis by blast
  qed
qed simp

lemma filter_out_turn:
  assumes "Some turn \<notin> fst ` set (pre @ post)"
  shows "filter (\<lambda>x. fst x \<noteq> Some turn) (pre @ (Some turn, y) # post) = pre @ post"
proof -
  have "filter (\<lambda>x. fst x \<noteq> Some turn) zs = zs" if "Some turn \<notin> fst ` set zs" for zs :: "('a option \<times> 'b) list"
    using that by (induction zs) auto
  with assms show ?thesis by (simp add: image_Un)
qed

lemma refold_tagged: "refold es = Some (fold_of (counted (\<lambda>turn. turn \<in> set (List.map_filter recorded_turn es)) es))"
  using refold_counted [of es] by (simp add: recorded_set)

text \<open>
  C19. Keeping the rollup up as events are appended gives what folding the whole log again gives: for a
  validated log, observing the next event on top of the fold of the log so far is the fold of the log with
  it. A turn that counted when it was committed is taken back out exactly when its usage is recorded, or,
  where it can no longer be, the log is folded again.
\<close>

theorem appended_as_refolded:
  fixes es :: "'k::linorder usage_event list"
  assumes "log_valid [] (es @ [e])"
  shows "observe_appended es e (the (refold es)) = (refold (es @ [e]) :: ('k, 'f) usage_fold option)"
proof -
  let ?R = "\<lambda>turn. turn \<in> set (List.map_filter recorded_turn es)"
  let ?xs = "counted ?R es"
  have start: "the (refold es) = (fold_of ?xs :: ('k, 'f) usage_fold)" by (simp add: refold_tagged)
  have valid: "log_valid [] es" "event_valid es e" using assms by (simp_all add: log_valid_snoc)
  show ?thesis
  proof (cases e)
    case (TurnCommitted turn k u aborted acp)
    have "\<not> ?R turn" using recorded_committed [OF valid(1)] valid(2) by (auto simp: TurnCommitted recorded_set)
    then have "refold (es @ [e]) = (Some (fold_of (if uncounted u aborted acp then ?xs else ?xs @ [(Some turn, k, u, Stamped None)]))
        :: ('k, 'f) usage_fold option)"
      unfolding refold_tagged by (simp add: counted_append TurnCommitted List.map_filter_def)
    moreover have "observe_turn False turn k u aborted acp (fold_of ?xs)
        = (fold_of (if uncounted u aborted acp then ?xs else ?xs @ [(Some turn, k, u, Stamped None)]) :: ('k, 'f) usage_fold)"
    proof (cases "uncounted u aborted acp")
      case True
      then show ?thesis by (simp add: observe_turn_def)
    next
      case False
      then show ?thesis by (simp add: fold_of_turn)
    qed
    ultimately show ?thesis unfolding start by (simp add: observe_appended_def TurnCommitted)
  next
    case (UsageRecorded turn k u cost)
    let ?rest = "filter (\<lambda>x. fst x \<noteq> Some turn) ?xs"
    have "counted (\<lambda>t. t \<in> set (List.map_filter recorded_turn (es @ [e]))) (es @ [e]) = ?rest @ [(None, k, u, Stamped cost)]"
      using counted_recorded [of ?R turn es] by (simp add: counted_append UsageRecorded List.map_filter_def disj_commute)
    then have all: "refold (es @ [e]) = (Some (fold_of (?rest @ [(None, k, u, Stamped cost)])) :: ('k, 'f) usage_fold option)"
      by (simp only: refold_tagged)
    show ?thesis
    proof (cases "provisional_of ?xs turn")
      case None
      then have "Some turn \<notin> fst ` set ?xs" using dom_provisional [of ?xs turn] by blast
      then have "?rest = ?xs" by (auto simp: filter_id_conv image_iff)
      with None show ?thesis
        unfolding start all by (simp add: observe_appended_def UsageRecorded fold_of_recorded) (simp add: fold_of_def)
    next
      case (Some p)
      then have "Some turn \<in> fst ` set ?xs" using dom_provisional [of ?xs turn] by blast
      from counted_once [OF valid(1) this] obtain pre k' u' post where
        split: "?xs = pre @ (Some turn, k', u', Stamped None) # post" "Some turn \<notin> fst ` set (pre @ post)" by blast
      have rest: "?rest = pre @ post" unfolding split(1) by (rule filter_out_turn [OF split(2)])
      show ?thesis
      proof (cases "unrecord_provisional p (roll (map snd ?xs) :: ('k, 'f) usage_rollup)")
        case None
        then show ?thesis
          unfolding start by (simp add: observe_appended_def UsageRecorded fold_of_def \<open>provisional_of ?xs turn = Some p\<close>)
      next
        case (Some r)
        note undone = taken_back [OF split \<open>provisional_of ?xs turn = Some p\<close> Some]
        show ?thesis
          unfolding start all rest fold_of_recorded
          using Some \<open>provisional_of ?xs turn = Some p\<close> undone
          by (simp add: observe_appended_def UsageRecorded fold_of_def)
      qed
    qed
  next
    case (InternalUsage k u cost)
    have "refold (es @ [e]) = (Some (fold_of (?xs @ [(None, k, u, Stamped cost)])) :: ('k, 'f) usage_fold option)"
      unfolding refold_tagged by (simp add: counted_append InternalUsage List.map_filter_def)
    then show ?thesis unfolding start by (simp add: observe_appended_def InternalUsage fold_of_recorded)
  next
    case OtherEvent
    have "refold (es @ [e]) = (Some (fold_of ?xs) :: ('k, 'f) usage_fold option)"
      unfolding refold_tagged by (simp add: counted_append OtherEvent List.map_filter_def)
    then show ?thesis unfolding start by (simp add: observe_appended_def OtherEvent)
  qed
qed

subsection \<open>Merged and priced rollups\<close>

lemma counts_merged: "counts (merge (roll xs) (roll ys :: ('k::linorder, 'f) usage_rollup)) (sums (xs @ ys))"
proof -
  have "sums (xs @ ys) = (\<lambda>k. sums xs k + sums ys k)" by auto
  then show ?thesis
    using counts_merge [OF counts_roll [of xs, where 'f = 'f] counts_roll [of ys, where 'f = 'f]] by (simp add: merge_def Let_def)
qed

text \<open>
  C31. Merging the rollups of two sessions gives the rollup of all their requests, models and observations
  included, when every counter of it fits a \<open>u64\<close>; when one does not, the merged rollup says so by its
  overflow flag, whichever of the two it was in, or if it only shows in the sum.
\<close>

theorem merge_rolls_all:
  "if fits (xs @ ys) then merge (roll xs) (roll ys) = (roll (xs @ ys) :: ('k::linorder, 'f) usage_rollup)
   else c_overflow (merge (roll xs) (roll ys) :: ('k, 'f) usage_rollup)"
proof (cases "fits (xs @ ys)")
  case True
  with fits_append [OF True] show ?thesis by (simp add: roll_exact merge_exact)
next
  case False
  then have "c_overflow (merge (roll xs) (roll ys) :: ('k, 'f) usage_rollup)"
    using counts_merged [of xs ys, where 'f = 'f] by (auto simp: counts_def fits_def not_le)
  with False show ?thesis by simp
qed

fun stamped_cost :: "cost_provenance \<Rightarrow> nat" where
  "stamped_cost (Stamped (Some pico)) = pico * TOKENS_PER_MILLION"
| "stamped_cost (Stamped None) = 0"

definition priced :: "cost_provenance list \<Rightarrow> bool" where
  "priced ps \<longleftrightarrow> list_all (\<lambda>p. p \<noteq> Stamped None) ps"

definition cost_sum :: "cost_provenance list \<Rightarrow> nat" where
  "cost_sum ps = sum_list (map stamped_cost ps)"

lemma cost_from_sum:
  "acc \<le> U128_MAX \<Longrightarrow> cost_from ps acc = (if priced ps \<and> acc + cost_sum ps \<le> U128_MAX then Some (acc + cost_sum ps) else None)"
  by (induction ps acc rule: cost_from.induct) (auto simp: priced_def cost_sum_def checked_within_def add.assoc)

lemma model_cost_exact:
  "model_cost (exact_model obs)
    = (if priced (map (snd \<circ> snd) obs) \<and> cost_sum (map (snd \<circ> snd) obs) \<le> U128_MAX
       then Some (cost_sum (map (snd \<circ> snd) obs)) else None)"
  by (simp add: model_cost_def observations_cost_def cost_from_sum exact_model_def sums_requests)

lemma add_costs_unpriced: "snd (add_costs ms acc False) = False"
  by (induction ms arbitrary: acc) (auto split: option.splits)

lemma add_costs_sum:
  "acc \<le> U128_MAX \<Longrightarrow> add_costs ms acc True = (so_far, True) \<longleftrightarrow>
    (\<forall>m\<in>set ms. model_cost m \<noteq> None) \<and> so_far = acc + sum_list (map (\<lambda>m. the (model_cost m)) ms) \<and> so_far \<le> U128_MAX"
proof (induction ms arbitrary: acc)
  case (Cons m ms)
  have "add_costs ms acc False \<noteq> (so_far, True)" for acc
    using add_costs_unpriced [of ms acc] by (metis snd_conv)
  with Cons show ?case by (auto simp: checked_within_def split: option.splits)
qed auto

lemma cost_sum_models:
  assumes "finite K" "fst ` set obs \<subseteq> K"
  shows "(\<Sum>k\<in>K. cost_sum (map (snd \<circ> snd) (of_model k obs))) = cost_sum (map (snd \<circ> snd) obs)"
  using assms(2)
proof (induction obs)
  case (Cons ob obs)
  have here: "fst ob \<in> K" and rest: "fst ` set obs \<subseteq> K" using Cons.prems by auto
  have "cost_sum (map (snd \<circ> snd) (of_model k (ob # obs)))
      = (if k = fst ob then stamped_cost (snd (snd ob)) else 0) + cost_sum (map (snd \<circ> snd) (of_model k obs))" for k
    by (simp add: cost_sum_def)
  then have "(\<Sum>k\<in>K. cost_sum (map (snd \<circ> snd) (of_model k (ob # obs))))
      = (\<Sum>k\<in>K. if k = fst ob then stamped_cost (snd (snd ob)) else 0) + (\<Sum>k\<in>K. cost_sum (map (snd \<circ> snd) (of_model k obs)))"
    by (simp only: sum.distrib)
  also have "\<dots> = stamped_cost (snd (snd ob)) + cost_sum (map (snd \<circ> snd) obs)"
    using Cons.IH [OF rest] here assms(1) by (simp add: sum.delta comp_def)
  also have "\<dots> = cost_sum (map (snd \<circ> snd) (ob # obs))"
    by (simp add: cost_sum_def)
  finally show ?case .
qed (simp add: cost_sum_def)

lemma priced_models:
  "priced (map (snd \<circ> snd) obs) \<longleftrightarrow> (\<forall>k\<in>fst ` set obs. priced (map (snd \<circ> snd) (of_model k obs)))"
  by (auto simp: priced_def list_all_iff of_model_def)

lemma cost_sum_of_model: "cost_sum (map (snd \<circ> snd) (of_model k obs)) \<le> cost_sum (map (snd \<circ> snd) obs)"
  by (induction obs) (auto simp: cost_sum_def)

lemma add_costs_exact:
  "add_costs (map snd (ro_models (exact obs :: ('k::linorder, 'f) usage_rollup))) 0 True = (so_far, True) \<longleftrightarrow>
    priced (map (snd \<circ> snd) obs) \<and> so_far = cost_sum (map (snd \<circ> snd) obs) \<and> so_far \<le> U128_MAX"
proof -
  let ?K = "fst ` set obs" and ?cost = "\<lambda>k. cost_sum (map (snd \<circ> snd) (of_model k obs))"
  let ?ms = "map (\<lambda>k. exact_model (of_model k obs) :: 'f model_usage) (sorted_list_of_set ?K)"
  have ms: "map snd (ro_models (exact obs :: ('k, 'f) usage_rollup)) = ?ms"
    by (simp add: exact_def sorted_map_def)
  have all: "(\<forall>m\<in>set ?ms. model_cost m \<noteq> None) \<longleftrightarrow> (\<forall>k\<in>?K. priced (map (snd \<circ> snd) (of_model k obs)) \<and> ?cost k \<le> U128_MAX)"
    by (simp add: model_cost_exact)
  have total: "sum_list (map (\<lambda>m. the (model_cost m)) ?ms) = cost_sum (map (snd \<circ> snd) obs)"
    if "\<forall>m\<in>set ?ms. model_cost m \<noteq> None"
  proof -
    have "map (\<lambda>m. the (model_cost m)) ?ms = map ?cost (sorted_list_of_set ?K)"
      using that by (auto simp: model_cost_exact split: if_splits)
    moreover have "sum_list (map ?cost (sorted_list_of_set ?K)) = cost_sum (map (snd \<circ> snd) obs)"
      using cost_sum_models [of ?K obs] by (simp add: sum_list_distinct_conv_sum_set)
    ultimately show ?thesis by (simp only:)
  qed
  have "priced (map (snd \<circ> snd) obs) \<Longrightarrow> cost_sum (map (snd \<circ> snd) obs) \<le> U128_MAX \<Longrightarrow> \<forall>m\<in>set ?ms. model_cost m \<noteq> None"
    unfolding all using priced_models [of obs] by (simp add: le_trans [OF cost_sum_of_model])
  moreover have "\<forall>m\<in>set ?ms. model_cost m \<noteq> None \<Longrightarrow> priced (map (snd \<circ> snd) obs)"
    unfolding all using priced_models [of obs] by simp
  ultimately show ?thesis
    unfolding ms using total add_costs_sum [of 0 ?ms so_far] by (auto simp: U128_MAX_def)
qed

text \<open>
  C20. The cost that is shown of a session's requests is known exactly when there is a request, no counter
  overflowed, every request was stamped with a price and their sum fits, and it is then that sum over all
  requests: requests that were not priced are never counted as free, and no request is left out by the
  grouping into models.
\<close>

theorem cost_of_all_or_none:
  "ro_cost (with_pricing fl (roll obs :: ('k::linorder, 'f) usage_rollup))
    = (if obs \<noteq> [] \<and> fits obs \<and> priced (map (snd \<circ> snd) obs) \<and> cost_sum (map (snd \<circ> snd) obs) \<le> U128_MAX
       then Some (cost_numerator_to_usd fl (cost_sum (map (snd \<circ> snd) obs))) else None)"
proof (cases "obs \<noteq> [] \<and> fits obs")
  case True
  then have r: "roll obs = (exact obs :: ('k, 'f) usage_rollup)" by (simp add: roll_exact)
  have start: "(c_requests (exact obs :: ('k, 'f) usage_rollup) > 0 \<and> \<not> c_overflow (exact obs :: ('k, 'f) usage_rollup)) = True"
    using True by (simp add: exact_def sums_requests)
  obtain so_far p where sum: "add_costs (map snd (ro_models (exact obs :: ('k, 'f) usage_rollup))) 0 True = (so_far, p)"
    by (cases "add_costs (map snd (ro_models (exact obs :: ('k, 'f) usage_rollup))) 0 True")
  show ?thesis
    using True add_costs_exact [of obs so_far, where 'f = 'f] add_costs_exact [of obs "cost_sum (map (snd \<circ> snd) obs)", where 'f = 'f]
    unfolding r with_pricing_def Let_def start sum by (cases p) auto
next
  case False
  have off: "(c_requests (roll obs :: ('k, 'f) usage_rollup) > 0 \<and> \<not> c_overflow (roll obs :: ('k, 'f) usage_rollup)) = False"
    using False roll_overflow [of obs, where 'b = 'f] by (cases "obs = []") (simp_all add: roll_def no_usage_def)
  obtain so_far where sum: "add_costs (map snd (ro_models (roll obs :: ('k, 'f) usage_rollup))) 0 False = (so_far, False)"
    using add_costs_unpriced [of "map snd (ro_models (roll obs :: ('k, 'f) usage_rollup))" 0] by (metis prod.collapse)
  show ?thesis
    unfolding with_pricing_def Let_def off sum using False by auto
qed

text \<open>The rate is over the requests that reported what they read from the cache.\<close>

definition cache_reports :: "token_usage list \<Rightarrow> token_usage list" where
  "cache_reports us = filter (\<lambda>u. u_cache_read u \<noteq> None) us"

definition input_sum :: "token_usage list \<Rightarrow> nat" where
  "input_sum us = sum_list (map (amount Input) us)"

definition read_sum :: "token_usage list \<Rightarrow> nat" where
  "read_sum us = sum_list (map (amount CacheRead) us)"

lemma hit_tokens_sum:
  "input \<le> U64_MAX \<Longrightarrow> cache_read \<le> U64_MAX \<Longrightarrow>
    hit_tokens us input cache_read observed
    = (if list_all (\<lambda>u. u_input u \<noteq> None) (cache_reports us)
           \<and> input + input_sum (cache_reports us) \<le> U64_MAX \<and> cache_read + read_sum (cache_reports us) \<le> U64_MAX
       then Some (input + input_sum (cache_reports us), cache_read + read_sum (cache_reports us), observed \<or> cache_reports us \<noteq> [])
       else None)"
  by (induction us input cache_read observed rule: hit_tokens.induct)
    (auto simp: cache_reports_def input_sum_def read_sum_def checked_within_def add.assoc bind_eq_Some_conv split: option.splits)

definition witness_usage :: "nat \<Rightarrow> token_usage" where
  "witness_usage n =
     \<lparr>u_input = Some n, u_input_no_cache = None, u_cache_read = None, u_cache_write = None, u_output = Some 2,
      u_output_text = None, u_reasoning = None\<rparr>"

theorem appended_as_refolded_witness:
  "observe_appended [TurnCommitted 1 7 (witness_usage 10) False False, InternalUsage 3 (witness_usage 4) (Some 5)]
      (UsageRecorded 1 7 (witness_usage 11) (Some 9))
      (the (refold [TurnCommitted 1 7 (witness_usage 10) False False, InternalUsage 3 (witness_usage 4) (Some 5)]))
    = (refold [TurnCommitted 1 7 (witness_usage 10) False False, InternalUsage 3 (witness_usage 4) (Some 5),
        UsageRecorded 1 7 (witness_usage 11) (Some 9)] :: (nat, nat) usage_fold option)"
  using appended_as_refolded [of "[TurnCommitted 1 7 (witness_usage 10) False False, InternalUsage 3 (witness_usage 4) (Some 5)]"
      "UsageRecorded 1 (7::nat) (witness_usage 11) (Some 9)", where 'f = nat]
  by (simp add: List.map_filter_def)

end
