(* ===== verification/Prices.thy ===== *)
theory Prices
  imports Usage Sem_Ver
begin

text \<open>
  What a request costs: rates and their texts (\<open>crates/models/src/catalog/records.rs\<close>), the rates of a
  model (\<open>crates/models/src/authoring/model.rs\<close>) and the estimate of
  \<open>crates/engine_store/src/usage.rs\<close>. A rate is a number of pico-dollars for a million tokens; checked
  arithmetic on \<open>u128\<close> is \<open>None\<close> where it overflows.
\<close>

subsection \<open>The text of a rate\<close>

definition SCALE :: int where "SCALE = 12"

text \<open>The zeros to the left of a number of twelve digits, which \<open>format!("{fraction:012}")\<close> writes.\<close>

definition padded_fraction :: "nat \<Rightarrow> string" where
  "padded_fraction fraction = replicate (12 - length (show_nat fraction)) CHR ''0'' @ show_nat fraction"

definition decimal_string :: "nat \<Rightarrow> string" where
  "decimal_string value =
     (let whole = value div 1000000000000; fraction = value mod 1000000000000
      in if fraction = 0 then show_nat whole
         else show_nat whole @ ''.'' @ trim_end_of (\<lambda>c. c = CHR ''0'') (padded_fraction fraction))"

definition i32_of :: "int \<Rightarrow> int option" where
  "i32_of i = (if - (2 ^ 31) \<le> i \<and> i < 2 ^ 31 then Some i else None)"

text \<open>\<open>str::parse::<i32>\<close>: a sign, then digits.\<close>

definition parse_i32 :: "string \<Rightarrow> int option" where
  "parse_i32 s =
     (case s of
        c # digits \<Rightarrow>
          if c = CHR ''-'' then
            if digits = [] \<or> \<not> list_all is_ascii_digit digits then None else i32_of (- int (digits_value digits))
          else map_option int (parse_unsigned (2 ^ 31 - 1) s)
      | [] \<Rightarrow> None)"

definition is_exponent_mark :: "char \<Rightarrow> bool" where
  "is_exponent_mark c \<longleftrightarrow> c = CHR ''e'' \<or> c = CHR ''E''"

text \<open>The coefficient and the exponent; a bad exponent leaves an empty coefficient.\<close>

definition coefficient_exponent :: "string \<Rightarrow> string \<times> int" where
  "coefficient_exponent value =
     (case position is_exponent_mark value of
        None \<Rightarrow> (value, 0)
      | Some i \<Rightarrow> (case parse_i32 (drop (Suc i) value) of Some exponent \<Rightarrow> (take i value, exponent) | None \<Rightarrow> ([], 0)))"

text \<open>The digits before and after the point, and the exponent.\<close>

definition decimal_parts :: "string \<Rightarrow> (string \<times> string \<times> int) option" where
  "decimal_parts value =
     (let value = trim value
      in if value = [] \<or> starts_with value ''-'' then None
         else (let value = (case strip_prefix ''+'' value of Some rest \<Rightarrow> rest | None \<Rightarrow> value);
                   (coefficient, exponent) = coefficient_exponent value
               in if coefficient = [] then None
                  else (let (whole, fraction) = (case split_once coefficient ''.'' of Some p \<Rightarrow> p | None \<Rightarrow> (coefficient, []))
                        in if whole = [] \<and> fraction = [] \<or> \<not> list_all is_ascii_digit whole \<or> \<not> list_all is_ascii_digit fraction
                           then None else Some (whole, fraction, exponent))))"

fun checked_power_of_ten :: "nat \<Rightarrow> nat option" where
  "checked_power_of_ten 0 = Some 1"
| "checked_power_of_ten (Suc n) = Option.bind (checked_power_of_ten n) (\<lambda>v. checked_within U128_MAX (v * 10))"

text \<open>The significant digits, moved by \<open>shift\<close> places.\<close>

definition shift_digits :: "string \<Rightarrow> int \<Rightarrow> bool \<Rightarrow> nat option" where
  "shift_digits significant shift round =
     (if shift \<ge> 0 then
        Option.bind (parse_unsigned U128_MAX significant) (\<lambda>coefficient.
          Option.bind (checked_power_of_ten (nat shift)) (\<lambda>power. checked_within U128_MAX (coefficient * power)))
      else (let excess = nat (- shift);
                retained = length significant - excess;
                dropped = drop retained significant
            in if \<not> round \<and> \<not> list_all (\<lambda>c. c = CHR ''0'') dropped then None
               else (let round_up = round \<and> excess \<le> length significant \<and> of_char CHR ''5'' \<le> (of_char (hd dropped) :: nat);
                         kept = take retained significant
                     in Option.bind (if kept = [] then Some 0 else parse_unsigned U128_MAX kept)
                          (\<lambda>kept. checked_within U128_MAX (kept + (if round_up then 1 else 0))))))"

definition parse_decimal :: "string \<Rightarrow> bool \<Rightarrow> nat option" where
  "parse_decimal value round =
     (case decimal_parts value of
        None \<Rightarrow> None
      | Some (whole, fraction, exponent) \<Rightarrow>
          (let significant = trim_start_of (\<lambda>c. c = CHR ''0'') (whole @ fraction)
           in if significant = [] then Some 0
              else Option.bind (i32_of (int (length fraction))) (\<lambda>fraction_digits.
                Option.bind (i32_of (SCALE + exponent)) (\<lambda>scale.
                  Option.bind (i32_of (scale - fraction_digits)) (\<lambda>shift. shift_digits significant shift round)))))"

definition from_decimal_str :: "string \<Rightarrow> nat option" where
  "from_decimal_str value = parse_decimal value False"

definition from_decimal_str_rounded :: "string \<Rightarrow> nat option" where
  "from_decimal_str_rounded value = parse_decimal value True"

subsection \<open>Rates\<close>

text \<open>\<open>ModelPricing\<close>, and \<open>CatalogModelCostRates\<close>, which has the first two.\<close>

record model_pricing =
  per_input :: "nat option"
  per_output :: "nat option"
  per_reasoning :: "nat option"
  per_cache_read :: "nat option"
  per_cache_write :: "nat option"

record catalog_rates =
  cr_input :: nat
  cr_output :: nat
  cr_reasoning :: "nat option"
  cr_cache_read :: "nat option"
  cr_cache_write :: "nat option"

record cost_tier =
  ct_context_tokens :: nat
  ct_rates :: catalog_rates

record catalog_cost =
  cc_rates :: catalog_rates
  cc_over_200k :: "catalog_rates option"
  cc_tiers :: "cost_tier list"

text \<open>The loop over the tiers, which ends at the first that is not reached.\<close>

fun select_tier :: "nat \<Rightarrow> cost_tier list \<Rightarrow> catalog_rates \<Rightarrow> nat \<Rightarrow> catalog_rates" where
  "select_tier input [] selected threshold = selected"
| "select_tier input (tier # tiers) selected threshold =
     (if input < ct_context_tokens tier then selected
      else if threshold \<le> ct_context_tokens tier then select_tier input tiers (ct_rates tier) (ct_context_tokens tier)
      else select_tier input tiers selected threshold)"

definition rates_for_input :: "catalog_cost \<Rightarrow> nat \<Rightarrow> catalog_rates" where
  "rates_for_input cost input =
     (let (selected, threshold) =
        (case cc_over_200k cost of
           Some rates \<Rightarrow> if input \<ge> 200000 then (rates, 200000) else (cc_rates cost, 0)
         | None \<Rightarrow> (cc_rates cost, 0))
      in select_tier input (cc_tiers cost) selected threshold)"

definition pricing_of_catalog :: "catalog_rates \<Rightarrow> model_pricing" where
  "pricing_of_catalog r =
     \<lparr>per_input = Some (cr_input r), per_output = Some (cr_output r), per_reasoning = cr_reasoning r,
      per_cache_read = cr_cache_read r, per_cache_write = cr_cache_write r\<rparr>"

subsection \<open>The cost of a request\<close>

definition category_cost :: "nat \<Rightarrow> nat option \<Rightarrow> nat option" where
  "category_cost tokens rate =
     (if tokens = 0 then Some 0 else Option.bind rate (\<lambda>rate. checked_within U128_MAX (rate * tokens)))"

fun split_from :: "nat option \<Rightarrow> (nat option \<times> nat option) list \<Rightarrow> nat \<Rightarrow> nat \<Rightarrow> nat option" where
  "split_from base [] remaining cost =
     Option.bind (category_cost remaining base) (\<lambda>c. checked_within U128_MAX (cost + c))"
| "split_from base ((reported, rate) # categories) remaining cost =
     (if rate = base then split_from base categories remaining cost
      else Option.bind reported (\<lambda>tokens.
        if tokens \<le> remaining then
          Option.bind (category_cost tokens rate) (\<lambda>c.
            Option.bind (checked_within U128_MAX (cost + c)) (\<lambda>cost. split_from base categories (remaining - tokens) cost))
        else None))"

definition split_cost :: "nat \<Rightarrow> nat option \<Rightarrow> (nat option \<times> nat option) list \<Rightarrow> nat option" where
  "split_cost inclusive base categories = split_from base categories inclusive 0"

definition either :: "nat option \<Rightarrow> nat option \<Rightarrow> nat option" where
  "either a b = (if a = None then b else a)"

definition request_cost :: "token_usage \<Rightarrow> model_pricing \<Rightarrow> nat option" where
  "request_cost u r =
     Option.bind (u_input u) (\<lambda>input.
       Option.bind (u_output u) (\<lambda>output.
         Option.bind (split_cost input (per_input r)
             [(u_cache_read u, either (per_cache_read r) (per_input r)), (u_cache_write u, either (per_cache_write r) (per_input r))])
           (\<lambda>input_cost.
             Option.bind (split_cost output (per_output r) [(u_reasoning u, either (per_reasoning r) (per_output r))])
               (\<lambda>output_cost. checked_within U128_MAX (input_cost + output_cost)))))"

definition rounded_pico_usd :: "nat \<Rightarrow> nat option" where
  "rounded_pico_usd numerator =
     Option.bind (checked_within U128_MAX (numerator + TOKENS_PER_MILLION div 2))
       (\<lambda>n. checked_within U64_MAX (n div TOKENS_PER_MILLION))"

definition estimated_cost_pico_usd :: "('k \<rightharpoonup> model_pricing) \<Rightarrow> ('k \<rightharpoonup> catalog_cost) \<Rightarrow> 'k \<Rightarrow> token_usage \<Rightarrow> nat option" where
  "estimated_cost_pico_usd pricing catalog model u =
     Option.bind
       (case pricing model of
          Some rates \<Rightarrow> Some rates
        | None \<Rightarrow> Option.bind (u_input u) (\<lambda>input.
            map_option (\<lambda>cost. pricing_of_catalog (rates_for_input cost input)) (catalog model)))
       (\<lambda>rates. Option.bind (request_cost u rates) rounded_pico_usd)"

definition recache_cost_pico_usd :: "('k \<rightharpoonup> model_pricing) \<Rightarrow> ('k \<rightharpoonup> catalog_cost) \<Rightarrow> 'k \<Rightarrow> nat \<Rightarrow> nat option" where
  "recache_cost_pico_usd pricing catalog model tokens =
     Option.bind
       (case pricing model of
          Some rates \<Rightarrow> Some rates
        | None \<Rightarrow> map_option (\<lambda>cost. pricing_of_catalog (rates_for_input cost tokens)) (catalog model))
       (\<lambda>rates. Option.bind (either (per_cache_write rates) (per_input rates))
         (\<lambda>rate. Option.bind (category_cost tokens (Some rate)) rounded_pico_usd))"

subsection \<open>Digits\<close>

lemma digits_value_append: "digits_value (s @ t) = digits_value s * 10 ^ length t + digits_value t"
proof (induction t rule: rev_induct)
  case (snoc c t)
  have "digits_value (s @ t @ [c]) = digits_value (s @ t) * 10 + (of_char c - 48)"
    using digits_value_snoc [of "s @ t" c] by simp
  with snoc show ?case by (simp add: digits_value_snoc algebra_simps)
qed (simp add: digits_value_def)

lemma digits_value_bound: "list_all is_ascii_digit s \<Longrightarrow> digits_value s < 10 ^ length s"
proof (induction s rule: rev_induct)
  case (snoc c s)
  then have "digits_value s < 10 ^ length s" "of_char c - (48 :: nat) < 10" by (auto simp: is_ascii_digit_def)
  then show ?case by (simp add: digits_value_snoc)
qed (simp add: digits_value_def)

lemma digits_value_Nil [simp]: "digits_value [] = 0"
  by (simp add: digits_value_def)

lemma digits_value_Cons: "digits_value (c # s) = (of_char c - 48) * 10 ^ length s + digits_value s"
  using digits_value_append [of "[c]" s] by (simp add: digits_value_def)

lemma zero_char: "of_char c = (48 :: nat) \<longleftrightarrow> c = CHR ''0''"
proof
  assume "of_char c = (48 :: nat)"
  then have "char_of (of_char c :: nat) = (char_of (48 :: nat) :: char)" by simp
  also have "char_of (48 :: nat) = CHR ''0''" by code_simp
  finally show "c = CHR ''0''" by simp
qed simp

lemma digits_value_trimmed: "digits_value (trim_start_of (\<lambda>c. c = CHR ''0'') s) = digits_value s"
  by (induction s) (simp_all add: trim_start_of_def digits_value_Cons)

lemma digits_value_zero:
  "list_all is_ascii_digit s \<Longrightarrow> digits_value s = 0 \<longleftrightarrow> list_all (\<lambda>c. c = CHR ''0'') s"
proof (induction s)
  case (Cons c s)
  have "of_char c - (48 :: nat) = 0 \<longleftrightarrow> c = CHR ''0''"
    using Cons.prems zero_char [of c] by (auto simp: is_ascii_digit_def)
  with Cons show ?case by (simp add: digits_value_Cons)
qed simp

text \<open>The value in units of ten to the minus twelve, rounded or exact.\<close>

definition pico_value :: "nat \<Rightarrow> int \<Rightarrow> bool \<Rightarrow> nat option" where
  "pico_value digits shift round =
     (if shift \<ge> 0 then checked_within U128_MAX (digits * 10 ^ nat shift)
      else (let p = 10 ^ nat (- shift)
            in if round then checked_within U128_MAX ((2 * digits + p) div (2 * p))
               else if p dvd digits then checked_within U128_MAX (digits div p) else None))"

lemma checked_power: "checked_power_of_ten n = checked_within U128_MAX (10 ^ n)"
  by (induction n) (auto simp: checked_within_def U128_MAX_def)

lemma parse_digits_u128:
  "list_all is_ascii_digit s \<Longrightarrow> s \<noteq> [] \<Longrightarrow> parse_unsigned U128_MAX s = checked_within U128_MAX (digits_value s)"
proof -
  have "\<not> is_ascii_digit CHR ''+''" by code_simp
  then show "list_all is_ascii_digit s \<Longrightarrow> s \<noteq> [] \<Longrightarrow> ?thesis"
    by (cases s) (auto simp: parse_unsigned_def checked_within_def Let_def not_le)
qed

lemma first_digit_half:
  assumes "list_all is_ascii_digit s" "s \<noteq> []"
  shows "of_char CHR ''5'' \<le> (of_char (hd s) :: nat) \<longleftrightarrow> 10 ^ length s \<le> 2 * digits_value s"
proof -
  obtain c cs where s: "s = c # cs" using assms(2) by (auto simp: neq_Nil_conv)
  let ?d = "of_char c - (48 :: nat)" and ?p = "10 ^ length cs :: nat"
  have five: "of_char CHR ''5'' = (53 :: nat)" by code_simp
  have d: "of_char CHR ''5'' \<le> (of_char c :: nat) \<longleftrightarrow> 5 \<le> ?d" using assms(1) by (auto simp: s five is_ascii_digit_def)
  have r: "digits_value cs < ?p" using assms(1) by (auto simp: s intro: digits_value_bound)
  have "5 \<le> ?d \<longleftrightarrow> 10 * ?p \<le> 2 * (?d * ?p + digits_value cs)"
  proof
    assume "5 \<le> ?d"
    then have "5 * ?p \<le> ?d * ?p" by (rule mult_le_mono1)
    moreover have "10 * q \<le> 2 * (n + w)" if "5 * q \<le> n" for q n w :: nat using that by presburger
    ultimately show "10 * ?p \<le> 2 * (?d * ?p + digits_value cs)" by blast
  next
    assume le: "10 * ?p \<le> 2 * (?d * ?p + digits_value cs)"
    show "5 \<le> ?d"
    proof (rule ccontr)
      assume "\<not> 5 \<le> ?d"
      then have "?d * ?p \<le> 4 * ?p" by (intro mult_le_mono1) simp
      moreover have "False" if "n \<le> 4 * q" "w < q" "10 * q \<le> 2 * (n + w)" for q n w :: nat using that by presburger
      ultimately show False using le r by blast
    qed
  qed
  with d show ?thesis by (simp add: s digits_value_Cons)
qed

lemma round_half:
  assumes "(v :: nat) < p"
  shows "(2 * (k * p + v) + p) div (2 * p) = k + (if p \<le> 2 * v then 1 else 0)"
proof -
  have "2 * (k * p + v) + p = (2 * v + p) + k * (2 * p)" by (simp add: algebra_simps)
  then have "(2 * (k * p + v) + p) div (2 * p) = k + (2 * v + p) div (2 * p)"
    using assms by (simp only: div_mult_self1)
  moreover have "(2 * v + p) div (2 * p) = (if p \<le> 2 * v then 1 else 0)"
    using assms by (auto simp: div_nat_eqI)
  ultimately show ?thesis by simp
qed

lemma shift_digits_exact:
  assumes "list_all is_ascii_digit s" "s \<noteq> []" "hd s \<noteq> CHR ''0''"
  shows "shift_digits s shift round = pico_value (digits_value s) shift round"
proof (cases "shift \<ge> 0")
  case True
  have pos: "0 < digits_value s" using digits_value_pos [OF assms] .
  have "digits_value s \<le> digits_value s * 10 ^ nat shift" "10 ^ nat shift \<le> digits_value s * 10 ^ nat shift"
    using pos by simp_all
  then have "digits_value s * 10 ^ nat shift \<le> U128_MAX \<Longrightarrow> digits_value s \<le> U128_MAX \<and> 10 ^ nat shift \<le> U128_MAX"
    by linarith
  then show ?thesis
    using True by (auto simp: shift_digits_def pico_value_def parse_digits_u128 [OF assms(1,2)] checked_power checked_within_def)
next
  case False
  define x where "x = nat (- shift)"
  define kept where "kept = take (length s - x) s"
  define dropped where "dropped = drop (length s - x) s"
  have x: "0 < x" using False by (simp add: x_def)
  have split: "s = kept @ dropped" by (simp add: kept_def dropped_def)
  have digits: "list_all is_ascii_digit kept" "list_all is_ascii_digit dropped" using assms(1) unfolding split by simp_all
  have "length s - x < length s" using x assms(2) by simp
  then have some: "dropped \<noteq> []" by (simp add: dropped_def)
  let ?k = "digits_value kept" and ?v = "digits_value dropped" and ?p = "10 ^ x :: nat"
  have len: "length dropped \<le> x" by (simp add: dropped_def)
  have v: "?v < ?p" using digits_value_bound [OF digits(2)] power_increasing [OF len, of "10::nat"] by linarith
  have parts: "digits_value s = ?k * ?p + ?v"
  proof (cases "x \<le> length s")
    case True
    then have "length dropped = x" by (simp add: dropped_def)
    then show ?thesis unfolding split by (simp add: digits_value_append)
  next
    case False
    then have "kept = []" by (simp add: kept_def)
    then show ?thesis by (simp add: split)
  qed
  have half: "x \<le> length s \<and> of_char CHR ''5'' \<le> (of_char (hd dropped) :: nat) \<longleftrightarrow> ?p \<le> 2 * ?v"
  proof (cases "x \<le> length s")
    case True
    then have "length dropped = x" by (simp add: dropped_def)
    with True show ?thesis using first_digit_half [OF digits(2) some] by simp
  next
    case False
    then have less: "length dropped < x" by (simp add: dropped_def)
    then have "10 * 10 ^ length dropped \<le> ?p" using power_increasing [of "Suc (length dropped)" x "10::nat"] by simp
    then have "2 * ?v < ?p" using digits_value_bound [OF digits(2)] by linarith
    with False show ?thesis by simp
  qed
  have zero: "list_all (\<lambda>c. c = CHR ''0'') dropped \<longleftrightarrow> ?v = 0" using digits_value_zero [OF digits(2)] by simp
  have dvd: "?p dvd digits_value s \<longleftrightarrow> ?v = 0" "?v = 0 \<Longrightarrow> digits_value s div ?p = ?k"
    using v by (auto simp: parts dvd_add_right_iff dest: nat_dvd_not_less)
  have kept: "(if kept = [] then Some 0 else parse_unsigned U128_MAX kept) = checked_within U128_MAX ?k"
    using parse_digits_u128 [OF digits(1)] by (auto simp: checked_within_def)
  have shifted: "shift_digits s shift round
      = (if \<not> round \<and> ?v \<noteq> 0 then None
         else Option.bind (checked_within U128_MAX ?k) (\<lambda>k. checked_within U128_MAX (k + (if round \<and> ?p \<le> 2 * ?v then 1 else 0))))"
    using False half zero kept unfolding shift_digits_def Let_def x_def [symmetric] kept_def [symmetric] dropped_def [symmetric]
    by simp
  show ?thesis
  proof (cases round)
    case True
    have "(2 * digits_value s + ?p) div (2 * ?p) = ?k + (if ?p \<le> 2 * ?v then 1 else 0)"
      unfolding parts by (rule round_half [OF v])
    with True False show ?thesis
      unfolding shifted pico_value_def Let_def x_def [symmetric] by (auto simp: checked_within_def)
  next
    case exact: False
    with False dvd show ?thesis
      unfolding shifted pico_value_def Let_def x_def [symmetric] by (auto simp: checked_within_def)
  qed
qed

lemma decimal_parts_digits:
  "decimal_parts value = Some (w, f, e) \<Longrightarrow> list_all is_ascii_digit (w @ f)"
  by (auto simp: decimal_parts_def Let_def split: if_splits prod.splits option.splits)

lemma parse_decimal_value:
  "parse_decimal value round
    = (case decimal_parts value of
         None \<Rightarrow> None
       | Some (whole, fraction, exponent) \<Rightarrow>
           (let digits = digits_value (whole @ fraction); shift = SCALE + exponent - int (length fraction)
            in if digits = 0 then Some 0
               else if i32_of (int (length fraction)) \<noteq> None \<and> i32_of (SCALE + exponent) \<noteq> None \<and> i32_of shift \<noteq> None
               then pico_value digits shift round else None))"
proof (cases "decimal_parts value")
  case (Some p)
  obtain w f e where p: "p = (w, f, e)" by (cases p)
  let ?s = "trim_start_of (\<lambda>c. c = CHR ''0'') (w @ f)"
  have digits: "list_all is_ascii_digit (w @ f)" using decimal_parts_digits Some p by blast
  then have s: "list_all is_ascii_digit ?s" by (auto simp: trim_start_of_def list_all_iff dest: set_dropWhileD)
  have lead: "?s \<noteq> [] \<Longrightarrow> hd ?s \<noteq> CHR ''0''" unfolding trim_start_of_def by (rule hd_dropWhile)
  have empty: "?s = [] \<longleftrightarrow> digits_value (w @ f) = 0"
    using digits_value_zero [OF digits] by (auto simp: trim_start_of_def list_all_iff)
  show ?thesis
  proof (cases "?s = []")
    case True
    with empty show ?thesis by (simp add: parse_decimal_def Some p)
  next
    case False
    with empty shift_digits_exact [OF s False lead [OF False]] digits_value_trimmed [of "w @ f"]
    show ?thesis by (auto simp: parse_decimal_def Some p i32_of_def Let_def)
  qed
qed (simp add: parse_decimal_def)

lemma exact_is_rounded: "from_decimal_str value = Some n \<Longrightarrow> from_decimal_str_rounded value = Some n"
proof -
  have "pico_value digits shift False = Some n \<Longrightarrow> pico_value digits shift True = Some n" for digits shift
  proof (cases "shift \<ge> 0")
    case False
    assume "pico_value digits shift False = Some n"
    then obtain k where k: "digits = 10 ^ nat (- shift) * k" "checked_within U128_MAX k = Some n"
      using False by (auto simp: pico_value_def Let_def split: if_splits elim!: dvdE)
    have "(2 * digits + 10 ^ nat (- shift)) div (2 * 10 ^ nat (- shift)) = k"
      using round_half [of 0 "10 ^ nat (- shift)" k] by (simp add: k(1) mult.commute)
    with False k(2) show "pico_value digits shift True = Some n"
      by (simp add: pico_value_def Let_def)
  qed (simp add: pico_value_def)
  then show "from_decimal_str value = Some n \<Longrightarrow> ?thesis"
    by (auto simp: from_decimal_str_def from_decimal_str_rounded_def parse_decimal_value Let_def split: option.splits if_splits)
qed

lemma show_nat_length: "n < 10 ^ k \<Longrightarrow> 0 < k \<Longrightarrow> length (show_nat n) \<le> k"
proof (induction n arbitrary: k rule: show_nat.induct)
  case (1 n)
  show ?case
  proof (cases "n < 10")
    case True
    with "1.prems" show ?thesis by (simp add: show_nat.simps [of n])
  next
    case False
    then have "1 < k" using "1.prems" by (cases k) (auto intro: gr0I)
    then obtain j where k: "k = Suc j" "0 < j" using Suc_lessE [of 1 k] by (metis One_nat_def Suc_less_eq less_imp_Suc_add zero_less_Suc)
    then have "n div 10 < 10 ^ j" using "1.prems" by auto
    with "1.IH" [OF False _ k(2)] False k show ?thesis by (simp add: show_nat.simps [of n])
  qed
qed

lemma digits_value_zeros: "digits_value (replicate k CHR ''0'') = 0"
  by (induction k) (simp_all add: digits_value_Cons)

lemma padded_fraction:
  assumes "n < 1000000000000"
  shows "length (padded_fraction n) = 12" "digits_value (padded_fraction n) = n" "list_all is_ascii_digit (padded_fraction n)"
proof -
  have "length (show_nat n) \<le> 12" using show_nat_length [of n 12] assms by simp
  then show "length (padded_fraction n) = 12" by (simp add: padded_fraction_def)
  show "digits_value (padded_fraction n) = n"
    by (simp add: padded_fraction_def digits_value_append digits_value_zeros digits_value_show)
  have "is_ascii_digit CHR ''0''" by code_simp
  then show "list_all is_ascii_digit (padded_fraction n)"
    using show_nat_digits by (auto simp: padded_fraction_def list_all_iff)
qed

lemma trim_zeros: "\<exists>k. s = trim_end_of (\<lambda>c. c = CHR ''0'') s @ replicate k CHR ''0''"
proof (induction s rule: rev_induct)
  case (snoc c s)
  show ?case
  proof (cases "c = CHR ''0''")
    case True
    from snoc obtain k where k: "s = trim_end_of (\<lambda>c. c = CHR ''0'') s @ replicate k CHR ''0''" by blast
    have "trim_end_of (\<lambda>c. c = CHR ''0'') (s @ [c]) @ replicate (Suc k) CHR ''0''
        = (trim_end_of (\<lambda>c. c = CHR ''0'') s @ replicate k CHR ''0'') @ [c]"
      using True by (simp add: trim_end_of_def replicate_append_same)
    also have "\<dots> = s @ [c]" using k by simp
    finally show ?thesis by metis
  qed (simp add: trim_end_of_def)
qed (simp add: trim_end_of_def)

lemma trim_id: "list_all (\<lambda>c. \<not> is_whitespace c) s \<Longrightarrow> trim s = s"
proof -
  assume "list_all (\<lambda>c. \<not> is_whitespace c) s"
  then have "dropWhile is_whitespace s = s" "dropWhile is_whitespace (rev s) = rev s"
    by (auto simp: dropWhile_eq_self_iff list_all_iff hd_rev)
  then show ?thesis by (simp add: trim_def trim_of_def trim_start_of_def trim_end_of_def)
qed

definition number_char :: "char \<Rightarrow> bool" where
  "number_char c \<longleftrightarrow> is_ascii_digit c \<or> c = CHR ''.''"

lemma number_char_no [simp]:
  "number_char c \<Longrightarrow> \<not> is_whitespace c" "number_char c \<Longrightarrow> c \<noteq> CHR ''-''" "number_char c \<Longrightarrow> c \<noteq> CHR ''+''"
  "number_char c \<Longrightarrow> \<not> is_exponent_mark c"
  by (auto simp: number_char_def is_whitespace_def is_ascii_digit_def is_exponent_mark_def)

lemma position_exponent: "list_all number_char s \<Longrightarrow> position is_exponent_mark s = None"
  by (auto simp: position_None list_all_iff)

lemma split_once_point: "CHR ''.'' \<notin> set w \<Longrightarrow> split_once (w @ CHR ''.'' # f) ''.'' = Some (w, f)"
  by (induction w) auto

lemma split_once_no_point: "CHR ''.'' \<notin> set w \<Longrightarrow> split_once w ''.'' = None"
  by (induction w) auto

lemma point_not_digit: "list_all is_ascii_digit w \<Longrightarrow> CHR ''.'' \<notin> set w"
  by (auto simp: list_all_iff is_ascii_digit_def)

lemma decimal_parts_plain:
  assumes "list_all is_ascii_digit w" "list_all is_ascii_digit f" "w \<noteq> []"
  shows "decimal_parts (if f = [] then w else w @ CHR ''.'' # f) = Some (w, f, 0)"
proof -
  let ?s = "if f = [] then w else w @ CHR ''.'' # f"
  have chars: "list_all number_char ?s" using assms by (auto simp: list_all_iff number_char_def)
  have trimmed: "trim ?s = ?s" by (rule trim_id) (use chars in \<open>auto simp: list_all_iff\<close>)
  obtain c cs where s: "?s = c # cs" using assms(3) by (cases ?s) (auto split: if_splits)
  then have c: "number_char c" using chars unfolding s by simp
  have signs: "\<not> starts_with ?s ''-''" "strip_prefix ''+'' ?s = None"
    unfolding s using number_char_no(2,3) [OF c] by (auto simp: starts_with_def)
  have exponent: "coefficient_exponent ?s = (?s, 0)"
    using position_exponent [OF chars] by (simp add: coefficient_exponent_def)
  have pieces: "(case split_once ?s ''.'' of Some p \<Rightarrow> p | None \<Rightarrow> (?s, [])) = (w, f)"
    using split_once_point [OF point_not_digit [OF assms(1)]] split_once_no_point [OF point_not_digit [OF assms(1)]] by simp
  have some: "?s \<noteq> []" using assms(3) by simp
  show ?thesis
    unfolding decimal_parts_def Let_def trimmed signs(2) option.case exponent prod.case pieces
    using some signs(1) assms by simp
qed

text \<open>
  C33. A rate survives its text: every rate is read back from the decimal text that is written of it, exactly
  and when rounding.
\<close>

theorem rate_text_roundtrip:
  assumes "value \<le> U128_MAX"
  shows "parse_decimal (decimal_string value) round = Some value"
proof -
  define frac where "frac = value mod 1000000000000"
  define f where "f = (if frac = 0 then [] else trim_end_of (\<lambda>c. c = CHR ''0'') (padded_fraction frac))"
  let ?w = "show_nat (value div 1000000000000)"
  have less: "frac < 1000000000000" by (simp add: frac_def)
  note padded = padded_fraction [OF less]
  have parts: "length f \<le> 12 \<and> list_all is_ascii_digit f \<and> digits_value f * 10 ^ (12 - length f) = frac"
  proof (cases "frac = 0")
    case False
    obtain k where k: "padded_fraction frac = f @ replicate k CHR ''0''"
      using trim_zeros [of "padded_fraction frac"] False by (auto simp: f_def)
    then have "k = 12 - length f" "length f \<le> 12" using padded(1) by auto
    with padded(2,3) show ?thesis by (simp add: k digits_value_append digits_value_zeros)
  qed (simp add: f_def)
  have some: "f \<noteq> [] \<longleftrightarrow> frac \<noteq> 0" using parts by (auto simp: f_def)
  have w: "list_all is_ascii_digit ?w" "?w \<noteq> []" using show_nat_digits by (auto simp: list_all_iff show_nat_not_Nil)
  have written: "decimal_string value = (if f = [] then ?w else ?w @ CHR ''.'' # f)"
    using some by (auto simp: decimal_string_def frac_def [symmetric] f_def Let_def)
  have digits: "digits_value (?w @ f) * 10 ^ (12 - length f) = value"
  proof -
    have "digits_value (?w @ f) * 10 ^ (12 - length f)
        = value div 1000000000000 * (10 ^ length f * 10 ^ (12 - length f)) + digits_value f * 10 ^ (12 - length f)"
      by (simp add: digits_value_append digits_value_show algebra_simps)
    also have "10 ^ length f * 10 ^ (12 - length f) = (10 :: nat) ^ 12"
      using parts by (simp add: power_add [symmetric])
    also have "value div 1000000000000 * 10 ^ 12 + digits_value f * 10 ^ (12 - length f) = value"
      using parts by (simp add: frac_def)
    finally show ?thesis .
  qed
  have shift: "nat (12 - int (length f)) = 12 - length f" using parts by linarith
  have small: "i32_of (int (length f)) \<noteq> None" "i32_of 12 \<noteq> None" "i32_of (12 - int (length f)) \<noteq> None"
    using parts by (auto simp: i32_of_def)
  have result: "pico_value (digits_value (?w @ f)) (12 - int (length f)) round = Some value"
    using parts digits assms by (simp add: pico_value_def shift checked_within_def)
  have zero: "digits_value (?w @ f) = 0 \<Longrightarrow> value = 0" using digits by simp
  show ?thesis
    unfolding parse_decimal_value written decimal_parts_plain [OF w(1) conjunct1 [OF conjunct2 [OF parts]] w(2)]
    using small result zero by (simp add: SCALE_def Let_def)
qed

subsection \<open>The grammar of a rate\<close>

text \<open>A whole number with its sign, in the range of an \<open>i32\<close>.\<close>

definition i32 :: "int \<Rightarrow> bool" where
  "i32 i \<longleftrightarrow> - (2 ^ 31) \<le> i \<and> i < 2 ^ 31"

definition digit_text :: "string \<Rightarrow> bool" where
  "digit_text t \<longleftrightarrow> (\<forall>c\<in>set t. c \<in> set ''0123456789'')"

definition integer_text :: "string \<Rightarrow> int \<Rightarrow> bool" where
  "integer_text t e \<longleftrightarrow>
     (\<exists>digits. digits \<noteq> [] \<and> digit_text digits \<and> i32 e
       \<and> (t = ''-'' @ digits \<and> e = - int (digits_value digits)
          \<or> (t = digits \<or> t = ''+'' @ digits) \<and> e = int (digits_value digits)))"

text \<open>
  Blanks, a plus or none, digits \<open>w\<close> with a point and digits \<open>f\<close> (a digit at least), an exponent or none,
  blanks.
\<close>

definition decimal_text :: "string \<Rightarrow> string \<Rightarrow> string \<Rightarrow> int \<Rightarrow> bool" where
  "decimal_text value w f e \<longleftrightarrow>
     (\<exists>before sign number mark after.
        value = before @ sign @ number @ mark @ after
        \<and> list_all is_whitespace before \<and> list_all is_whitespace after \<and> sign \<in> {[], ''+''}
        \<and> digit_text w \<and> digit_text f \<and> (w \<noteq> [] \<or> f \<noteq> [])
        \<and> (number = w \<and> f = [] \<or> number = w @ ''.'' @ f)
        \<and> (mark = [] \<and> e = 0 \<or> (\<exists>c t. c \<in> {CHR ''e'', CHR ''E''} \<and> mark = c # t \<and> integer_text t e)))"

text \<open>
  What a number of \<open>digits\<close> moved by \<open>shift\<close> places is as a rate: the exact value, or the nearest one with
  halves going up.
\<close>

definition is_rate :: "nat \<Rightarrow> int \<Rightarrow> bool \<Rightarrow> nat \<Rightarrow> bool" where
  "is_rate digits shift round n \<longleftrightarrow> n \<le> U128_MAX \<and>
     (if shift \<ge> 0 then n = digits * 10 ^ nat shift
      else (let p = 10 ^ nat (- shift)
            in if round then 2 * n * p \<le> 2 * digits + p \<and> 2 * digits + p < 2 * (n + 1) * p else n * p = digits))"

lemma digit_text_ascii: "digit_text t \<longleftrightarrow> list_all is_ascii_digit t"
proof -
  have "is_ascii_digit c \<longleftrightarrow> c \<in> set ''0123456789''" for c
  proof
    assume "is_ascii_digit c"
    moreover have "n \<in> {48, 49, 50, 51, 52, 53, 54, 55, 56, 57}" if "48 \<le> n" "n \<le> 57" for n :: nat
      using that by simp presburger
    ultimately have "of_char c \<in> {48, 49, 50, 51, 52, 53, 54, 55, 56, 57 :: nat}" by (simp only: is_ascii_digit_def)
    then have "char_of (of_char c :: nat) \<in> char_of ` {48, 49, 50, 51, 52, 53, 54, 55, 56, 57 :: nat}" by (rule imageI)
    moreover have "map char_of [48, 49, 50, 51, 52, 53, 54, 55, 56, 57 :: nat] = ''0123456789''" by code_simp
    ultimately show "c \<in> set ''0123456789''" by simp
  next
    have "list_all is_ascii_digit ''0123456789''" by code_simp
    then show "c \<in> set ''0123456789'' \<Longrightarrow> is_ascii_digit c" by auto
  qed
  then show ?thesis by (simp add: digit_text_def list_all_iff)
qed

lemma pico_value_rate: "pico_value digits shift round = Some n \<longleftrightarrow> is_rate digits shift round n"
proof (cases "shift \<ge> 0")
  case True
  then show ?thesis by (auto simp: pico_value_def is_rate_def checked_within_def)
next
  case False
  define p where "p = (10 :: nat) ^ nat (- shift)"
  have p: "0 < p" by (simp add: p_def)
  have "(2 * digits + p) div (2 * p) = n \<longleftrightarrow> 2 * n * p \<le> 2 * digits + p \<and> 2 * digits + p < 2 * (n + 1) * p"
    using p div_nat_eqI [of "2 * p" n "2 * digits + p"] dividend_less_times_div [of "2 * p" "2 * digits + p"]
      div_times_less_eq_dividend [of "2 * digits + p" "2 * p"]
    by (auto simp: algebra_simps)
  moreover have "p dvd digits \<and> digits div p = n \<longleftrightarrow> n * p = digits" using p by auto
  ultimately show ?thesis
    using False unfolding pico_value_def is_rate_def Let_def p_def [symmetric] by (auto simp: checked_within_def)
qed

lemma trim_pad:
  assumes "list_all is_whitespace before" "list_all is_whitespace after" "list_all (\<lambda>c. \<not> is_whitespace c) s"
  shows "trim (before @ s @ after) = s"
proof -
  have "dropWhile is_whitespace (before @ s @ after) = dropWhile is_whitespace (s @ after)"
    using assms(1) by (simp add: dropWhile_append2 list_all_iff)
  also have "\<dots> = (if s = [] then [] else s @ after)"
    using assms(2,3) by (cases s) (auto simp: list_all_iff dropWhile_eq_Nil_conv)
  finally have start: "dropWhile is_whitespace (before @ s @ after) = (if s = [] then [] else s @ after)" .
  have "dropWhile is_whitespace (rev after @ rev s) = dropWhile is_whitespace (rev s)"
    using assms(2) by (intro dropWhile_append2) (auto simp: list_all_iff)
  also have "\<dots> = rev s"
    using assms(3) by (cases "rev s") (auto simp: list_all_iff dest: arg_cong [where f = rev])
  finally show ?thesis
    using start by (simp add: trim_def trim_of_def trim_start_of_def trim_end_of_def)
qed

lemma trim_parts: "\<exists>before after. s = before @ trim s @ after \<and> list_all is_whitespace before \<and> list_all is_whitespace after"
proof -
  let ?a = "takeWhile is_whitespace s" and ?m = "dropWhile is_whitespace s"
  let ?b = "rev (takeWhile is_whitespace (rev ?m))"
  have "?m = rev (dropWhile is_whitespace (rev ?m)) @ ?b"
    by (metis rev_append rev_rev_ident takeWhile_dropWhile_id)
  then have "s = ?a @ trim s @ ?b"
    by (metis takeWhile_dropWhile_id trim_def trim_of_def trim_start_of_def trim_end_of_def)
  moreover have "list_all is_whitespace ?a" "list_all is_whitespace ?b"
    by (auto simp: list_all_iff dest: set_takeWhileD)
  ultimately show ?thesis by blast
qed

lemma digit_plain:
  "is_ascii_digit c \<Longrightarrow> \<not> is_whitespace c \<and> c \<noteq> CHR ''-'' \<and> c \<noteq> CHR ''+'' \<and> c \<noteq> CHR ''.'' \<and> \<not> is_exponent_mark c"
  by (auto simp: is_whitespace_def is_ascii_digit_def is_exponent_mark_def)

lemma point_plain: "\<not> is_whitespace CHR ''.''" "\<not> is_exponent_mark CHR ''.''" "\<not> is_ascii_digit CHR ''.''"
  "\<not> is_whitespace CHR ''+''" "\<not> is_whitespace CHR ''-''" "\<not> is_ascii_digit CHR ''+''" "\<not> is_ascii_digit CHR ''-''"
  "\<not> is_whitespace CHR ''e''" "\<not> is_whitespace CHR ''E''"
  by code_simp+

lemma i32_of_Some: "i32_of i = Some j \<longleftrightarrow> i32 i \<and> j = i"
  by (auto simp: i32_of_def i32_def)

lemma integer_text_parse: "parse_i32 t = Some e \<longleftrightarrow> integer_text t e"
proof (cases t)
  case Nil
  then show ?thesis by (simp add: parse_i32_def integer_text_def)
next
  case (Cons c cs)
  consider "c = CHR ''-''" | "c = CHR ''+''" | "c \<noteq> CHR ''-''" "c \<noteq> CHR ''+''" by blast
  then show ?thesis
  proof cases
    case 1
    then show ?thesis
      using point_plain(7) by (auto simp: Cons parse_i32_def integer_text_def digit_text_ascii i32_of_Some)
  next
    case 2
    have "int (digits_value cs) < 2 ^ 31 \<longleftrightarrow> digits_value cs \<le> 2 ^ 31 - 1" by auto
    with 2 show ?thesis
      using point_plain(6)
      by (auto simp: Cons parse_i32_def parse_unsigned_def integer_text_def digit_text_ascii i32_def Let_def)
  next
    case 3
    have "int (digits_value (c # cs)) < 2 ^ 31 \<longleftrightarrow> digits_value (c # cs) \<le> 2 ^ 31 - 1" by auto
    with 3 show ?thesis
      by (auto simp: Cons parse_i32_def parse_unsigned_def integer_text_def digit_text_ascii i32_def Let_def)
  qed
qed

lemma position_first: "position P (s @ c # t) = Some (length s)" if "list_all (\<lambda>c. \<not> P c) s" "P c"
  using that by (induction s) auto

lemma position_split:
  "position P s = Some i \<Longrightarrow> s = take i s @ s ! i # drop (Suc i) s \<and> P (s ! i) \<and> list_all (\<lambda>c. \<not> P c) (take i s)"
proof -
  assume "position P s = Some i"
  then have "i < length s" "P (s ! i)" "\<And>k. k < i \<Longrightarrow> \<not> P (s ! k)"
    using position_Some [of P s i] position_before [of P s i] by auto
  then show ?thesis by (auto simp: id_take_nth_drop [symmetric] list_all_length)
qed

lemma split_once_point_Some:
  "split_once s ''.'' = Some (a, b) \<longleftrightarrow> s = a @ ''.'' @ b \<and> CHR ''.'' \<notin> set a"
proof (induction s arbitrary: a)
  case (Cons c s)
  then show ?case by (cases a) auto
qed simp

lemma split_once_point_None: "split_once s ''.'' = None \<longleftrightarrow> CHR ''.'' \<notin> set s"
  by (induction s) auto

lemma number_pieces:
  "(case split_once s ''.'' of Some p \<Rightarrow> p | None \<Rightarrow> (s, [])) = (w, f) \<and> digit_text w \<and> digit_text f
    \<longleftrightarrow> digit_text w \<and> digit_text f \<and> (s = w \<and> f = [] \<or> s = w @ ''.'' @ f)"
proof (cases "split_once s ''.''")
  case None
  then have "CHR ''.'' \<notin> set s" by (simp add: split_once_point_None)
  with None show ?thesis by auto
next
  case (Some p)
  obtain a b where p: "p = (a, b)" by (cases p)
  with Some have s: "s = a @ ''.'' @ b" "CHR ''.'' \<notin> set a" by (simp_all add: split_once_point_Some)
  have nodot: "CHR ''.'' \<notin> set w" if "digit_text w" for w
    using that point_not_digit by (simp add: digit_text_ascii)
  have "\<not> digit_text s" using nodot [of s] s(1) by auto
  moreover have "a = w \<and> b = f" if "a @ ''.'' @ b = w @ ''.'' @ f" "CHR ''.'' \<notin> set w" for w f
  proof -
    have "split_once (a @ ''.'' @ b) ''.'' = Some (w, f)" using split_once_point_Some that by blast
    moreover have "split_once (a @ ''.'' @ b) ''.'' = Some (a, b)" using split_once_point_Some s(2) by blast
    ultimately show ?thesis by simp
  qed
  ultimately show ?thesis using Some p s nodot by auto
qed

lemma coefficient_exponent_text:
  "coefficient_exponent s = (n, e) \<and> n \<noteq> [] \<and> list_all (\<lambda>c. \<not> is_exponent_mark c) n
    \<longleftrightarrow> n \<noteq> [] \<and> list_all (\<lambda>c. \<not> is_exponent_mark c) n
      \<and> (\<exists>mark. s = n @ mark \<and> (mark = [] \<and> e = 0 \<or> (\<exists>c t. is_exponent_mark c \<and> mark = c # t \<and> integer_text t e)))"
  (is "?l \<longleftrightarrow> ?r")
proof
  assume l: ?l
  show ?r
  proof (cases "position is_exponent_mark s")
    case None
    with l show ?thesis by (auto simp: coefficient_exponent_def)
  next
    case (Some i)
    note split = position_split [OF Some]
    from l Some obtain e' where "parse_i32 (drop (Suc i) s) = Some e'" "n = take i s" "e = e'"
      by (auto simp: coefficient_exponent_def split: option.splits)
    with l split show ?thesis by (metis integer_text_parse)
  qed
next
  assume r: ?r
  then obtain mark where s: "s = n @ mark"
    and mark: "mark = [] \<and> e = 0 \<or> (\<exists>c t. is_exponent_mark c \<and> mark = c # t \<and> integer_text t e)" by blast
  from mark show ?l
  proof
    assume "mark = [] \<and> e = 0"
    moreover have "position is_exponent_mark n = None" using r by (auto simp: position_None list_all_iff)
    ultimately show ?thesis using r s by (simp add: coefficient_exponent_def)
  next
    assume "\<exists>c t. is_exponent_mark c \<and> mark = c # t \<and> integer_text t e"
    then obtain c t where c: "is_exponent_mark c" "mark = c # t" "parse_i32 t = Some e"
      using integer_text_parse by blast
    have "position is_exponent_mark (n @ c # t) = Some (length n)" using r c(1) by (intro position_first) auto
    then show ?thesis using r s c by (simp add: coefficient_exponent_def)
  qed
qed

lemma integer_text_plain: "integer_text t e \<Longrightarrow> list_all (\<lambda>c. \<not> is_whitespace c) t"
  using digit_plain point_plain by (auto simp: integer_text_def digit_text_ascii list_all_iff)

lemma mark_chars: "is_exponent_mark c \<longleftrightarrow> c \<in> {CHR ''e'', CHR ''E''}"
  by (auto simp: is_exponent_mark_def)

lemma decimal_parts_text: "decimal_parts value = Some (w, f, e) \<longleftrightarrow> decimal_text value w f e"
proof
  let ?s = "trim value"
  let ?u = "case strip_prefix ''+'' ?s of Some rest \<Rightarrow> rest | None \<Rightarrow> ?s"
  assume parts: "decimal_parts value = Some (w, f, e)"
  obtain n e' where n: "coefficient_exponent ?u = (n, e')" by fastforce
  obtain a b where ab: "(case split_once n ''.'' of Some p \<Rightarrow> p | None \<Rightarrow> (n, [])) = (a, b)" by fastforce
  have some: "n \<noteq> []" "a = w" "b = f" "e' = e" "w \<noteq> [] \<or> f \<noteq> []" "digit_text w" "digit_text f"
    using parts n ab by (auto simp: decimal_parts_def Let_def digit_text_ascii split: if_splits)
  then have number: "n = w \<and> f = [] \<or> n = w @ ''.'' @ f" using number_pieces [of n w f] ab by blast
  have "list_all (\<lambda>c. \<not> is_exponent_mark c) n"
    using number some(6,7) digit_plain point_plain(2) by (auto simp: digit_text_ascii list_all_iff)
  with coefficient_exponent_text [of ?u n e] n some obtain mark where
    u: "?u = n @ mark" "mark = [] \<and> e = 0 \<or> (\<exists>c t. is_exponent_mark c \<and> mark = c # t \<and> integer_text t e)" by blast
  have "\<exists>sign. ?s = sign @ ?u \<and> sign \<in> {[], ''+''}"
    by (cases "strip_prefix ''+'' ?s") (auto simp: strip_prefix_Some)
  then obtain sign where sign: "?s = sign @ ?u" "sign \<in> {[], ''+''}" by blast
  obtain before after where blanks: "value = before @ ?s @ after" "list_all is_whitespace before" "list_all is_whitespace after"
    using trim_parts [of "value"] by blast
  have "value = before @ sign @ n @ mark @ after" using blanks(1) sign(1) u(1) by (metis append.assoc)
  moreover have "mark = [] \<and> e = 0 \<or> (\<exists>c t. c \<in> {CHR ''e'', CHR ''E''} \<and> mark = c # t \<and> integer_text t e)"
    using u(2) mark_chars by blast
  ultimately show "decimal_text value w f e"
    unfolding decimal_text_def using blanks(2,3) sign(2) number some(5-7) by blast
next
  assume "decimal_text value w f e"
  then obtain before sign number mark after where v: "value = before @ sign @ number @ mark @ after"
    and blank: "list_all is_whitespace before" "list_all is_whitespace after" and sign: "sign \<in> {[], ''+''}"
    and digits: "digit_text w" "digit_text f" "w \<noteq> [] \<or> f \<noteq> []" and number: "number = w \<and> f = [] \<or> number = w @ ''.'' @ f"
    and mark: "mark = [] \<and> e = 0 \<or> (\<exists>c t. c \<in> {CHR ''e'', CHR ''E''} \<and> mark = c # t \<and> integer_text t e)"
    unfolding decimal_text_def by metis
  have plain: "list_all (\<lambda>c. \<not> is_whitespace c \<and> \<not> is_exponent_mark c \<and> c \<noteq> CHR ''-'' \<and> c \<noteq> CHR ''+'') number"
    unfolding list_all_iff
  proof
    fix c assume "c \<in> set number"
    then have "is_ascii_digit c \<or> c = CHR ''.''" using number digits by (auto simp: digit_text_ascii list_all_iff)
    then show "\<not> is_whitespace c \<and> \<not> is_exponent_mark c \<and> c \<noteq> CHR ''-'' \<and> c \<noteq> CHR ''+''"
      using digit_plain [of c] point_plain(1,2) by auto
  qed
  then have no_blank: "list_all (\<lambda>c. \<not> is_whitespace c) number" and no_mark: "list_all (\<lambda>c. \<not> is_exponent_mark c) number"
    by (simp_all add: list_all_iff)
  have some: "number \<noteq> []" using number digits(3) by blast
  have "list_all (\<lambda>c. \<not> is_whitespace c) mark"
    using mark integer_text_plain point_plain(8,9) by auto
  moreover have "list_all (\<lambda>c. \<not> is_whitespace c) sign" using sign point_plain(4) by auto
  ultimately have "list_all (\<lambda>c. \<not> is_whitespace c) (sign @ number @ mark)"
    using no_blank by simp
  from trim_pad [OF blank this] have trimmed: "trim value = sign @ number @ mark" by (simp add: v)
  obtain c rest where c: "number = c # rest" "c \<noteq> CHR ''-''" "c \<noteq> CHR ''+''" using some plain by (cases number) auto
  have u: "(case strip_prefix ''+'' (sign @ number @ mark) of Some rest \<Rightarrow> rest | None \<Rightarrow> sign @ number @ mark) = number @ mark"
    using sign c by auto
  have start: "\<not> starts_with (sign @ number @ mark) ''-''" using sign c by (auto simp: starts_with_def)
  have coefficient: "coefficient_exponent (number @ mark) = (number, e)"
    using coefficient_exponent_text [of "number @ mark" number e] some no_mark mark mark_chars by blast
  have pieces: "(case split_once number ''.'' of Some p \<Rightarrow> p | None \<Rightarrow> (number, [])) = (w, f)"
    using number_pieces [of number w f] number digits by blast
  show "decimal_parts value = Some (w, f, e)"
    unfolding decimal_parts_def Let_def trimmed u coefficient prod.case pieces
    using some start digits by (auto simp: digit_text_ascii)
qed

text \<open>
  C32. A rate is read exactly. A text is read when it is a decimal: between blanks a plus or none, digits with
  at most one point (a digit at least), and perhaps an exponent with digits that fit an \<open>i32\<close>, as does the shift
  to pico-dollars. What is read is its value in pico-dollars; with more digits than that the exact
  reading refuses it and the rounded one takes the nearest, half a unit going up. Any other text, and a
  value over \<open>u128\<close>, is refused.
\<close>

theorem rate_read_exactly:
  "parse_decimal value round = Some n \<longleftrightarrow>
    (\<exists>w f e. decimal_text value w f e
      \<and> (let digits = digits_value (w @ f); shift = 12 + e - int (length f)
         in if digits = 0 then n = 0
            else i32 (int (length f)) \<and> i32 (12 + e) \<and> i32 shift \<and> is_rate digits shift round n))"
proof (cases "decimal_parts value")
  case None
  then have "\<not> decimal_text value w f e" for w f e using decimal_parts_text [of "value" w f e] by simp
  with None show ?thesis by (simp add: parse_decimal_value)
next
  case (Some p)
  obtain w f e where p: "p = (w, f, e)" by (cases p)
  then have "decimal_text value w' f' e' \<longleftrightarrow> w' = w \<and> f' = f \<and> e' = e" for w' f' e'
    using decimal_parts_text [of "value" w' f' e'] Some by auto
  then show ?thesis
    by (auto simp: parse_decimal_value Some p Let_def SCALE_def i32_of_def i32_def pico_value_rate)
qed

subsection \<open>The rates of a request\<close>

text \<open>The rates of a catalogue entry with the tokens from which they apply.\<close>

definition entries_of :: "catalog_cost \<Rightarrow> (nat \<times> catalog_rates) list" where
  "entries_of cost =
     (0, cc_rates cost) # (case cc_over_200k cost of Some rates \<Rightarrow> [(200000, rates)] | None \<Rightarrow> [])
       @ map (\<lambda>t. (ct_context_tokens t, ct_rates t)) (cc_tiers cost)"

text \<open>The entry with the highest threshold that the input reaches, the last of several.\<close>

definition highest :: "(nat \<times> 'r) list \<Rightarrow> nat \<Rightarrow> 'r \<Rightarrow> bool" where
  "highest es input r \<longleftrightarrow>
     (\<exists>pre t post. es = pre @ (t, r) # post \<and> t \<le> input
        \<and> (\<forall>e\<in>set pre. fst e \<le> input \<longrightarrow> fst e \<le> t) \<and> (\<forall>e\<in>set post. fst e \<le> input \<longrightarrow> fst e < t))"

lemma highest_Cons: "t \<le> t' \<Longrightarrow> t' \<le> input \<Longrightarrow> highest ((t', r') # es) input r \<Longrightarrow> highest ((t, r0) # (t', r') # es) input r"
proof -
  assume le: "t \<le> t'" "t' \<le> input" and "highest ((t', r') # es) input r"
  then obtain pre u post where split: "(t', r') # es = pre @ (u, r) # post" "u \<le> input"
    "\<forall>e\<in>set pre. fst e \<le> input \<longrightarrow> fst e \<le> u" "\<forall>e\<in>set post. fst e \<le> input \<longrightarrow> fst e < u"
    by (auto simp: highest_def)
  then have "t' \<le> u" using le(2) by (cases pre) auto
  with split le(1) show ?thesis
    unfolding highest_def by (intro exI [of _ "(t, r0) # pre"] exI [of _ u] exI [of _ post]) auto
qed

lemma highest_skip:
  assumes "t' < t \<or> input < t'" and "t \<le> input" and "highest ((t, r0) # es) input r"
  shows "highest ((t, r0) # (t', r') # es) input r"
proof -
  from assms(3) obtain pre u post where split: "(t, r0) # es = pre @ (u, r) # post" "u \<le> input"
    "\<forall>e\<in>set pre. fst e \<le> input \<longrightarrow> fst e \<le> u" "\<forall>e\<in>set post. fst e \<le> input \<longrightarrow> fst e < u"
    by (auto simp: highest_def)
  show ?thesis
  proof (cases pre)
    case Nil
    with split assms(1) show ?thesis
      unfolding highest_def by (intro exI [of _ "[]"] exI [of _ u] exI [of _ "(t', r') # post"]) auto
  next
    case (Cons p pre')
    with split have "t \<le> u" using assms(2) by auto
    with split assms(1) Cons show ?thesis
      unfolding highest_def by (intro exI [of _ "p # (t', r') # pre'"] exI [of _ u] exI [of _ post]) auto
  qed
qed

lemma select_tier_highest:
  "sorted (map ct_context_tokens tiers) \<Longrightarrow> threshold \<le> input \<Longrightarrow>
    highest ((threshold, selected) # map (\<lambda>t. (ct_context_tokens t, ct_rates t)) tiers) input
      (select_tier input tiers selected threshold)"
proof (induction input tiers selected threshold rule: select_tier.induct)
  case (1 input selected threshold)
  then show ?case
    unfolding highest_def by (intro exI [of _ "[]"] exI [of _ threshold] exI [of _ "[]"]) auto
next
  case (2 input tier tiers selected threshold)
  have rest: "sorted (map ct_context_tokens tiers)" using "2.prems" by simp
  show ?case
  proof (cases "input < ct_context_tokens tier")
    case True
    with "2.prems" have "\<forall>e\<in>set (map (\<lambda>t. (ct_context_tokens t, ct_rates t)) (tier # tiers)). \<not> fst e \<le> input"
      by auto
    with True "2.prems"(2) show ?thesis
      unfolding highest_def by (intro exI [of _ "[]"] exI [of _ threshold] exI [of _ "map (\<lambda>t. (ct_context_tokens t, ct_rates t)) (tier # tiers)"]) auto
  next
    case False
    show ?thesis
    proof (cases "threshold \<le> ct_context_tokens tier")
      case True
      with "2.IH"(1) [OF False True rest] False highest_Cons show ?thesis by (auto simp: not_less)
    next
      case less: False
      with "2.IH"(2) [OF False less rest] "2.prems"(2) False show ?thesis by (auto simp: not_le intro!: highest_skip)
    qed
  qed
qed

lemma rates_for_input_highest:
  assumes "sorted (map ct_context_tokens (cc_tiers cost))"
  shows "highest (entries_of cost) input (rates_for_input cost input)"
proof (cases "cc_over_200k cost")
  case None
  then show ?thesis
    using select_tier_highest [OF assms, of 0 input] by (simp add: entries_of_def rates_for_input_def)
next
  case (Some rates)
  show ?thesis
  proof (cases "input \<ge> 200000")
    case True
    then show ?thesis
      using highest_Cons [OF _ _ select_tier_highest [OF assms, of 200000 input rates], of 0] Some
      by (simp add: entries_of_def rates_for_input_def)
  next
    case False
    then show ?thesis
      using highest_skip [OF _ _ select_tier_highest [OF assms, of 0 input "cc_rates cost"], of 200000] Some
      by (simp add: entries_of_def rates_for_input_def)
  qed
qed

lemma highest_unique: "highest es input a \<Longrightarrow> highest es input b \<Longrightarrow> a = b"
proof -
  assume "highest es input a" "highest es input b"
  then obtain pre t post pre' t' post' where a: "es = pre @ (t, a) # post" "t \<le> input"
    "\<forall>e\<in>set pre. fst e \<le> input \<longrightarrow> fst e \<le> t" "\<forall>e\<in>set post. fst e \<le> input \<longrightarrow> fst e < t"
    and b: "es = pre' @ (t', b) # post'" "t' \<le> input"
    "\<forall>e\<in>set pre'. fst e \<le> input \<longrightarrow> fst e \<le> t'" "\<forall>e\<in>set post'. fst e \<le> input \<longrightarrow> fst e < t'"
    unfolding highest_def by blast
  then have "pre @ (t, a) # post = pre' @ (t', b) # post'" by simp
  with a b show ?thesis by (fastforce simp: append_eq_append_conv2 append_eq_Cons_conv Cons_eq_append_conv)
qed

text \<open>The rates that a request is charged at: what the user set for the model, else the catalogue's.\<close>

definition charged_at :: "('k \<rightharpoonup> model_pricing) \<Rightarrow> ('k \<rightharpoonup> catalog_cost) \<Rightarrow> 'k \<Rightarrow> nat \<Rightarrow> model_pricing \<Rightarrow> bool" where
  "charged_at pricing catalog model input r \<longleftrightarrow>
     pricing model = Some r
     \<or> pricing model = None \<and> (\<exists>cost c. catalog model = Some cost \<and> highest (entries_of cost) input c
         \<and> r = \<lparr>per_input = Some (cr_input c), per_output = Some (cr_output c), per_reasoning = cr_reasoning c,
              per_cache_read = cr_cache_read c, per_cache_write = cr_cache_write c\<rparr>)"

subsection \<open>The charge of a request\<close>

text \<open>A rate, or that of the class it belongs to; none is free, which only a class without tokens is.\<close>

definition rate_in :: "nat option \<Rightarrow> nat option \<Rightarrow> int" where
  "rate_in own general = (case own of Some r \<Rightarrow> int r | None \<Rightarrow> (case general of Some r \<Rightarrow> int r | None \<Rightarrow> 0))"

text \<open>
  The input that was neither read from the cache nor written to it, the input that was, the output without
  the reasoning, and the reasoning, each token at the rate of its class.
\<close>

definition charge :: "model_pricing \<Rightarrow> token_usage \<Rightarrow> nat \<Rightarrow> nat \<Rightarrow> int" where
  "charge r u input outp =
     (let cached = int (amount CacheRead u); written = int (amount CacheWrite u); reasoning = int (amount Reasoning u)
      in (int input - cached - written) * rate_in (per_input r) None
         + cached * rate_in (per_cache_read r) (per_input r) + written * rate_in (per_cache_write r) (per_input r)
         + (int outp - reasoning) * rate_in (per_output r) None + reasoning * rate_in (per_reasoning r) (per_output r))"

text \<open>
  The tokens of a class with a rate of its own are counted apart from the rest: they must be reported, fit
  together in the whole, and leave nothing when there is no general rate.
\<close>

definition accounted :: "nat option \<Rightarrow> (nat option \<times> nat option) list \<Rightarrow> nat \<Rightarrow> bool" where
  "accounted general classes whole \<longleftrightarrow>
     (let apart = map fst (filter (\<lambda>(reported, own). own \<noteq> None \<and> own \<noteq> general) classes)
      in None \<notin> set apart \<and> sum_list (map the apart) \<le> whole \<and> (general = None \<longrightarrow> sum_list (map the apart) = whole))"

lemma accounted_Nil: "accounted general [] whole \<longleftrightarrow> (general = None \<longrightarrow> whole = 0)"
  by (auto simp: accounted_def)

lemma accounted_Cons: "accounted general ((reported, own) # classes) whole \<longleftrightarrow>
    (if own = None \<or> own = general then accounted general classes whole
     else \<exists>tokens. reported = Some tokens \<and> tokens \<le> whole \<and> accounted general classes (whole - tokens))"
  by (cases reported) (auto simp: accounted_def Let_def)

definition reported_tokens :: "nat option \<Rightarrow> int" where
  "reported_tokens r = (case r of Some n \<Rightarrow> int n | None \<Rightarrow> 0)"

definition split_charge :: "nat option \<Rightarrow> (nat option \<times> nat option) list \<Rightarrow> nat \<Rightarrow> int" where
  "split_charge general classes whole =
     int whole * rate_in general None
     + sum_list (map (\<lambda>(reported, own). reported_tokens reported * (rate_in own general - rate_in general None)) classes)"

lemma split_charge_Cons:
  "split_charge general ((reported, own) # classes) whole =
    (if own = None \<or> own = general then split_charge general classes whole
     else split_charge general classes whole + reported_tokens reported * (rate_in own general - rate_in general None))"
  by (auto simp: split_charge_def rate_in_def split: option.splits)

lemma split_charge_less: "tokens \<le> whole \<Longrightarrow>
    split_charge general classes (whole - tokens) = split_charge general classes whole - int tokens * rate_in general None"
  by (simp add: split_charge_def of_nat_diff algebra_simps)

lemma split_charge_nonneg: "accounted general classes whole \<Longrightarrow> 0 \<le> split_charge general classes whole"
proof (induction classes arbitrary: whole)
  case Nil
  then show ?case by (simp add: split_charge_def rate_in_def split: option.splits)
next
  case (Cons cls classes)
  obtain reported own where cls: "cls = (reported, own)" by (cases cls)
  show ?case
  proof (cases "own = None \<or> own = general")
    case True
    with Cons show ?thesis by (simp add: cls accounted_Cons split_charge_Cons)
  next
    case False
    with Cons.prems obtain tokens where t: "reported = Some tokens" "tokens \<le> whole" "accounted general classes (whole - tokens)"
      by (auto simp: cls accounted_Cons)
    have "0 \<le> int tokens * rate_in own general" by (simp add: rate_in_def split: option.splits)
    with Cons.IH [OF t(3)] False t(1,2) show ?thesis
      by (cases own) (simp_all add: cls split_charge_Cons split_charge_less reported_tokens_def algebra_simps)
  qed
qed

lemma category_cost_iff:
  "category_cost tokens rate = Some c \<longleftrightarrow> (rate = None \<longrightarrow> tokens = 0) \<and> int c = int tokens * rate_in rate None \<and> c \<le> U128_MAX"
  by (cases rate) (auto simp: category_cost_def checked_within_def rate_in_def mult.commute simp flip: of_nat_mult split: if_splits)

lemma split_from_iff:
  "split_from general (map (\<lambda>(reported, own). (reported, either own general)) classes) whole cost = Some c \<longleftrightarrow>
    accounted general classes whole \<and> int c = int cost + split_charge general classes whole \<and> c \<le> U128_MAX"
proof (induction classes arbitrary: whole cost)
  case Nil
  have "split_from general [] whole cost = Some c \<longleftrightarrow> (\<exists>x. category_cost whole general = Some x \<and> c = cost + x \<and> c \<le> U128_MAX)"
    by (auto simp: bind_eq_Some_conv checked_within_def)
  also have "\<dots> \<longleftrightarrow> (general = None \<longrightarrow> whole = 0) \<and> int c = int cost + int whole * rate_in general None \<and> c \<le> U128_MAX"
  proof (intro iffI)
    assume right: "(general = None \<longrightarrow> whole = 0) \<and> int c = int cost + int whole * rate_in general None \<and> c \<le> U128_MAX"
    have "0 \<le> int whole * rate_in general None" by (simp add: rate_in_def split: option.splits)
    with right show "\<exists>x. category_cost whole general = Some x \<and> c = cost + x \<and> c \<le> U128_MAX"
      by (intro exI [of _ "c - cost"]) (auto simp: category_cost_iff of_nat_diff)
  qed (auto simp: category_cost_iff)
  finally show ?case by (simp add: accounted_Nil split_charge_def)
next
  case (Cons cls classes)
  obtain reported own where cls: "cls = (reported, own)" by (cases cls)
  show ?case
  proof (cases "own = None \<or> own = general")
    case True
    then have "either own general = general" by (auto simp: either_def)
    with Cons True show ?thesis by (simp add: cls accounted_Cons split_charge_Cons)
  next
    case False
    then obtain r where r: "own = Some r" "either own general = own" "own \<noteq> general" by (auto simp: either_def)
    show ?thesis
    proof (cases "\<exists>tokens. reported = Some tokens \<and> tokens \<le> whole")
      case fit: True
      then obtain tokens where t: "reported = Some tokens" "tokens \<le> whole" by blast
      have cost: "category_cost tokens (Some r) = Some x \<longleftrightarrow> x = r * tokens \<and> x \<le> U128_MAX" for x
        by (auto simp: category_cost_iff rate_in_def mult.commute simp flip: of_nat_mult)
      have "split_from general (map (\<lambda>(reported, own). (reported, either own general)) (cls # classes)) whole cost = Some c \<longleftrightarrow>
        cost + r * tokens \<le> U128_MAX \<and> accounted general classes (whole - tokens)
        \<and> int c = int (cost + r * tokens) + split_charge general classes (whole - tokens) \<and> c \<le> U128_MAX"
        using r t by (auto simp: cls bind_eq_Some_conv checked_within_def cost Cons.IH simp del: of_nat_add)
      also have "\<dots> \<longleftrightarrow> accounted general classes (whole - tokens)
        \<and> int c = int (cost + r * tokens) + split_charge general classes (whole - tokens) \<and> c \<le> U128_MAX"
        using split_charge_nonneg [of general classes "whole - tokens"] by (auto simp flip: of_nat_mult)
      finally show ?thesis
        using r t by (simp add: cls accounted_Cons split_charge_Cons split_charge_less reported_tokens_def rate_in_def algebra_simps)
    next
      case unfit: False
      with r show ?thesis
        by (cases reported) (auto simp: cls accounted_Cons)
    qed
  qed
qed

lemma reported_amount:
  "reported_tokens (u_cache_read u) = int (amount CacheRead u)" "reported_tokens (u_cache_write u) = int (amount CacheWrite u)"
  "reported_tokens (u_reasoning u) = int (amount Reasoning u)"
  by (auto simp: reported_tokens_def split: option.splits)

definition tokens_accounted :: "model_pricing \<Rightarrow> token_usage \<Rightarrow> nat \<Rightarrow> nat \<Rightarrow> bool" where
  "tokens_accounted r u input outp \<longleftrightarrow>
     accounted (per_input r) [(u_cache_read u, per_cache_read r), (u_cache_write u, per_cache_write r)] input
     \<and> accounted (per_output r) [(u_reasoning u, per_reasoning r)] outp"

lemma request_cost_iff:
  "request_cost u r = Some c \<longleftrightarrow>
    (\<exists>input outp. u_input u = Some input \<and> u_output u = Some outp \<and> tokens_accounted r u input outp
      \<and> int c = charge r u input outp \<and> c \<le> U128_MAX)"
proof (cases "\<exists>input outp. u_input u = Some input \<and> u_output u = Some outp")
  case True
  then obtain input outp where io: "u_input u = Some input" "u_output u = Some outp" by blast
  let ?in = "[(u_cache_read u, per_cache_read r), (u_cache_write u, per_cache_write r)]"
  let ?out = "[(u_reasoning u, per_reasoning r)]"
  have sum: "charge r u input outp = split_charge (per_input r) ?in input + split_charge (per_output r) ?out outp"
    by (simp add: charge_def split_charge_def reported_amount Let_def algebra_simps del: amount.simps)
  have "request_cost u r = Some c \<longleftrightarrow> (\<exists>ci co.
      split_from (per_input r) (map (\<lambda>(reported, own). (reported, either own (per_input r))) ?in) input 0 = Some ci
      \<and> split_from (per_output r) (map (\<lambda>(reported, own). (reported, either own (per_output r))) ?out) outp 0 = Some co
      \<and> c = ci + co \<and> c \<le> U128_MAX)"
    using io by (auto simp: request_cost_def split_cost_def bind_eq_Some_conv checked_within_def simp del: split_from.simps)
  also have "\<dots> \<longleftrightarrow> tokens_accounted r u input outp \<and> int c = charge r u input outp \<and> c \<le> U128_MAX"
  proof (intro iffI)
    assume right: "tokens_accounted r u input outp \<and> int c = charge r u input outp \<and> c \<le> U128_MAX"
    then have "0 \<le> split_charge (per_input r) ?in input" "0 \<le> split_charge (per_output r) ?out outp"
      by (auto simp: tokens_accounted_def intro: split_charge_nonneg)
    with right sum show "\<exists>ci co.
      split_from (per_input r) (map (\<lambda>(reported, own). (reported, either own (per_input r))) ?in) input 0 = Some ci
      \<and> split_from (per_output r) (map (\<lambda>(reported, own). (reported, either own (per_output r))) ?out) outp 0 = Some co
      \<and> c = ci + co \<and> c \<le> U128_MAX"
      unfolding split_from_iff tokens_accounted_def
      by (intro exI [of _ "nat (split_charge (per_input r) ?in input)"] exI [of _ "nat (split_charge (per_output r) ?out outp)"]) auto
  qed (auto simp only: split_from_iff tokens_accounted_def sum of_nat_add of_nat_0 add_0)
  finally show ?thesis using io by auto
next
  case False
  then show ?thesis by (auto simp: request_cost_def bind_eq_Some_conv)
qed

lemma rounded_pico_usd_iff:
  "rounded_pico_usd n = Some cost \<longleftrightarrow> cost = (n + 500000) div 1000000 \<and> cost \<le> U64_MAX"
proof -
  have "n + 500000 \<le> U128_MAX" if "(n + 500000) div 1000000 \<le> U64_MAX"
  proof -
    have "n + 500000 < (U64_MAX + 1) * 1000000" using that by (simp add: less_mult_imp_div_less div_less_iff_less_mult)
    also have "\<dots> \<le> U128_MAX" by (simp add: U64_MAX_def U128_MAX_def)
    finally show ?thesis by simp
  qed
  then show ?thesis
    by (auto simp: rounded_pico_usd_def checked_within_def TOKENS_PER_MILLION_def bind_eq_Some_conv)
qed

lemma charge_nonneg: "tokens_accounted r u input outp \<Longrightarrow> 0 \<le> charge r u input outp"
proof -
  assume "tokens_accounted r u input outp"
  then have "0 \<le> split_charge (per_input r) [(u_cache_read u, per_cache_read r), (u_cache_write u, per_cache_write r)] input
      + split_charge (per_output r) [(u_reasoning u, per_reasoning r)] outp"
    by (auto simp: tokens_accounted_def intro!: add_nonneg_nonneg split_charge_nonneg)
  then show ?thesis
    by (simp add: charge_def split_charge_def reported_amount Let_def algebra_simps del: amount.simps)
qed

text \<open>
  C21. A request costs what its tokens cost. The estimate is known exactly when the request reports its input
  and output, there are rates for it (the user's for the model, or else those of the catalogue's highest tier that
  the input reaches) that account for every token, and the sum fits; it is then the sum over the input without
  the cache, what was read from the cache, what was written to it, the output without the reasoning, and the
  reasoning, each token once at the rate of its class (a class without one at the general rate), rounded to
  the nearest pico-dollar.  The tiers of the catalogue are in order, as its parser leaves them.
\<close>

theorem tokens_charged_once:
  assumes "\<And>c. catalog model = Some c \<Longrightarrow> sorted (map ct_context_tokens (cc_tiers c))"
  shows "estimated_cost_pico_usd pricing catalog model u = Some cost \<longleftrightarrow>
    (\<exists>input outp r. u_input u = Some input \<and> u_output u = Some outp
      \<and> charged_at pricing catalog model input r \<and> tokens_accounted r u input outp
      \<and> int cost = (charge r u input outp + 500000) div 1000000 \<and> cost \<le> U64_MAX)"
proof -
  have rates: "(case pricing model of Some rates \<Rightarrow> Some rates
      | None \<Rightarrow> Option.bind (u_input u) (\<lambda>input.
          map_option (\<lambda>cost. pricing_of_catalog (rates_for_input cost input)) (catalog model))) = Some r
    \<longleftrightarrow> charged_at pricing catalog model input r" if "u_input u = Some input" for input r
  proof (cases "pricing model")
    case None
    show ?thesis
    proof (cases "catalog model")
      case (Some c)
      have "highest (entries_of c) input a \<longleftrightarrow> a = rates_for_input c input" for a
        using rates_for_input_highest [OF assms [OF Some], of input] by (auto intro: highest_unique)
      with None Some that show ?thesis by (auto simp: charged_at_def pricing_of_catalog_def)
    qed (use None that in \<open>simp add: charged_at_def\<close>)
  qed (auto simp: charged_at_def)
  have charge: "int ((c + 500000) div 1000000) = (charge r u input outp + 500000) div 1000000"
    if "int c = charge r u input outp" for c r input outp
    by (simp add: that [symmetric] zdiv_int)
  show ?thesis
  proof (intro iffI)
    assume "estimated_cost_pico_usd pricing catalog model u = Some cost"
    then show "\<exists>input outp r. u_input u = Some input \<and> u_output u = Some outp
      \<and> charged_at pricing catalog model input r \<and> tokens_accounted r u input outp
      \<and> int cost = (charge r u input outp + 500000) div 1000000 \<and> cost \<le> U64_MAX"
      unfolding estimated_cost_pico_usd_def bind_eq_Some_conv request_cost_iff rounded_pico_usd_iff
      by (metis charge rates)
  next
    assume "\<exists>input outp r. u_input u = Some input \<and> u_output u = Some outp
      \<and> charged_at pricing catalog model input r \<and> tokens_accounted r u input outp
      \<and> int cost = (charge r u input outp + 500000) div 1000000 \<and> cost \<le> U64_MAX"
    then obtain input outp r where ex: "u_input u = Some input" "u_output u = Some outp"
      "charged_at pricing catalog model input r" "tokens_accounted r u input outp"
      "int cost = (charge r u input outp + 500000) div 1000000" "cost \<le> U64_MAX" by blast
    then have nonneg: "0 \<le> charge r u input outp" by (simp add: charge_nonneg)
    have cost: "cost = (nat (charge r u input outp) + 500000) div 1000000"
      using charge [of "nat (charge r u input outp)"] nonneg ex(5) by simp
    then have "nat (charge r u input outp) + 500000 < (U64_MAX + 1) * 1000000" using ex(6) by (simp add: div_less_iff_less_mult)
    also have "\<dots> \<le> U128_MAX" by (simp add: U64_MAX_def U128_MAX_def)
    finally have "request_cost u r = Some (nat (charge r u input outp))"
      unfolding request_cost_iff using ex nonneg by (intro exI [of _ input] exI [of _ outp]) simp
    moreover have "rounded_pico_usd (nat (charge r u input outp)) = Some cost"
      using cost ex(6) by (simp add: rounded_pico_usd_iff)
    ultimately show "estimated_cost_pico_usd pricing catalog model u = Some cost"
      unfolding estimated_cost_pico_usd_def bind_eq_Some_conv using ex(3) rates [OF ex(1)] by blast
  qed
qed

subsection \<open>Witnesses\<close>

theorem rate_text_roundtrip_witness: "parse_decimal (decimal_string 1250000000000) False = Some 1250000000000"
  by (rule rate_text_roundtrip) (simp add: U128_MAX_def)

definition tier_rates :: "nat \<Rightarrow> catalog_rates" where
  "tier_rates n = \<lparr>cr_input = n, cr_output = 15000000, cr_reasoning = None, cr_cache_read = Some (n div 10), cr_cache_write = None\<rparr>"

definition tiered_cost :: catalog_cost where
  "tiered_cost = \<lparr>cc_rates = tier_rates 3000000, cc_over_200k = None,
     cc_tiers = [\<lparr>ct_context_tokens = 500, ct_rates = tier_rates 6000000\<rparr>, \<lparr>ct_context_tokens = 2000, ct_rates = tier_rates 9000000\<rparr>]\<rparr>"

definition cached_usage :: token_usage where
  "cached_usage = (witness_usage 1000)\<lparr>u_cache_read := Some 400\<rparr>"

lemma tiered_estimate: "estimated_cost_pico_usd Map.empty [7 \<mapsto> tiered_cost] (7::nat) cached_usage = Some 3870"
  by (simp add: estimated_cost_pico_usd_def tiered_cost_def tier_rates_def rates_for_input_def pricing_of_catalog_def
      request_cost_def split_cost_def either_def category_cost_def checked_within_def rounded_pico_usd_def cached_usage_def
      witness_usage_def U128_MAX_def U64_MAX_def TOKENS_PER_MILLION_def)

theorem tokens_charged_once_witness:
  "\<exists>input outp r. u_input cached_usage = Some input \<and> u_output cached_usage = Some outp
      \<and> charged_at Map.empty [7::nat \<mapsto> tiered_cost] 7 input r \<and> tokens_accounted r cached_usage input outp
      \<and> int 3870 = (charge r cached_usage input outp + 500000) div 1000000 \<and> 3870 \<le> U64_MAX"
proof -
  have "sorted (map ct_context_tokens (cc_tiers c))" if "[7::nat \<mapsto> tiered_cost] 7 = Some c" for c
    using that by (auto simp: tiered_cost_def)
  then show ?thesis by (rule tokens_charged_once [THEN iffD1]) (assumption, rule tiered_estimate)
qed

end
