(* ===== verification/Spec2Isabelle.thy ===== *)
theory Spec2Isabelle
  imports Wildcard Paths Permission_Rules Permission_Match Approvals Permission_Decide Loop_Guard
    Backoff Subscriptions Goal_Fold Producer_Fold Sem_Ver
    Agent_Snapshot Delegations Cron_Schedule Cron_Jobs Display_Fit In_Flight Durability Live_Tails
    Usage Prices
begin

text \<open>
  A verification development for Cookie Agent, a daemon that runs coding agents and the
  clients that attach to it (\<open>src/crates/\<close>, Rust). It models the pure decision logic of the
  daemon and of the client state.

  How the parts fit together. An agent's document and the defaults of its mode give the
  permission rules of a run; the session's overlay changes them at each decision. When a model
  calls a tool, the call is prepared as an operation with resources; each resource is decided
  by the most specific matching rule, a path read by its label; an operation that asks
  becomes an approval request, whose answers are recorded and may leave a tree grant that
  answers later calls of the same operation. The loop guard compares the run's latest calls
  and warns of repetitions. Clients keep sessions subscribed over a connection and redial a
  dropped daemon with a backoff. A session's log is folded into its goal and the messages that
  producers send to it, which runs are admitted to read, claim and consume. An agent is frozen
  into the manifest of the run it starts; the runs it delegates are kept in a table from which a
  restart takes them up again. Cron jobs start runs by themselves: a scheduler claims the fires
  that are due, an expression gives the next one, and what happened is recorded in the store.
  A tool describes its result as display blocks, which are cleaned of control characters, cut to
  a budget and shown to each client as far as its version knows them; while the tool runs its
  display grows by deltas. What is in flight of a run is kept so that a client that attaches
  late is sent all of it. An event is written to the log, synced when something acts on it, and
  published to the tails of the attached clients in the order of the log. The rates of a model price
  a request when its usage is recorded, and the log is folded into what a session used and cost.

  Theories, from the bottom:

  \<^item> \<open>Prelude\<close>: Rust's string operations as list functions, \<open>max_by_key\<close> and
    \<open>min_by_key\<close>, \<open>Reverse\<close>, and the locale \<open>event_fold\<close> (a step function with an invariant).
  \<^item> \<open>Hash_Map\<close>: the hash map and the locale \<open>keyed_store\<close> with the laws its clients use,
    interpreted on it.
  \<^item> \<open>Wildcard\<close>: \<open>config/src/wildcard.rs\<close> and \<open>patterns_intersect\<close> of
    \<open>engine_permissions/src/lib.rs\<close>. The backtracking loop and the search over pattern
    positions are recursive functions with termination proofs; \<open>glob\<close> is their specification.
  \<^item> \<open>Paths\<close>: \<open>protocol/src/paths/lexical.rs\<close>, labels in both styles.
  \<^item> \<open>Permission_Rules\<close>: actions, keys, patterns, overlays (\<open>protocol/src/agent.rs\<close>,
    \<open>identity/src/lib.rs\<close>, \<open>config/src/agents.rs\<close>) and the default rules
    (\<open>engine_permissions/src/lib.rs\<close>).
  \<^item> \<open>Permission_Match\<close> and \<open>Permission_Decide\<close>: \<open>PermissionScope\<close>, the match of a rule,
    \<open>MergedRules\<close>, \<open>PermissionPipeline\<close>, the tools offered and the \<open>/permissions\<close> view.
  \<^item> \<open>Approvals\<close>: \<open>protocol/src/approval.rs\<close> (constructors and \<open>validate\<close> methods) and
    \<open>ApprovalStore\<close>; the abstract state \<open>in_force\<close> and the refinement onto it.
  \<^item> \<open>Loop_Guard\<close>: \<open>engine/src/runtime/loop_guard.rs\<close>; the digest cache is threaded state, and
    \<open>tail_repeats\<close> is the specification of a loop.
  \<^item> \<open>Backoff\<close>: \<open>identity/src/backoff.rs\<close> and \<open>RedialDelays\<close>; the locale \<open>delay_source\<close>.
  \<^item> \<open>Subscriptions\<close>: \<open>client_state/src/subscriptions.rs\<close>; \<open>sub_run\<close> composes the calls of a client.
  \<^item> \<open>Goal_Fold\<close> and \<open>Producer_Fold\<close>: \<open>engine_store/src/goal_projection.rs\<close>, the folds of a
    session's log into its goal and its producer messages. \<open>goal_step\<close> and \<open>producer_step\<close> are the
    contracts of a step, as inductive relations; an index out of range is \<open>None\<close>, and the
    invariant that \<open>event_fold\<close> carries over a log excludes it.
  \<^item> \<open>Sem_Ver\<close>: \<open>protocol/src/semver.rs\<close>, the text of a protocol version and the negotiation.
  \<^item> \<open>Agent_Snapshot\<close>: the frozen agent of a run and its model bindings with their checks
    (\<open>protocol/src/agent.rs\<close>, \<open>protocol/src/model.rs\<close>, \<open>models/src/adapters/mod.rs\<close>).
  \<^item> \<open>Delegations\<close>: \<open>engine_store/src/delegation_events.rs\<close> over the logs of the parents; the
    locale \<open>event_fold\<close> carries the agreement of the table with what the logs rebuild.
  \<^item> \<open>Cron_Schedule\<close>: \<open>engine/src/crons/schedule.rs\<close>, expressions, the search for the next
    fire and delays; the locale \<open>fire_source\<close> is what the counting loops need of a schedule.
  \<^item> \<open>Cron_Jobs\<close>: \<open>engine/src/crons.rs\<close> and \<open>engine/src/runtime/cron/\<close>, the store of jobs and
    each change of it; \<open>cron_step\<close> and \<open>cron_run\<close> are its histories, with claims as labels.
  \<^item> \<open>Display_Text\<close>, \<open>Display_Blocks\<close> and \<open>Display_Fit\<close>: \<open>protocol/src/display.rs\<close>. The first has
    the control characters and escape sequences that a text may carry, with the grammar that the
    check decides; the second the blocks with their check, cleaning and text; the third the cutting of a
    display to a budget, live displays with their deltas, what an audience is sent, and the
    presentation of a call.
  \<^item> \<open>In_Flight\<close>: \<open>engine_store/src/session/in_flight.rs\<close>, the live output of a session: recorded,
    settled by the events that supersede it, and replayed to a late reader.
  \<^item> \<open>Durability\<close>: \<open>engine_store/src/events/durability.rs\<close>. Each method is split where it lets
    go of the lock to sync; \<open>log_step\<close> is the system of callers, writer and disk around it.
  \<^item> \<open>Live_Tails\<close>: the tails of \<open>engine_store/src/session/mod.rs\<close> with their bounded channels and the
    publications of \<open>engine_store/src/session/publication.rs\<close>; \<open>system_step\<close> adds the log and the readers,
    and \<open>event_fold\<close> carries what a reader holds against the log over any sequence of operations.
  \<^item> \<open>Usage\<close>: \<open>engine_store/src/usage.rs\<close> and what \<open>engine_store/src/session/fold.rs\<close> keeps of usage: the
    rollup of a session's requests by model, its merge over a tree of sessions and its cost. \<open>exact\<close> is
    the rollup that unbounded sums give, \<open>roll\<close> the one that is recorded, and the fold of each appended
    event is equal to the fold of the whole log.
  \<^item> \<open>Prices\<close>: the rates of \<open>models/src/catalog/records.rs\<close> with their decimal texts, the tiers, and what
    \<open>engine_store/src/usage.rs\<close> estimates a request to cost.

  Conventions. A struct is a record, an enum a datatype, \<open>Result\<close> a sum with the error on the
  left, a panicking assertion the value \<open>None\<close>. Texts are character lists over the code points up
  to 255; in the theories of displays, where the code counts the bytes of UTF-8, they are lists of
  Unicode scalar values (\<open>utext\<close>). Integers are natural numbers with the bounds written out where the code saturates or
  checks, and \<open>64 word\<close> where it wraps. Interior mutability and locks are dropped: a method
  that locks a map is a function of the map. No definition needs fuel: a loop has a measure given with
  it, except the one over a cron field's range, where a step near \<open>2 ^ 32\<close> wraps; it is a
  \<open>partial_function\<close> whose value \<open>None\<close> is not to return, and is proved to return.

  Parameters. The file system's canonical path of a path (\<open>canon\<close>), the JSON texts and the hash
  that make an operation's fingerprint (\<open>encoding\<close>), the hash of a tool's output (\<open>dig\<close>) and whether a log
  takes a record (\<open>accepts\<close>) come from outside the repository and are arguments. So are \<open>jiff\<close>'s calendar and time zones, as the
  records \<open>calendar\<close> and \<open>time_zone\<close> of the functions called, the lengths of JSON documents (\<open>sizes\<close>)
  and the forms that \<open>serde_json\<close> and \<open>format!\<close> give of values (\<open>formatters\<close>), what the file
  system answers to a sync, and the arithmetic of \<open>f64\<close> (\<open>floats\<close>). What a property needs of them is
  among its hypotheses, and its witness has a concrete instance (\<open>Cron_Schedule\<close> has the Gregorian
  calendar with UTC).

  Not modelled: storage, transports, the model providers, the terminal and web clients, tools
  and the runtimes that execute them, and the readers of JSON documents; they are input and
  output around the decisions modelled here. Memory URLs, the planning of cache expiry and the identity
  of declared operations are left out as well. Of the session store only the syncs of a log, its live
  tails and the folds named above are here. Of cron jobs the file they are
  kept in, the delivery of a fire's prompt and the forms shown to clients are left out.
\<close>

subsection \<open>From decisions to requests\<close>

lemma decided_digests:
  assumes "decide_operation_with_grants canon policy overlay grants operation labels scope = Some d"
  shows "map ev_digest (pd_evaluations d) = map res_digest (op_resources operation)"
proof -
  obtain d0 where d0: "decide_operation_with_overlay canon policy overlay operation labels scope = Some d0"
    using assms by (auto simp: decide_operation_with_grants_def split: option.splits)
  note base = decide_operation_Some [OF d0]
  have "map ev_digest (pd_evaluations d0) = map (res_digest \<circ> fst) (zip (op_resources operation) labels)"
    by (simp add: base(3) evaluate_resource_def Let_def case_prod_beta')
  then have digests: "map ev_digest (pd_evaluations d0) = map res_digest (op_resources operation)"
    using base(1) by (simp flip: map_map)
  have len: "length (pd_evaluations d0) = length (zip (op_resources operation) labels)"
    by (simp add: base(3))
  have keep: "ev_digest (apply_grants canon gs scope z) = ev_digest (fst z)" for gs z
    by (auto simp: apply_grants_def split: prod.splits)
  have "map ev_digest (map fst (zip (pd_evaluations d0) (zip (op_resources operation) labels)))
      = map ev_digest (pd_evaluations d0)"
    using len by (subst map_fst_zip) auto
  then have "map ev_digest (map (apply_grants canon gs scope)
      (zip (pd_evaluations d0) (zip (op_resources operation) labels))) = map ev_digest (pd_evaluations d0)"
    for gs
    by (simp add: keep comp_def)
  then show ?thesis
    using assms d0 digests by (auto simp: decide_operation_with_grants_def Let_def split: option.splits)
qed

text \<open>
  C9. Whatever is decided can be asked: the evaluations that a permission decision gives for a
  checked operation cover its resources exactly, so that they make a valid approval request of
  any positive revision, as long as it offers no tree grant.
\<close>

theorem decision_makes_request:
  assumes "prepared_operation_new arguments caps resources ctx = Inr operation"
    and "decide_operation_with_grants canon policy overlay grants operation labels scope = Some d"
    and "0 < revision" and "\<not> allow_tree_grant cs"
  shows "\<exists>rq. request_new enc approval revision tool_call trig operation (pd_evaluations d) cs = Inr rq
    \<and> rq_operation rq = operation \<and> rq_fingerprint rq = fingerprint enc operation"
proof -
  note digests = decided_digests [OF assms(2)]
  then have "length (pd_evaluations d) = length (op_resources operation)"
    by (metis length_map)
  moreover have "op_resources operation \<noteq> []" "length (op_resources operation) \<le> 256"
    using assms(1) by (auto simp: prepared_operation_new_Inr)
  ultimately show ?thesis
    using assms(3,4) digests by (auto simp: request_new_def request_with_fingerprint_def)
qed

theorem decision_makes_request_witness:
  "\<exists>d rq. decide_operation_with_grants Some sample_policy None None sample_operation
      [Some ''https://x''] sample_scope = Some d
    \<and> request_new sample_encoding 3 1 2 PermissionPolicy sample_operation (pd_evaluations d)
        \<lparr>allow_once = True, allow_tree_grant = False, cancellable = True, expires_at = None\<rparr> = Inr rq"
proof -
  have op: "prepared_operation_new ''a'' (op_capabilities sample_operation) [sample_resource] ''c''
      = Inr sample_operation"
    by code_simp
  obtain d where d: "decide_operation_with_grants Some sample_policy None None sample_operation
      [Some ''https://x''] sample_scope = Some d"
    by (auto simp: decide_operation_with_grants_def decide_operation_with_overlay_def
        sample_operation_def Let_def)
  let ?cs = "\<lparr>allow_once = True, allow_tree_grant = False, cancellable = True, expires_at = None\<rparr>"
  from decision_makes_request [OF op d, of 1 ?cs sample_encoding 3 2 PermissionPolicy] d
  show ?thesis by auto
qed

end
